(* ===== verification/Prelude.thy ===== *)
theory Prelude
  imports Main "HOL-Library.Word" "HOL-Library.Code_Target_Nat"
begin

unbundle bit_operations_syntax

text \<open>
  Shared vocabulary of the development: the machine integers of the Rust source, the
  result type, big-endian byte strings, slices and in-place copies, and the lemmas on
  them that the component theories use.

  A Rust \<open>u8\<close>, \<open>u16\<close>, \<open>u32\<close>, \<open>u64\<close> or \<open>u128\<close> is a word of that width. A \<open>usize\<close>
  that counts bytes, packets or indices is a \<open>nat\<close>: such a count is bounded by the memory
  it counts. \<open>Instant\<close> and \<open>Duration\<close> are \<open>nat\<close> (nanoseconds), so that
  \<open>saturating_duration_since\<close> is the truncating subtraction of \<open>nat\<close>. A
  \<open>Result<A, E>\<close> is \<open>'e + 'a\<close>, written with \<open>Err\<close> and \<open>Ok\<close>.
\<close>

type_synonym u8 = "8 word"
type_synonym u16 = "16 word"
type_synonym u32 = "32 word"
type_synonym u64 = "64 word"
type_synonym u128 = "128 word"
type_synonym bytes = "u8 list"
type_synonym instant = nat
type_synonym duration = nat

abbreviation Ok :: "'a \<Rightarrow> 'e + 'a" where "Ok \<equiv> Inr"
abbreviation Err :: "'e \<Rightarrow> 'e + 'a" where "Err \<equiv> Inl"

abbreviation millis :: "nat \<Rightarrow> duration" where "millis n \<equiv> n * 1000000"
abbreviation secs :: "nat \<Rightarrow> duration" where "secs n \<equiv> n * 1000000000"

named_theorems bits "values of shifts and masks on machine words"
named_theorems be_simps "big-endian encodings"

subsection \<open>Results\<close>

text \<open>The operator \<open>?\<close> and \<open>map_err\<close>.\<close>

definition rbind :: "'e + 'a \<Rightarrow> ('a \<Rightarrow> 'e + 'b) \<Rightarrow> 'e + 'b" where
  "rbind r f = (case r of Err e \<Rightarrow> Err e | Ok x \<Rightarrow> f x)"

definition map_err :: "('e \<Rightarrow> 'f) \<Rightarrow> 'e + 'a \<Rightarrow> 'f + 'a" where
  "map_err f r = (case r of Err e \<Rightarrow> Err (f e) | Ok x \<Rightarrow> Ok x)"

lemma rbind_simps [simp]:
  "rbind (Err e) f = Err e" "rbind (Ok x) f = f x"
  by (simp_all add: rbind_def)

lemma map_err_simps [simp]:
  "map_err f (Err e) = Err (f e)" "map_err f (Ok x) = Ok x"
  by (simp_all add: map_err_def)

lemma rbind_eq_Ok [simp]: "rbind r f = Ok y \<longleftrightarrow> (\<exists>x. r = Ok x \<and> f x = Ok y)"
  by (cases r) auto

lemma map_err_eq_Ok [simp]: "map_err f r = Ok y \<longleftrightarrow> r = Ok y"
  by (cases r) auto

lemma rbind_cong [fundef_cong]:
  "r = r' \<Longrightarrow> (\<And>x. r' = Ok x \<Longrightarrow> f x = f' x) \<Longrightarrow> rbind r f = rbind r' f'"
  by (cases r') auto

subsection \<open>Shifts and masks\<close>

lemma unat_drop_bit [bits]: "unat (drop_bit n (w :: 'a::len word)) = unat w div 2 ^ n"
  by (metis drop_bit_eq_div unat_drop_bit_eq)

lemma unat_and_mask [bits]: "unat (w AND mask n :: 'a::len word) = unat w mod 2 ^ n"
  by (metis take_bit_eq_mask take_bit_eq_mod unsigned_take_bit_eq)

lemma mask_numerals:
  "(15 :: 'a::len word) = mask 4" "(7 :: 'a word) = mask 3" "(63 :: 'a word) = mask 6"
  "(127 :: 'a word) = mask 7"
  by (simp_all add: mask_eq_exp_minus_1)

lemma unat_and_15 [bits]: "unat (w AND 15 :: 'a::len word) = unat w mod 16"
  by (simp only: mask_numerals(1) unat_and_mask) simp

lemma unat_and_63 [bits]: "unat (w AND 63 :: 'a::len word) = unat w mod 64"
  by (simp only: mask_numerals(3) unat_and_mask) simp

text \<open>Setting bits above a value adds them.\<close>

lemma nat_or_high: "n < 2 ^ k \<Longrightarrow> n OR (2 ^ k * c) = n + 2 ^ k * (c :: nat)"
proof -
  assume n: "n < 2 ^ k"
  have "\<not> bit n i \<or> \<not> bit (push_bit k c) i" for i
    using n by (metis bit_push_bit_iff bit_take_bit_iff not_le take_bit_nat_eq_self)
  then have "n + push_bit k c = n OR push_bit k c" by (rule disjunctive_add)
  then show ?thesis by (simp add: push_bit_eq_mult mult.commute)
qed

lemma unat_or_high:
  assumes "unat w < 2 ^ k" and "unat v = 2 ^ k * c"
  shows "unat (w OR v) = unat w + unat (v :: 'a::len word)"
  using nat_or_high [OF assms(1), of c] assms(2) by (simp add: unsigned_or_eq)

lemma unat_u8_less [simp]: "unat (b :: u8) < 256"
  using unsigned_less [of b] by simp

subsection \<open>Big-endian byte strings\<close>

text \<open>
  \<open>to_be n x\<close> is the \<open>n\<close>-byte big-endian form of \<open>x\<close> (\<open>to_be_bytes\<close>), \<open>from_be\<close> the
  value of a byte string (\<open>from_be_bytes\<close>).
\<close>

definition byte_of :: "nat \<Rightarrow> u8" where
  "byte_of n = word_of_nat n"

definition u16_of :: "nat \<Rightarrow> u16" where
  "u16_of n = word_of_nat n"

definition u32_of :: "nat \<Rightarrow> u32" where
  "u32_of n = word_of_nat n"

definition u64_of :: "nat \<Rightarrow> u64" where
  "u64_of n = word_of_nat n"

lemma unat_byte_of [simp]: "unat (byte_of x) = x mod 256"
  by (simp add: byte_of_def unat_of_nat)

lemma unat_u16_of [simp]: "unat (u16_of x) = x mod 65536"
  by (simp add: u16_of_def unat_of_nat)

lemma unat_u32_of [simp]: "unat (u32_of x) = x mod 4294967296"
  by (simp add: u32_of_def unat_of_nat)

lemma unat_u64_of [simp]: "unat (u64_of x) = x mod 18446744073709551616"
  by (simp add: u64_of_def unat_of_nat)

lemma word_eqI_unat: "unat v = unat w \<Longrightarrow> v = (w :: 'a::len word)"
  by (rule unsigned_word_eqI)

lemma of_unat [simp]:
  "byte_of (unat b) = b" "u16_of (unat h) = h" "u32_of (unat w) = w" "u64_of (unat d) = d"
  by (simp_all add: byte_of_def u16_of_def u32_of_def u64_of_def)

primrec to_be :: "nat \<Rightarrow> nat \<Rightarrow> bytes" where
  "to_be 0 x = []"
| "to_be (Suc n) x = to_be n (x div 256) @ [byte_of x]"

definition from_be :: "bytes \<Rightarrow> nat" where
  "from_be bs = foldl (\<lambda>a b. 256 * a + unat b) 0 bs"

lemma length_to_be [simp]: "length (to_be n x) = n"
  by (induction n arbitrary: x) auto

lemma from_be_Nil [simp]: "from_be [] = 0"
  by (simp add: from_be_def)

lemma from_be_snoc [simp]: "from_be (bs @ [b]) = 256 * from_be bs + unat b"
  by (simp add: from_be_def)

lemma from_be_append: "from_be (as @ bs) = from_be as * 256 ^ length bs + from_be bs"
proof (induction bs rule: rev_induct)
  case (snoc b bs)
  have "from_be (as @ bs @ [b]) = from_be ((as @ bs) @ [b])" by simp
  also have "\<dots> = 256 * from_be (as @ bs) + unat b" by (rule from_be_snoc)
  finally show ?case by (simp add: snoc.IH algebra_simps)
qed simp

lemma from_be_Cons: "from_be (b # bs) = unat b * 256 ^ length bs + from_be bs"
  using from_be_append [of "[b]" bs] from_be_snoc [of "[]" b] by simp

lemma from_be_less: "from_be bs < 256 ^ length bs"
proof (induction bs rule: rev_induct)
  case (snoc b bs)
  have "256 * from_be bs + unat b < 256 * (from_be bs + 1)" by simp
  also have "\<dots> \<le> 256 * 256 ^ length bs" using snoc.IH by simp
  finally show ?case by simp
qed simp

lemma from_be_to_be [simp]: "from_be (to_be n x) = x mod 256 ^ n"
proof (induction n arbitrary: x)
  case (Suc n)
  have "256 * (x div 256 mod 256 ^ n) + x mod 256 = x mod (256 * 256 ^ n)"
    by (metis add.commute mod_mult2_eq)
  then show ?case by (simp add: Suc.IH)
qed simp

lemma to_be_from_be [simp]: "to_be (length bs) (from_be bs) = bs"
proof (induction bs rule: rev_induct)
  case (snoc b bs)
  have "(256 * from_be bs + unat b) div 256 = from_be bs"
    by simp
  moreover have "byte_of (256 * from_be bs + unat b) = b"
    by (rule word_eqI_unat) simp
  ultimately show ?case by (simp add: snoc.IH)
qed simp

lemma from_be_inj: "length as = length bs \<Longrightarrow> from_be as = from_be bs \<Longrightarrow> as = bs"
  by (metis to_be_from_be)

lemma from_be_replicate0 [simp]: "from_be (replicate n 0 @ bs) = from_be bs"
  by (induction n) (simp_all add: from_be_Cons)

definition u16_from_be_bytes :: "u8 \<Rightarrow> u8 \<Rightarrow> u16" where
  "u16_from_be_bytes a b = u16_of (from_be [a, b])"

definition u16_to_be_bytes :: "u16 \<Rightarrow> bytes" where
  "u16_to_be_bytes w = to_be 2 (unat w)"

definition u32_to_be_bytes :: "u32 \<Rightarrow> bytes" where
  "u32_to_be_bytes w = to_be 4 (unat w)"

definition u64_to_be_bytes :: "u64 \<Rightarrow> bytes" where
  "u64_to_be_bytes w = to_be 8 (unat w)"

definition u64_from_be_bytes :: "bytes \<Rightarrow> u64" where
  "u64_from_be_bytes bs = u64_of (from_be bs)"

lemma length_uN_to_be_bytes [simp]:
  "length (u32_to_be_bytes w) = 4" "length (u64_to_be_bytes d) = 8"
  by (simp_all add: u32_to_be_bytes_def u64_to_be_bytes_def)

lemma unat_u16_from_be_bytes [be_simps]:
  "unat (u16_from_be_bytes a b) = 256 * unat a + unat b"
proof -
  have "from_be [a, b] < 256 ^ 2" using from_be_less [of "[a, b]"] by (simp add: power2_eq_square)
  then show ?thesis
    by (simp add: u16_from_be_bytes_def from_be_Cons)
qed

lemma length_u16_to_be_bytes [simp]: "length (u16_to_be_bytes w) = 2"
  by (simp add: u16_to_be_bytes_def)

lemma u16_to_be_bytes_nth [be_simps]:
  "u16_to_be_bytes w = [byte_of (unat w div 256), byte_of (unat w)]"
  by (simp add: u16_to_be_bytes_def numeral_2_eq_2)

lemma u16_be_roundtrip [be_simps]:
  "u16_from_be_bytes (byte_of (unat w div 256)) (byte_of (unat w)) = w"
proof (rule word_eqI_unat)
  have "unat w < 65536" using unsigned_less [of w] by simp
  then show "unat (u16_from_be_bytes (byte_of (unat w div 256)) (byte_of (unat w))) = unat w"
    by (simp add: be_simps)
qed

subsection \<open>Slices and copies\<close>

text \<open>\<open>range_of i j xs\<close> is \<open>xs[i..j]\<close>; \<open>copy_at off src buf\<close> is
  \<open>buf[off..off + src.len()].copy_from_slice(src)\<close>.\<close>

definition range_of :: "nat \<Rightarrow> nat \<Rightarrow> 'a list \<Rightarrow> 'a list" where
  "range_of i j xs = take (j - i) (drop i xs)"

definition copy_at :: "nat \<Rightarrow> 'a list \<Rightarrow> 'a list \<Rightarrow> 'a list" where
  "copy_at off src buf = take off buf @ src @ drop (off + length src) buf"

text \<open>\<open>Vec::resize\<close>.\<close>

definition resize :: "nat \<Rightarrow> 'a \<Rightarrow> 'a list \<Rightarrow> 'a list" where
  "resize n x buffer = take n buffer @ replicate (n - length buffer) x"

lemma length_resize [simp]: "length (resize n x buffer) = n"
  by (simp add: resize_def)

lemma length_range_of [simp]: "length (range_of i j xs) = min (j - i) (length xs - i)"
  by (simp add: range_of_def)

lemma take_past:
  assumes "length xs \<le> n"
  shows "take n (xs @ ys) = xs @ take (n - length xs) ys"
  using assms by simp

lemma range_of_nth:
  assumes "i + n \<le> length xs"
  shows "range_of i (i + n) xs = map (\<lambda>k. xs ! (i + k)) [0..<n]"
  using assms by (intro nth_equalityI) (auto simp: range_of_def)

lemma range_of_2:
  "i + 2 \<le> length xs \<Longrightarrow> range_of i (i + 2) xs = [xs ! i, xs ! (i + 1)]"
  by (simp only: range_of_nth) (simp add: upt_rec)

lemma range_of_4:
  "i + 4 \<le> length xs \<Longrightarrow> range_of i (i + 4) xs = [xs ! i, xs ! (i + 1), xs ! (i + 2), xs ! (i + 3)]"
  by (simp only: range_of_nth) (simp add: upt_rec numeral_3_eq_3)

lemma length_copy_at [simp]:
  "off + length src \<le> length buf \<Longrightarrow> length (copy_at off src buf) = length buf"
  by (simp add: copy_at_def)

lemma nth_copy_at:
  assumes "off + length src \<le> length buf" and "i < length buf"
  shows "copy_at off src buf ! i =
    (if off \<le> i \<and> i < off + length src then src ! (i - off) else buf ! i)"
  using assms by (auto simp: copy_at_def nth_append min_def)

lemma byte_of_low: "byte_of (256 * n + unat b) = b"
  by (rule word_eqI_unat) simp

lemma range_of_split: "i \<le> j \<Longrightarrow> drop i xs = range_of i j xs @ drop j xs"
  using append_take_drop_id [of "j - i" "drop i xs"] by (simp add: range_of_def)

lemma copy_at_append:
  "off = length a \<Longrightarrow> length b = length c \<Longrightarrow> copy_at off b (a @ c @ d) = a @ b @ d"
  by (simp add: copy_at_def)

subsection \<open>Searching and removing by index\<close>

text \<open>\<open>iter().position(p)\<close> and \<open>remove(i)\<close>.\<close>

fun position :: "('a \<Rightarrow> bool) \<Rightarrow> 'a list \<Rightarrow> nat option" where
  "position p [] = None"
| "position p (x # xs) = (if p x then Some 0 else map_option Suc (position p xs))"

definition remove_nth :: "nat \<Rightarrow> 'a list \<Rightarrow> 'a list" where
  "remove_nth i xs = take i xs @ drop (Suc i) xs"

lemma position_Some: "position P xs = Some i \<Longrightarrow> i < length xs \<and> P (xs ! i)"
  by (induction xs arbitrary: i) (auto split: if_splits)

lemma position_None: "position P xs = None \<longleftrightarrow> (\<forall>x \<in> set xs. \<not> P x)"
  by (induction xs) auto

lemma set_remove_nth: "set (remove_nth i xs) \<subseteq> set xs"
  by (auto simp: remove_nth_def dest: in_set_takeD in_set_dropD)

lemma length_remove_nth: "i < length xs \<Longrightarrow> length (remove_nth i xs) = length xs - 1"
  by (simp add: remove_nth_def)

lemma distinct_remove_nth: "distinct (map f xs) \<Longrightarrow> distinct (map f (remove_nth i xs))"
  using set_take_disj_set_drop_if_distinct [of "map f xs" i "Suc i"]
  by (simp add: remove_nth_def take_map [symmetric] drop_map [symmetric])

lemma filter_remove_nth: "i < length xs \<Longrightarrow> \<not> P (xs ! i) \<Longrightarrow> filter P (remove_nth i xs) = filter P xs"
proof -
  assume "i < length xs" "\<not> P (xs ! i)"
  moreover from this have "xs = take i xs @ xs ! i # drop (Suc i) xs" by (simp only: id_take_nth_drop [symmetric])
  ultimately show ?thesis by (metis filter.simps(2) filter_append remove_nth_def)
qed

end
