(* ===== verification/Byte_Io.thy ===== *)
theory Byte_Io
  imports Prelude
begin

text \<open>
  The part of \<open>std::io\<close> the wire codecs use. A reader is the list of outcomes its next
  \<open>read\<close> calls have: a chunk of bytes (a call with a shorter buffer leaves the rest of the
  chunk), an \<open>Interrupted\<close> error, or any other error; after the last outcome every call
  reports end of file. A writer answers each \<open>write\<close> call with the next of its replies and
  accepts everything once they are used up. A theorem about all readers and writers is
  therefore about every way the bytes can be cut up by the transport.
\<close>

datatype io_error = UnexpectedEof | WriteZero | OtherIo nat

datatype read_event = Chunk bytes | ReadInterrupted | ReadError io_error

type_synonym reader = "read_event list"

datatype read_outcome = ReadOk bytes | ReadRetry | ReadFail io_error

fun read_some :: "reader \<Rightarrow> nat \<Rightarrow> read_outcome \<times> reader" where
  "read_some [] n = (ReadOk [], [])"
| "read_some (Chunk bs # r) n = (ReadOk (take n bs), if length bs \<le> n then r else Chunk (drop n bs) # r)"
| "read_some (ReadInterrupted # r) n = (ReadRetry, r)"
| "read_some (ReadError e # r) n = (ReadFail e, r)"

fun event_size :: "read_event \<Rightarrow> nat" where
  "event_size (Chunk bs) = Suc (length bs)"
| "event_size _ = 1"

definition reader_size :: "reader \<Rightarrow> nat" where
  "reader_size r = sum_list (map event_size r)"

lemma read_progress:
  assumes "read_some r n = (out, r')" and "0 < n" and "out \<noteq> ReadOk []"
  shows "reader_size r' < reader_size r"
  using assms by (induction r n rule: read_some.induct) (auto simp: reader_size_def split: if_splits)

text \<open>
  \<open>fill_loop\<close> is the loop \<open>while offset < buffer.len() { match reader.read(&mut buffer[offset..]) ... }\<close>
  with the errors of its end-of-file and failure arms as parameters. It returns the outcome,
  the buffer and the reader.
\<close>

function fill_loop ::
  "'e \<Rightarrow> 'e \<Rightarrow> (io_error \<Rightarrow> 'e) \<Rightarrow> reader \<Rightarrow> nat \<Rightarrow> bytes \<Rightarrow> ('e + unit) \<times> bytes \<times> reader" where
  "fill_loop eof unexpected failed r offset buffer =
    (if offset < length buffer then
       (case read_some r (length buffer - offset) of
          (ReadOk bs, r') \<Rightarrow>
            (if bs = [] then (Err (if offset = 0 then eof else unexpected), buffer, r')
             else fill_loop eof unexpected failed r' (offset + length bs) (copy_at offset bs buffer))
        | (ReadRetry, r') \<Rightarrow> fill_loop eof unexpected failed r' offset buffer
        | (ReadFail e, r') \<Rightarrow> (Err (failed e), buffer, r'))
     else (Ok (), buffer, r))"
  by pat_completeness auto
termination
proof (relation "measure (\<lambda>(_, _, _, r, _, _). reader_size r)", goal_cases)
  case (2 eof unexpected failed r offset buffer out r' bs)
  then show ?case using read_progress [of r "length buffer - offset" out r'] by simp
next
  case (3 eof unexpected failed r offset buffer out r')
  then show ?case using read_progress [of r "length buffer - offset" out r'] by simp
qed simp

declare fill_loop.simps [simp del]

text \<open>\<open>Read::read_exact\<close>: the same loop, with \<open>UnexpectedEof\<close> at end of file.\<close>

definition read_exact :: "reader \<Rightarrow> bytes \<Rightarrow> (io_error + unit) \<times> bytes \<times> reader" where
  "read_exact r buffer = fill_loop UnexpectedEof UnexpectedEof id r 0 buffer"

datatype write_event = Accept nat | WriteInterrupted | WriteError io_error

record writer =
  written :: bytes
  replies :: "write_event list"

datatype write_outcome = WriteOk nat | WriteRetry | WriteFail io_error

definition write_some :: "writer \<Rightarrow> bytes \<Rightarrow> write_outcome \<times> writer" where
  "write_some w data =
    (case replies w of
       [] \<Rightarrow> (WriteOk (length data), w\<lparr>written := written w @ data\<rparr>)
     | Accept k # rs \<Rightarrow>
         (WriteOk (min k (length data)),
          w\<lparr>written := written w @ take k data, replies := rs\<rparr>)
     | WriteInterrupted # rs \<Rightarrow> (WriteRetry, w\<lparr>replies := rs\<rparr>)
     | WriteError e # rs \<Rightarrow> (WriteFail e, w\<lparr>replies := rs\<rparr>))"

text \<open>\<open>while !data.is_empty() { match writer.write(data) ... }\<close>, with the errors of the
  zero and failure arms as parameters.\<close>

function write_loop :: "'e \<Rightarrow> (io_error \<Rightarrow> 'e) \<Rightarrow> writer \<Rightarrow> bytes \<Rightarrow> ('e + unit) \<times> writer" where
  "write_loop zero failed w data =
    (if data = [] then (Ok (), w)
     else
       (case write_some w data of
          (WriteOk n, w') \<Rightarrow>
            (if n = 0 then (Err zero, w') else write_loop zero failed w' (drop n data))
        | (WriteRetry, w') \<Rightarrow> write_loop zero failed w' data
        | (WriteFail e, w') \<Rightarrow> (Err (failed e), w')))"
  by pat_completeness auto
termination
  by (relation "measure (\<lambda>(_, _, w, data). length (replies w) + length data)")
     (auto simp: write_some_def split: list.splits write_event.splits)

declare write_loop.simps [simp del]

text \<open>\<open>Write::write_all\<close>.\<close>

definition std_write_all :: "writer \<Rightarrow> bytes \<Rightarrow> (io_error + unit) \<times> writer" where
  "std_write_all w data = write_loop WriteZero id w data"

subsection \<open>What a reader still delivers\<close>

text \<open>The bytes a reader delivers before it reports end of file; \<open>None\<close> if a call fails
  with an error other than \<open>Interrupted\<close>, or reports an early end of file.\<close>

fun pending :: "reader \<Rightarrow> bytes option" where
  "pending [] = Some []"
| "pending (Chunk c # r) = (if c = [] then None else map_option ((@) c) (pending r))"
| "pending (ReadInterrupted # r) = pending r"
| "pending (ReadError e # r) = None"

lemma read_some_pending:
  assumes "pending r = Some bs" and "0 < n" and "read_some r n = (out, r')"
  shows "(out = ReadRetry \<and> pending r' = Some bs)
    \<or> (\<exists>k. out = ReadOk (take k bs) \<and> k \<le> n \<and> k \<le> length bs \<and> (k = 0 \<longrightarrow> bs = [])
          \<and> pending r' = Some (drop k bs))"
proof (cases r)
  case (Cons ev rest)
  show ?thesis
  proof (cases ev)
    case (Chunk c)
    with Cons assms obtain tl where tl: "c \<noteq> []" "pending rest = Some tl" "bs = c @ tl"
      by (auto split: if_splits)
    show ?thesis
    proof (cases "length c \<le> n")
      case True
      then show ?thesis using Cons Chunk assms tl by (intro disjI2 exI [of _ "length c"]) auto
    next
      case False
      then show ?thesis using Cons Chunk assms tl by (intro disjI2 exI [of _ n]) auto
    qed
  qed (use Cons assms in auto)
qed (use assms in auto)

lemma fill_loop_ok:
  assumes "pending r = Some bs" and "offset \<le> length buffer" and "length buffer - offset \<le> length bs"
  shows "\<exists>r'. fill_loop eof unexpected failed r offset buffer
      = (Ok (), take offset buffer @ take (length buffer - offset) bs, r')
    \<and> pending r' = Some (drop (length buffer - offset) bs)"
  using assms
proof (induction eof unexpected failed r offset buffer arbitrary: bs rule: fill_loop.induct)
  case (1 eof unexpected failed r offset buffer)
  let ?n = "length buffer - offset"
  show ?case
  proof (cases "offset < length buffer")
    case True
    obtain out r' where rd: "read_some r ?n = (out, r')" by fastforce
    consider (retry) "out = ReadRetry" "pending r' = Some bs"
      | (data) k where "out = ReadOk (take k bs)" "k \<le> ?n" "k \<le> length bs" "k = 0 \<longrightarrow> bs = []"
          "pending r' = Some (drop k bs)"
      using read_some_pending [OF "1.prems"(1) _ rd] True by auto
    then show ?thesis
    proof cases
      case retry
      then show ?thesis using "1.IH"(2) [OF True rd [symmetric] retry(1)] "1.prems" rd True
        by (simp add: fill_loop.simps [of eof unexpected failed r])
    next
      case data
      have "bs \<noteq> []" using "1.prems"(3) True by auto
      then have tk: "take k bs \<noteq> []" using data by auto
      let ?buf = "copy_at offset (take k bs) buffer"
      have k: "length (take k bs) = k" using data by simp
      have len: "length ?buf = length buffer" using data(2) True k by simp
      have pre: "take (offset + k) ?buf = take offset buffer @ take k bs"
        using True k by (simp add: copy_at_def)
      have sum: "take ?n bs = take k bs @ take (?n - k) (drop k bs)"
        using data(2) by (metis le_add_diff_inverse take_add)
      have "offset + k \<le> length buffer" "length buffer - (offset + k) \<le> length (drop k bs)"
        using "1.prems"(3) data(2) True by simp_all
      with "1.IH"(1) [OF True rd [symmetric] data(1) tk data(5)]
      obtain r'' where "fill_loop eof unexpected failed r' (offset + k) ?buf
          = (Ok (), take (offset + k) ?buf @ take (?n - k) (drop k bs), r'')"
        and "pending r'' = Some (drop ?n bs)"
        unfolding k len by auto
      then show ?thesis
        using rd True data(1) tk unfolding pre sum
        by (simp add: fill_loop.simps [of eof unexpected failed r] k del: length_take)
    qed
  next
    case False
    with "1.prems" show ?thesis by (simp add: fill_loop.simps [of eof unexpected failed r])
  qed
qed

lemma fill_loop_short:
  assumes "pending r = Some bs" and "offset \<le> length buffer" and "length bs < length buffer - offset"
  shows "\<exists>buffer' r'. fill_loop eof unexpected failed r offset buffer
      = (Err (if offset = 0 \<and> bs = [] then eof else unexpected), buffer', r')"
  using assms
proof (induction eof unexpected failed r offset buffer arbitrary: bs rule: fill_loop.induct)
  case (1 eof unexpected failed r offset buffer)
  let ?n = "length buffer - offset"
  from "1.prems" have lt: "offset < length buffer" by simp
  obtain out r' where rd: "read_some r ?n = (out, r')" by fastforce
  consider (retry) "out = ReadRetry" "pending r' = Some bs"
    | (data) k where "out = ReadOk (take k bs)" "k \<le> ?n" "k \<le> length bs" "k = 0 \<longrightarrow> bs = []"
        "pending r' = Some (drop k bs)"
    using read_some_pending [OF "1.prems"(1) _ rd] lt by auto
  then show ?case
  proof cases
    case retry
    then show ?thesis using "1.IH"(2) [OF lt rd [symmetric] retry(1)] "1.prems" rd lt
      by (simp add: fill_loop.simps [of eof unexpected failed r])
  next
    case data
    show ?thesis
    proof (cases "take k bs = []")
      case True
      then show ?thesis using data rd lt
        by (auto simp add: fill_loop.simps [of eof unexpected failed r])
    next
      case False
      then show ?thesis
        using "1.IH"(1) [OF lt rd [symmetric] data(1) False, of "drop k bs"] "1.prems" rd lt data
        by (auto simp add: fill_loop.simps [of eof unexpected failed r])
    qed
  qed
qed

lemma write_loop_prefix:
  "write_loop zero failed w data = (res, w') \<Longrightarrow>
    \<exists>k. written w' = written w @ take k data \<and> (res = Ok () \<longrightarrow> take k data = data)"
proof (induction zero failed w data arbitrary: res w' rule: write_loop.induct)
  case (1 zero failed w data)
  show ?case
  proof (cases "data = []")
    case True
    with "1.prems" show ?thesis by (simp add: write_loop.simps [of zero failed w])
  next
    case False
    obtain out w1 where wr: "write_some w data = (out, w1)" by fastforce
    show ?thesis
    proof (cases out)
      case (WriteOk n)
      then have w1: "written w1 = written w @ take n data"
        using wr by (auto simp: write_some_def min_def split: list.splits write_event.splits)
      show ?thesis
      proof (cases "n = 0")
        case True
        then show ?thesis using "1.prems" False wr WriteOk w1
          by (auto simp: write_loop.simps [of zero failed w] intro: exI [of _ 0])
      next
        case n: False
        then have "write_loop zero failed w1 (drop n data) = (res, w')"
          using "1.prems" False wr WriteOk by (simp add: write_loop.simps [of zero failed w])
        from "1.IH"(1) [OF False wr [symmetric] WriteOk n this] obtain k where
          k: "written w' = written w1 @ take k (drop n data)" "res = Ok () \<longrightarrow> take k (drop n data) = drop n data"
          by blast
        have "written w' = written w @ take (n + k) data"
          using k w1 by (simp add: take_add)
        then show ?thesis using k by (metis append_take_drop_id take_add)
      qed
    next
      case WriteRetry
      then have "written w1 = written w" "write_loop zero failed w1 data = (res, w')"
        using wr "1.prems" False
        by (auto simp: write_loop.simps [of zero failed w] write_some_def
              split: list.splits write_event.splits)
      with "1.IH"(2) [OF False wr [symmetric] WriteRetry] show ?thesis by metis
    next
      case (WriteFail e)
      then have "written w' = written w" "res = Err (failed e)"
        using wr "1.prems" False
        by (auto simp: write_loop.simps [of zero failed w] write_some_def
              split: list.splits write_event.splits)
      then show ?thesis by (auto intro: exI [of _ 0])
    qed
  qed
qed

lemma write_loop_Ok: "write_loop zero failed w data = (Ok (), w') \<Longrightarrow> written w' = written w @ data"
  using write_loop_prefix by fastforce

subsection \<open>Message streams\<close>

text \<open>Reading \<open>n\<close> messages one after the other, up to the first error, and sending a list of
  them.\<close>

fun read_many :: "('d \<Rightarrow> ('e + 'a) \<times> 'd) \<Rightarrow> nat \<Rightarrow> 'd \<Rightarrow> ('e + 'a list) \<times> 'd" where
  "read_many receive 0 d = (Ok [], d)"
| "read_many receive (Suc n) d =
    (case receive d of
       (Err e, d') \<Rightarrow> (Err e, d')
     | (Ok x, d') \<Rightarrow>
         (case read_many receive n d' of
            (Err e, d'') \<Rightarrow> (Err e, d'')
          | (Ok xs, d'') \<Rightarrow> (Ok (x # xs), d'')))"

fun send_many :: "('d \<Rightarrow> 'a \<Rightarrow> ('e + unit) \<times> 'd) \<Rightarrow> 'd \<Rightarrow> 'a list \<Rightarrow> ('e + unit) \<times> 'd" where
  "send_many send d [] = (Ok (), d)"
| "send_many send d (x # xs) =
    (case send d x of (Err e, d') \<Rightarrow> (Err e, d') | (Ok _, d') \<Rightarrow> send_many send d' xs)"

text \<open>
  The contract of a self-delimiting codec: \<open>receive\<close> takes exactly one message's bytes off the
  stream. It gives that a whole sequence arrives in order and that the framing is unambiguous.
\<close>

locale message_stream =
  fixes receive :: "'d \<Rightarrow> ('e + 'a) \<times> 'd"
    and wire :: "'a \<Rightarrow> bytes"
    and valid :: "'a \<Rightarrow> bool"
    and queued :: "'d \<Rightarrow> bytes option"
  assumes receive_next:
      "valid x \<Longrightarrow> queued d = Some (wire x @ rest) \<Longrightarrow>
        \<exists>d'. receive d = (Ok x, d') \<and> queued d' = Some rest"
    and queued_any: "\<exists>d. queued d = Some bs"
begin

lemma receive_all:
  "list_all valid xs \<Longrightarrow> queued d = Some (concat (map wire xs) @ rest) \<Longrightarrow>
    \<exists>d'. read_many receive (length xs) d = (Ok xs, d') \<and> queued d' = Some rest"
proof (induction xs arbitrary: d)
  case (Cons x xs)
  from receive_next [of x d "concat (map wire xs) @ rest"] Cons.prems
  obtain d' where "receive d = (Ok x, d')" "queued d' = Some (concat (map wire xs) @ rest)"
    by auto
  with Cons.IH [of d'] Cons.prems show ?case by auto
qed simp

lemma wire_unambiguous:
  assumes "valid x" "valid y" and "wire x @ rest = wire y @ rest'"
  shows "x = y \<and> rest = rest'"
proof -
  obtain d where d: "queued d = Some (wire x @ rest)" using queued_any by blast
  with receive_next [of x d rest] receive_next [of y d rest'] assms show ?thesis by auto
qed

end

end
