(* ===== verification/Wire_Frame.thy ===== *)
theory Wire_Frame
  imports Byte_Io
begin

text \<open>
  Framing of the HTTP/2 packet stream: \<open>porta-wire/src/frame.rs\<close>. A frame is a two-byte
  big-endian length and that many bytes. Encoder and decoder keep their header scratch array
  in their state, as the structs do; \<open>read_packet_into\<close> also returns the caller's buffer.
\<close>

definition MAX_PACKET_SIZE :: nat where
  "MAX_PACKET_SIZE = 65535"

datatype frame_error =
    TooLarge
  | EndOfStream
  | UnexpectedEndOfStream
  | ShortWrite
  | Io io_error
  | ReadPayloadEndOfStream
  | ReadPayloadUnexpectedEndOfStream
  | ReadPayload io_error

definition read_header :: "reader \<Rightarrow> bytes \<Rightarrow> (frame_error + unit) \<times> bytes \<times> reader" where
  "read_header r header = fill_loop EndOfStream UnexpectedEndOfStream Io r 0 header"

definition read_payload :: "reader \<Rightarrow> bytes \<Rightarrow> (frame_error + unit) \<times> bytes \<times> reader" where
  "read_payload r payload =
    fill_loop ReadPayloadEndOfStream ReadPayloadUnexpectedEndOfStream ReadPayload r 0 payload"

definition write_all :: "writer \<Rightarrow> bytes \<Rightarrow> (frame_error + unit) \<times> writer" where
  "write_all w data = write_loop ShortWrite Io w data"

record frame_encoder =
  enc_writer :: writer
  enc_header :: bytes

definition new_encoder :: "writer \<Rightarrow> frame_encoder" where
  "new_encoder w = \<lparr>enc_writer = w, enc_header = [0, 0]\<rparr>"

definition write_packet :: "frame_encoder \<Rightarrow> bytes \<Rightarrow> (frame_error + unit) \<times> frame_encoder" where
  "write_packet enc packet =
    (if length packet > 65535 then (Err TooLarge, enc)
     else
       let header = u16_to_be_bytes (u16_of (length packet));
           enc = enc\<lparr>enc_header := header\<rparr>
       in (case write_all (enc_writer enc) (enc_header enc) of
             (Err e, w) \<Rightarrow> (Err e, enc\<lparr>enc_writer := w\<rparr>)
           | (Ok _, w) \<Rightarrow>
               (case write_all w packet of
                  (Err e, w') \<Rightarrow> (Err e, enc\<lparr>enc_writer := w'\<rparr>)
                | (Ok _, w') \<Rightarrow> (Ok (), enc\<lparr>enc_writer := w'\<rparr>))))"

record frame_decoder =
  dec_reader :: reader
  dec_header :: bytes

definition new_decoder :: "reader \<Rightarrow> frame_decoder" where
  "new_decoder r = \<lparr>dec_reader = r, dec_header = [0, 0]\<rparr>"

definition read_packet_into ::
  "frame_decoder \<Rightarrow> bytes \<Rightarrow> (frame_error + bytes) \<times> bytes \<times> frame_decoder" where
  "read_packet_into dec buffer =
    (case read_header (dec_reader dec) (dec_header dec) of
       (Err e, header, r) \<Rightarrow> (Err e, buffer, \<lparr>dec_reader = r, dec_header = header\<rparr>)
     | (Ok _, header, r) \<Rightarrow>
         let size = unat (u16_from_be_bytes (header ! 0) (header ! 1));
             buffer = resize size 0 buffer
         in (case read_payload r buffer of
               (Err e, buffer, r') \<Rightarrow> (Err e, buffer, \<lparr>dec_reader = r', dec_header = header\<rparr>)
             | (Ok _, buffer, r') \<Rightarrow> (Ok buffer, buffer, \<lparr>dec_reader = r', dec_header = header\<rparr>)))"

definition read_packet :: "frame_decoder \<Rightarrow> (frame_error + bytes) \<times> frame_decoder" where
  "read_packet dec = (case read_packet_into dec [] of (res, _, dec') \<Rightarrow> (res, dec'))"

subsection \<open>The wire format\<close>

definition frame_of :: "bytes \<Rightarrow> bytes" where
  "frame_of packet = to_be 2 (length packet) @ packet"

lemma write_packet_Ok:
  assumes "write_packet enc packet = (Ok (), enc')"
  shows "length packet \<le> MAX_PACKET_SIZE"
    and "written (enc_writer enc') = written (enc_writer enc) @ frame_of packet"
proof -
  from assms show len: "length packet \<le> MAX_PACKET_SIZE"
    by (auto simp: write_packet_def MAX_PACKET_SIZE_def split: if_splits)
  from assms obtain w where
    "write_all (enc_writer enc) (u16_to_be_bytes (u16_of (length packet))) = (Ok (), w)"
    "write_all w packet = (Ok (), enc_writer enc')"
    by (auto simp: write_packet_def Let_def split: if_splits prod.splits sum.splits)
  then have "written (enc_writer enc') =
      written (enc_writer enc) @ u16_to_be_bytes (u16_of (length packet)) @ packet"
    by (auto simp: write_all_def dest!: write_loop_Ok)
  with len show "written (enc_writer enc') = written (enc_writer enc) @ frame_of packet"
    by (simp add: frame_of_def u16_to_be_bytes_def MAX_PACKET_SIZE_def)
qed

lemma write_packets_Ok:
  "send_many write_packet enc packets = (Ok (), enc') \<Longrightarrow>
    list_all (\<lambda>p. length p \<le> MAX_PACKET_SIZE) packets
    \<and> written (enc_writer enc') = written (enc_writer enc) @ concat (map frame_of packets)"
proof (induction packets arbitrary: enc)
  case (Cons p ps)
  then obtain enc1 where "write_packet enc p = (Ok (), enc1)" "send_many write_packet enc1 ps = (Ok (), enc')"
    by (auto split: prod.splits sum.splits)
  with write_packet_Ok [of enc p enc1] Cons.IH [of enc1] show ?case by auto
qed simp

text \<open>The decoder's contract: \<open>queued\<close> bytes count only while the header scratch array has its
  two bytes, which every operation keeps.\<close>

definition frame_queued :: "frame_decoder \<Rightarrow> bytes option" where
  "frame_queued dec = (if length (dec_header dec) = 2 then pending (dec_reader dec) else None)"

lemma frame_header_value:
  assumes "length h = 2" and "h = to_be 2 n" and "n \<le> 65535"
  shows "unat (u16_from_be_bytes (h ! 0) (h ! 1)) = n"
  using assms by (simp add: numeral_2_eq_2 unat_u16_from_be_bytes)

lemma read_packet_next:
  assumes "length packet \<le> MAX_PACKET_SIZE" and "frame_queued dec = Some (frame_of packet @ rest)"
  shows "\<exists>dec'. read_packet dec = (Ok packet, dec') \<and> frame_queued dec' = Some rest"
proof -
  let ?h = "to_be 2 (length packet)"
  from assms have h: "length (dec_header dec) = 2"
    and p: "pending (dec_reader dec) = Some (?h @ packet @ rest)"
    by (auto simp: frame_queued_def frame_of_def split: if_splits)
  from fill_loop_ok [OF p, of 0 "dec_header dec"] h
  obtain r where r: "read_header (dec_reader dec) (dec_header dec) = (Ok (), ?h, r)"
    and pr: "pending r = Some (packet @ rest)"
    by (fastforce simp: read_header_def)
  have size: "unat (u16_from_be_bytes (?h ! 0) (?h ! 1)) = length packet"
    using assms(1) by (intro frame_header_value) (auto simp: MAX_PACKET_SIZE_def)
  from fill_loop_ok [OF pr, of 0 "resize (length packet) 0 []"]
  obtain r' where "read_payload r (resize (length packet) 0 []) = (Ok (), packet, r')"
    and "pending r' = Some rest"
    by (fastforce simp: read_payload_def)
  with r size show ?thesis
    by (simp add: read_packet_def read_packet_into_def frame_queued_def)
qed

interpretation frames: message_stream read_packet frame_of "\<lambda>p. length p \<le> MAX_PACKET_SIZE" frame_queued
proof
  show "\<exists>d. frame_queued d = Some bs" for bs
    by (rule exI [of _ "new_decoder (if bs = [] then [] else [Chunk bs])"])
       (simp add: frame_queued_def new_decoder_def)
qed (rule read_packet_next)

lemma read_packet_eof:
  assumes "frame_queued dec = Some []"
  shows "\<exists>dec'. read_packet dec = (Err EndOfStream, dec')"
proof -
  from assms have "length (dec_header dec) = 2" "pending (dec_reader dec) = Some []"
    by (auto simp: frame_queued_def split: if_splits)
  with fill_loop_short [of "dec_reader dec" "[]" 0 "dec_header dec" EndOfStream UnexpectedEndOfStream Io]
  show ?thesis by (auto simp: read_packet_def read_packet_into_def read_header_def)
qed

subsection \<open>Properties\<close>

text \<open>packets written by \<open>Encoder::write_packet\<close> are read back by
  \<open>Decoder::read_packet\<close> in order and unchanged, however the transport cuts the stream into
  chunks and interrupts the calls; after the last packet the decoder reports a clean end of
  stream.\<close>

theorem frame_roundtrip:
  assumes "send_many write_packet (new_encoder \<lparr>written = [], replies = rs\<rparr>) packets = (Ok (), enc)"
    and "pending r = Some (written (enc_writer enc))"
  shows "\<exists>dec. read_many read_packet (length packets) (new_decoder r) = (Ok packets, dec)
    \<and> fst (read_packet dec) = Err EndOfStream"
proof -
  from write_packets_Ok [OF assms(1)]
  have sizes: "list_all (\<lambda>p. length p \<le> MAX_PACKET_SIZE) packets"
    and "written (enc_writer enc) = concat (map frame_of packets)"
    by (simp_all add: new_encoder_def)
  with assms(2) have "frame_queued (new_decoder r) = Some (concat (map frame_of packets) @ [])"
    by (simp add: frame_queued_def new_decoder_def)
  from frames.receive_all [OF sizes this] show ?thesis using read_packet_eof by fastforce
qed

theorem frame_roundtrip_witness:
  "\<exists>dec. read_many read_packet (length [[1, 2, 3], [], [4, 5]])
      (new_decoder [Chunk [0], ReadInterrupted, Chunk [3, 1, 2], Chunk [3, 0, 0, 0, 2, 4, 5]])
    = (Ok [[1, 2, 3], [], [4, 5]], dec) \<and> fst (read_packet dec) = Err EndOfStream"
proof -
  have "send_many write_packet (new_encoder \<lparr>written = [], replies = [Accept 1, WriteInterrupted]\<rparr>)
      [[1, 2, 3], [], [4, 5]]
    = (Ok (), \<lparr>enc_writer = \<lparr>written = [0, 3, 1, 2, 3, 0, 0, 0, 2, 4, 5], replies = []\<rparr>,
               enc_header = [0, 2]\<rparr>)"
    by code_simp
  from frame_roundtrip [OF this,
      of "[Chunk [0], ReadInterrupted, Chunk [3, 1, 2], Chunk [3, 0, 0, 0, 2, 4, 5]]"]
  show ?thesis by simp
qed

text \<open>a stream cut anywhere inside a frame is reported as the error of the place it was cut
  at, and never as a packet: a clean end only on a frame boundary, an unexpected end inside the
  header, and the two payload errors before and inside the payload.\<close>

theorem frame_truncated:
  assumes "length packet \<le> MAX_PACKET_SIZE" and "k < length (frame_of packet)"
    and "pending r = Some (take k (frame_of packet))"
  shows "fst (read_packet (new_decoder r)) =
    Err (if k = 0 then EndOfStream else if k = 1 then UnexpectedEndOfStream
         else if k = 2 then ReadPayloadEndOfStream else ReadPayloadUnexpectedEndOfStream)"
proof (cases "k < 2")
  case True
  then have "\<exists>buffer' r'. read_header r [0, 0] =
      (Err (if k = 0 then EndOfStream else UnexpectedEndOfStream), buffer', r')"
    using fill_loop_short [OF assms(3), of 0 "[0, 0]" EndOfStream UnexpectedEndOfStream Io] assms(2)
    by (auto simp: read_header_def)
  with True show ?thesis by (auto simp: read_packet_def read_packet_into_def new_decoder_def)
next
  case False
  let ?h = "to_be 2 (length packet)"
  have split: "take k (frame_of packet) = ?h @ take (k - 2) packet"
    using False by (simp add: frame_of_def)
  from fill_loop_ok [OF assms(3) [unfolded split], of 0 "[0, 0]"]
  obtain r1 where hd: "read_header r [0, 0] = (Ok (), ?h, r1)"
    and r1: "pending r1 = Some (take (k - 2) packet)"
    by (fastforce simp: read_header_def)
  have size: "unat (u16_from_be_bytes (?h ! 0) (?h ! 1)) = length packet"
    using assms(1) by (intro frame_header_value) (auto simp: MAX_PACKET_SIZE_def)
  have "k - 2 < length packet" and "packet \<noteq> []"
    using assms(2) False by (auto simp: frame_of_def)
  with fill_loop_short [OF r1, of 0 "resize (length packet) 0 []"
      ReadPayloadEndOfStream ReadPayloadUnexpectedEndOfStream ReadPayload]
  have "\<exists>buffer' r'. read_payload r1 (resize (length packet) 0 []) =
      (Err (if k = 2 then ReadPayloadEndOfStream else ReadPayloadUnexpectedEndOfStream), buffer', r')"
    using False by (auto simp: read_payload_def)
  with hd size False show ?thesis
    by (auto simp: read_packet_def read_packet_into_def new_decoder_def)
qed

theorem frame_truncated_witness:
  "fst (read_packet (new_decoder [Chunk [0, 3], ReadInterrupted, Chunk [1, 2]]))
    = Err ReadPayloadUnexpectedEndOfStream"
proof -
  have "length [1, 2, 3 :: u8] \<le> MAX_PACKET_SIZE" "4 < length (frame_of [1, 2, 3])"
    "pending [Chunk [0, 3], ReadInterrupted, Chunk [1, 2]] = Some (take 4 (frame_of [1, 2, 3]))"
    by code_simp+
  from frame_truncated [OF this] show ?thesis by simp
qed

end
