(* ===== verification/Wire_Varint.thy ===== *)
theory Wire_Varint
  imports Byte_Io
begin

text \<open>
  QUIC variable-length integers and the capsule codec of \<open>porta-wire/src/masque.rs\<close>. The
  fixed scratch arrays of the source are buffers here too: \<open>encode_varint_into\<close> returns the
  length and the buffer with its first bytes overwritten. The detail strings of
  \<open>MalformedAddressDetail\<close> and \<open>MalformedRouteDetail\<close> are kept as structured details.
\<close>

definition MAX_CAPSULE_SIZE :: nat where
  "MAX_CAPSULE_SIZE = 1048576"

datatype masque_error =
    CapsuleTooLarge
  | VarIntTooLarge
  | TruncatedVarInt
  | MasqueIo io_error
  | ReadCapsuleLength io_error
  | ReadCapsuleValue io_error
  | UnknownContext u64
  | EmptyIpDatagram
  | MalformedAddress
  | MalformedAddressDetail error_detail
  | EmptyAddressRequest
  | ZeroAddressRequestId
  | DecodedEmptyAddressRequest
  | DecodedZeroAddressRequestId
  | MalformedRoute
  | MalformedRouteDetail error_detail
  | RoutesNotOrdered
  | DecodedRoutesNotOrdered
  | InvalidMtuMessage
and error_detail =
    RequestIdDetail masque_error
  | NotMasked
  | InvalidIpVersion u8
  | InvalidPrefixLength u8

subsection \<open>Integers\<close>

definition encode_varint_into :: "u64 \<Rightarrow> bytes \<Rightarrow> masque_error + nat \<times> bytes" where
  "encode_varint_into value out =
    (if unat value \<le> 63 then Ok (1, out[0 := ucast value])
     else if unat value \<le> 16383 then
       Ok (2, copy_at 0 (u16_to_be_bytes (ucast value OR 0x4000)) out)
     else if unat value \<le> 1073741823 then
       Ok (4, copy_at 0 (u32_to_be_bytes (ucast value OR 0x80000000)) out)
     else if unat value \<le> 2 ^ 62 - 1 then
       Ok (8, copy_at 0 (u64_to_be_bytes (value OR 0xc000000000000000)) out)
     else Err VarIntTooLarge)"

definition encode_varint :: "u64 \<Rightarrow> masque_error + bytes" where
  "encode_varint value =
    rbind (encode_varint_into value (replicate 8 0)) (\<lambda>(len, encoded). Ok (take len encoded))"

definition parse_varint :: "bytes \<Rightarrow> masque_error + u64 \<times> nat" where
  "parse_varint input =
    (case input of
       [] \<Rightarrow> Err TruncatedVarInt
     | first # _ \<Rightarrow>
         let len = 2 ^ unat (drop_bit 6 first)
         in if length input < len then Err TruncatedVarInt
            else
              let encoded = copy_at (8 - len) (take len input) (replicate 8 0);
                  encoded = encoded[8 - len := (encoded ! (8 - len)) AND 63]
              in Ok (u64_from_be_bytes encoded, len))"

definition read_varint :: "reader \<Rightarrow> (masque_error + u64) \<times> reader" where
  "read_varint r =
    (let encoded = replicate 8 0
     in case read_exact r (take 1 encoded) of
          (Err e, _, r1) \<Rightarrow> (Err (MasqueIo e), r1)
        | (Ok _, first, r1) \<Rightarrow>
            let encoded = copy_at 0 first encoded;
                len = 2 ^ unat (drop_bit 6 (encoded ! 0))
            in (case read_exact r1 (range_of 1 len encoded) of
                  (Err e, _, r2) \<Rightarrow> (Err (MasqueIo e), r2)
                | (Ok _, rest, r2) \<Rightarrow>
                    let encoded = copy_at 1 rest encoded;
                        encoded = encoded[0 := (encoded ! 0) AND 63];
                        aligned = copy_at (8 - len) (take len encoded) (replicate 8 0)
                    in (Ok (u64_from_be_bytes aligned), r2)))"

subsection \<open>Capsules\<close>

definition CAPSULE_DATAGRAM :: u64 where
  "CAPSULE_DATAGRAM = 0"

record capsule =
  capsule_type :: u64
  capsule_value :: bytes

record capsule_encoder =
  cap_writer :: writer
  cap_header :: bytes

definition new_capsule_encoder :: "writer \<Rightarrow> capsule_encoder" where
  "new_capsule_encoder w = \<lparr>cap_writer = w, cap_header = replicate 16 0\<rparr>"

text \<open>The two \<open>write_all\<close> calls that end both writers.\<close>

definition write_header_and :: "capsule_encoder \<Rightarrow> nat \<Rightarrow> bytes \<Rightarrow> (masque_error + unit) \<times> capsule_encoder" where
  "write_header_and enc offset payload =
    (case std_write_all (cap_writer enc) (take offset (cap_header enc)) of
       (Err e, w) \<Rightarrow> (Err (MasqueIo e), enc\<lparr>cap_writer := w\<rparr>)
     | (Ok _, w) \<Rightarrow>
         (case std_write_all w payload of
            (Err e, w') \<Rightarrow> (Err (MasqueIo e), enc\<lparr>cap_writer := w'\<rparr>)
          | (Ok _, w') \<Rightarrow> (Ok (), enc\<lparr>cap_writer := w'\<rparr>)))"

definition write_capsule ::
  "capsule_encoder \<Rightarrow> u64 \<Rightarrow> bytes \<Rightarrow> (masque_error + unit) \<times> capsule_encoder" where
  "write_capsule enc ctype value =
    (if length value > MAX_CAPSULE_SIZE then (Err CapsuleTooLarge, enc)
     else
       (case encode_varint_into ctype (cap_header enc) of
          Err e \<Rightarrow> (Err e, enc)
        | Ok (n, header) \<Rightarrow>
            let enc = enc\<lparr>cap_header := header\<rparr>
            in (case encode_varint_into (u64_of (length value)) (drop n header) of
                  Err e \<Rightarrow> (Err e, enc)
                | Ok (m, tail) \<Rightarrow>
                    write_header_and (enc\<lparr>cap_header := take n header @ tail\<rparr>) (n + m) value)))"

definition write_ip_packet ::
  "capsule_encoder \<Rightarrow> bytes \<Rightarrow> (masque_error + unit) \<times> capsule_encoder" where
  "write_ip_packet enc packet =
    (if length packet \<ge> MAX_CAPSULE_SIZE then (Err CapsuleTooLarge, enc)
     else
       (case encode_varint_into CAPSULE_DATAGRAM (cap_header enc) of
          Err e \<Rightarrow> (Err e, enc)
        | Ok (n, header) \<Rightarrow>
            let enc = enc\<lparr>cap_header := header\<rparr>
            in (case encode_varint_into (u64_of (length packet + 1)) (drop n header) of
                  Err e \<Rightarrow> (Err e, enc)
                | Ok (m, tail) \<Rightarrow>
                    let header = (take n header @ tail)[n + m := 0]
                    in write_header_and (enc\<lparr>cap_header := header\<rparr>) (n + m + 1) packet)))"

fun map_capsule_length_read_error :: "masque_error \<Rightarrow> masque_error" where
  "map_capsule_length_read_error (MasqueIo e) = ReadCapsuleLength e"
| "map_capsule_length_read_error other = other"

definition read_capsule_into :: "reader \<Rightarrow> bytes \<Rightarrow> (masque_error + capsule) \<times> bytes \<times> reader" where
  "read_capsule_into r buffer =
    (case read_varint r of
       (Err e, r1) \<Rightarrow> (Err e, buffer, r1)
     | (Ok ctype, r1) \<Rightarrow>
         (case read_varint r1 of
            (Err e, r2) \<Rightarrow> (Err (map_capsule_length_read_error e), buffer, r2)
          | (Ok len, r2) \<Rightarrow>
              if unat len > MAX_CAPSULE_SIZE then (Err CapsuleTooLarge, buffer, r2)
              else
                (case read_exact r2 (resize (unat len) 0 buffer) of
                   (Err e, buffer, r3) \<Rightarrow> (Err (ReadCapsuleValue e), buffer, r3)
                 | (Ok _, buffer, r3) \<Rightarrow>
                     (Ok \<lparr>capsule_type = ctype, capsule_value = buffer\<rparr>, buffer, r3))))"

definition read_capsule :: "reader \<Rightarrow> (masque_error + capsule) \<times> reader" where
  "read_capsule r = (case read_capsule_into r [] of (res, _, r') \<Rightarrow> (res, r'))"

subsection \<open>IP datagram payloads\<close>

definition encode_ip_packet :: "bytes \<Rightarrow> bytes" where
  "encode_ip_packet packet = 0 # packet"

definition decode_ip_packet :: "bytes \<Rightarrow> masque_error + bytes" where
  "decode_ip_packet value =
    rbind (parse_varint value) (\<lambda>(context_id, consumed).
      if context_id \<noteq> 0 then Err (UnknownContext context_id)
      else if length value = consumed then Err EmptyIpDatagram
      else Ok (drop consumed value))"

subsection \<open>The wire format of integers\<close>

definition varint_len :: "nat \<Rightarrow> nat" where
  "varint_len v = (if v \<le> 63 then 1 else if v \<le> 16383 then 2 else if v \<le> 1073741823 then 4 else 8)"

definition varint_tag :: "nat \<Rightarrow> nat" where
  "varint_tag v = (if v \<le> 63 then 0 else if v \<le> 16383 then 1 else if v \<le> 1073741823 then 2 else 3)"

definition varint_bytes :: "nat \<Rightarrow> bytes" where
  "varint_bytes v = to_be (varint_len v) (varint_tag v * (64 * 256 ^ (varint_len v - 1)) + v)"

lemma varint_len_cases: "varint_len v \<in> {1, 2, 4, 8}"
  by (simp add: varint_len_def)

lemma varint_len_bounds [simp]: "0 < varint_len v" "varint_len v \<le> 8" "Suc 0 \<le> varint_len v"
  by (simp_all add: varint_len_def)

lemma varint_len_tag: "varint_len v = 2 ^ varint_tag v"
  by (simp add: varint_len_def varint_tag_def)

lemma length_varint_bytes [simp]: "length (varint_bytes v) = varint_len v"
  by (simp add: varint_bytes_def)

lemma varint_small: "v < 2 ^ 62 \<Longrightarrow> v < 64 * 256 ^ (varint_len v - 1)"
  by (simp add: varint_len_def)

lemma copy_at_0: "copy_at 0 src buf = src @ drop (length src) buf"
  by (simp add: copy_at_def)

lemma encode_varint_into_Ok:
  assumes "unat value < 2 ^ 62" and "8 \<le> length out"
  shows "encode_varint_into value out =
    Ok (varint_len (unat value), varint_bytes (unat value) @ drop (varint_len (unat value)) out)"
proof -
  let ?v = "unat value"
  consider "?v \<le> 63" | "63 < ?v" "?v \<le> 16383" | "16383 < ?v" "?v \<le> 1073741823" | "1073741823 < ?v"
    by linarith
  then show ?thesis
  proof cases
    case 1
    then have "(ucast value :: u8) = byte_of ?v" by (simp add: byte_of_def)
    moreover have "out[0 := x] = x # drop 1 out" for x :: u8
      using assms(2) by (cases out) auto
    ultimately show ?thesis using 1
      by (simp add: encode_varint_into_def varint_bytes_def varint_len_def varint_tag_def)
  next
    case 2
    then have "unat (ucast value :: u16) = ?v"
      by (simp add: unsigned_ucast_eq take_bit_nat_eq_self)
    then have "unat (ucast value OR 0x4000 :: u16) = ?v + 16384"
      using unat_or_high [of "ucast value :: u16" 14 "0x4000" 1] 2 by simp
    with 2 show ?thesis
      by (simp add: encode_varint_into_def varint_bytes_def varint_len_def varint_tag_def
            copy_at_0 u16_to_be_bytes_def add.commute)
  next
    case 3
    then have "unat (ucast value :: u32) = ?v"
      by (simp add: unsigned_ucast_eq take_bit_nat_eq_self)
    then have "unat (ucast value OR 0x80000000 :: u32) = ?v + 2147483648"
      using unat_or_high [of "ucast value :: u32" 30 "0x80000000" 2] 3 by simp
    with 3 show ?thesis
      by (simp add: encode_varint_into_def varint_bytes_def varint_len_def varint_tag_def
            copy_at_0 u32_to_be_bytes_def add.commute)
  next
    case 4
    have "unat (value OR 0xc000000000000000) = ?v + 13835058055282163712"
      using unat_or_high [of "value" 62 "0xc000000000000000" 3] assms(1) by simp
    with 4 assms(1) show ?thesis
      by (simp add: encode_varint_into_def varint_bytes_def varint_len_def varint_tag_def
            copy_at_0 u64_to_be_bytes_def add.commute)
  qed
qed

lemma encode_varint_into_Err:
  "2 ^ 62 \<le> unat value \<Longrightarrow> encode_varint_into value out = Err VarIntTooLarge"
  by (simp add: encode_varint_into_def)

text \<open>Removing the two tag bits of an encoded integer.\<close>

lemma tag_bits:
  assumes "from_be (b # rs) = tag * (64 * 256 ^ length rs) + v" and "v < 64 * 256 ^ length rs"
  shows "unat b div 64 = tag" and "from_be ((b AND 63) # rs) = v"
proof -
  let ?M = "256 ^ length rs :: nat"
  have eq: "unat b * ?M + from_be rs = (tag * 64) * ?M + v"
    using assms(1) by (simp add: from_be_Cons algebra_simps)
  have t: "from_be rs < ?M" by (rule from_be_less)
  have "unat b = (unat b * ?M + from_be rs) div ?M" using t by simp
  also have "\<dots> = tag * 64 + v div ?M" unfolding eq by simp
  finally have b: "unat b = tag * 64 + v div ?M" .
  have "from_be rs = (unat b * ?M + from_be rs) mod ?M" using t by simp
  also have "\<dots> = v mod ?M" unfolding eq by simp
  finally have rs: "from_be rs = v mod ?M" .
  have "v div ?M < 64" using assms(2) by (simp add: less_mult_imp_div_less)
  then show "unat b div 64 = tag" and "from_be ((b AND 63) # rs) = v"
    by (simp_all add: b rs from_be_Cons bits div_mult_mod_eq)
qed

lemma varint_bytes_split:
  assumes "v < 2 ^ 62"
  obtains b rs where "varint_bytes v = b # rs" "Suc (length rs) = varint_len v"
    "2 ^ (unat b div 64) = varint_len v" "from_be ((b AND 63) # rs) = v"
proof -
  have "length (varint_bytes v) = Suc (varint_len v - 1)" by simp
  then obtain b rs where bt: "varint_bytes v = b # rs" "length rs = varint_len v - 1"
    by (metis length_Suc_conv)
  have "varint_tag v * (64 * 256 ^ (varint_len v - 1)) + v < 256 ^ varint_len v"
    using assms by (simp add: varint_tag_def varint_len_def)
  then have "from_be (varint_bytes v) = varint_tag v * (64 * 256 ^ length rs) + v"
    by (simp add: varint_bytes_def bt(2))
  from tag_bits [OF this [unfolded bt(1)]] varint_small [OF assms] bt
  show ?thesis by (intro that [of b rs]) (simp_all add: varint_len_tag)
qed

lemma align_varint:
  assumes "length bs \<le> 8"
  shows "copy_at (8 - length bs) bs (replicate 8 0) = replicate (8 - length bs) 0 @ (bs :: bytes)"
  using assms by (simp add: copy_at_def)

lemma parse_varint_bytes:
  assumes "v < 2 ^ 62"
  shows "parse_varint (varint_bytes v @ rest) = Ok (u64_of v, varint_len v)"
proof -
  obtain b rs where bt: "varint_bytes v = b # rs" "Suc (length rs) = varint_len v"
    "2 ^ (unat b div 64) = varint_len v" "from_be ((b AND 63) # rs) = v"
    using varint_bytes_split [OF assms] .
  have le: "Suc (length rs) \<le> 8" using bt(2) by simp
  have len: "2 ^ unat (drop_bit 6 b) = Suc (length rs)" using bt by (simp add: bits)
  have tk: "take (varint_len v) (b # rs @ rest) = b # rs" by (simp flip: bt(2))
  show ?thesis
    unfolding parse_varint_def bt(1)
    using align_varint [of "b # rs"] le bt(2,4)
    by (simp add: len tk u64_from_be_bytes_def Let_def nth_append list_update_append)
qed

lemma read_varint_next:
  assumes "v < 2 ^ 62" and "pending r = Some (varint_bytes v @ rest)"
  shows "\<exists>r'. read_varint r = (Ok (u64_of v), r') \<and> pending r' = Some rest"
proof -
  obtain b bs where bt: "varint_bytes v = b # bs" "Suc (length bs) = varint_len v"
    "2 ^ (unat b div 64) = varint_len v" "from_be ((b AND 63) # bs) = v"
    using varint_bytes_split [OF assms(1)] .
  have le: "length bs \<le> 7" using bt(2) varint_len_bounds(2) [of v] by linarith
  have p: "pending r = Some (b # bs @ rest)" using assms(2) bt(1) by simp
  from fill_loop_ok [OF p, of 0 "[0]" UnexpectedEof UnexpectedEof id]
  obtain r1 where r1: "read_exact r [0] = (Ok (), [b], r1)" and p1: "pending r1 = Some (bs @ rest)"
    by (auto simp: read_exact_def)
  let ?z = "b # replicate 7 0 :: bytes"
  have z: "copy_at 0 [b] (replicate 8 0) = ?z" by (simp add: copy_at_def flip: replicate_Suc)
  have len: "2 ^ unat (drop_bit 6 b) = Suc (length bs)" using bt by (simp add: bits)
  have l: "length (range_of 1 (Suc (length bs)) ?z) = length bs" using le by simp
  from fill_loop_ok [OF p1, of 0 "range_of 1 (Suc (length bs)) ?z" UnexpectedEof UnexpectedEof id]
  obtain r2 where r2: "read_exact r1 (range_of 1 (Suc (length bs)) ?z) = (Ok (), bs, r2)"
    and p2: "pending r2 = Some rest"
    unfolding read_exact_def l by auto
  have "take (Suc (length bs)) ((copy_at 1 bs ?z)[0 := b AND 63]) = (b AND 63) # bs"
    by (simp add: copy_at_def)
  moreover have "copy_at 1 bs ?z ! 0 = b" by (simp add: copy_at_def)
  moreover have "copy_at (7 - length bs) ((b AND 63) # bs) (replicate 8 0)
      = replicate (7 - length bs) 0 @ (b AND 63) # bs"
    using align_varint [of "(b AND 63) # bs"] le by simp
  ultimately show ?thesis
    using r1 r2 p2 bt(4) by (simp add: read_varint_def z len Let_def u64_from_be_bytes_def)
qed

subsection \<open>The wire format of capsules\<close>

definition capsule_wire :: "capsule \<Rightarrow> bytes" where
  "capsule_wire c = varint_bytes (unat (capsule_type c)) @ varint_bytes (length (capsule_value c))
     @ capsule_value c"

definition capsule_valid :: "capsule \<Rightarrow> bool" where
  "capsule_valid c \<longleftrightarrow> unat (capsule_type c) < 2 ^ 62 \<and> length (capsule_value c) \<le> MAX_CAPSULE_SIZE"

lemma read_capsule_next:
  assumes "capsule_valid c" and "pending r = Some (capsule_wire c @ rest)"
  shows "\<exists>r'. read_capsule r = (Ok c, r') \<and> pending r' = Some rest"
proof -
  let ?v = "capsule_value c"
  from assms have t: "unat (capsule_type c) < 2 ^ 62" and l: "length ?v \<le> 1048576"
    and p: "pending r = Some (varint_bytes (unat (capsule_type c)) @ varint_bytes (length ?v) @ ?v @ rest)"
    by (simp_all add: capsule_valid_def capsule_wire_def MAX_CAPSULE_SIZE_def)
  from read_varint_next [OF t p] obtain r1 where
    r1: "read_varint r = (Ok (capsule_type c), r1)"
    and p1: "pending r1 = Some (varint_bytes (length ?v) @ ?v @ rest)" by auto
  from read_varint_next [OF _ p1] l obtain r2 where
    r2: "read_varint r1 = (Ok (u64_of (length ?v)), r2)" and p2: "pending r2 = Some (?v @ rest)" by auto
  from fill_loop_ok [OF p2, of 0 "resize (length ?v) 0 []" UnexpectedEof UnexpectedEof id]
  obtain r3 where r3: "read_exact r2 (resize (length ?v) 0 []) = (Ok (), ?v, r3)"
    and p3: "pending r3 = Some rest"
    by (auto simp: read_exact_def)
  have "unat (u64_of (length ?v)) = length ?v" using l by simp
  then show ?thesis using r1 r2 r3 p3 l
    by (simp add: read_capsule_def read_capsule_into_def MAX_CAPSULE_SIZE_def)
qed

interpretation capsules: message_stream read_capsule capsule_wire capsule_valid pending
proof
  show "\<exists>r. pending r = Some bs" for bs
    by (rule exI [of _ "if bs = [] then [] else [Chunk bs]"]) simp
qed (rule read_capsule_next)

lemma write_header_and_Ok:
  "write_header_and enc n payload = (Ok (), enc') \<Longrightarrow>
    written (cap_writer enc') = written (cap_writer enc) @ take n (cap_header enc) @ payload
    \<and> cap_header enc' = cap_header enc"
  by (auto simp: write_header_and_def std_write_all_def dest!: write_loop_Ok
        split: prod.splits sum.splits)

text \<open>Both varints of a capsule header fit its 16 bytes.\<close>

lemma capsule_header:
  assumes "unat t < 2 ^ 62" and "n \<le> MAX_CAPSULE_SIZE" and "length header = 16"
  obtains k h1 m h2 where "encode_varint_into t header = Ok (k, h1)"
    "encode_varint_into (u64_of n) (drop k h1) = Ok (m, h2)"
    "length (take k h1 @ h2) = 16" "k \<le> length h1" "k + m < 16"
    "take (k + m) (take k h1 @ h2) = varint_bytes (unat t) @ varint_bytes n"
proof -
  let ?k = "varint_len (unat t)" and ?m = "varint_len n"
  let ?h1 = "varint_bytes (unat t) @ drop ?k header"
  have n: "unat (u64_of n) = n" "n < 2 ^ 62" "?m \<le> 4"
    using assms(2) by (auto simp: MAX_CAPSULE_SIZE_def varint_len_def)
  have k: "?k \<le> 8" by simp
  have d: "drop ?k ?h1 = drop ?k header" by simp
  have room: "8 \<le> length (drop ?k header)"
    using k assms(3) by (simp only: length_drop)
  have km: "?k + ?m < 16" using k n(3) by linarith
  show ?thesis
  proof (rule that [of ?k ?h1 ?m "varint_bytes n @ drop ?m (drop ?k header)"])
    show "encode_varint_into t header = Ok (?k, ?h1)"
      using encode_varint_into_Ok [OF assms(1)] assms(3) by simp
    show "encode_varint_into (u64_of n) (drop ?k ?h1) = Ok (?m, varint_bytes n @ drop ?m (drop ?k header))"
      using encode_varint_into_Ok [of "u64_of n" "drop ?k header"] n room unfolding d by simp
  qed (use km assms(3) in auto)
qed

lemma write_capsule_Ok:
  assumes "write_capsule enc t v = (Ok (), enc')" and "length (cap_header enc) = 16"
  shows "capsule_valid \<lparr>capsule_type = t, capsule_value = v\<rparr>"
    and "written (cap_writer enc') =
      written (cap_writer enc) @ capsule_wire \<lparr>capsule_type = t, capsule_value = v\<rparr>"
    and "length (cap_header enc') = 16"
proof -
  from assms(1) have l: "length v \<le> MAX_CAPSULE_SIZE"
    by (auto simp: write_capsule_def split: if_splits)
  have t: "unat t < 2 ^ 62"
  proof (rule ccontr)
    assume "\<not> unat t < 2 ^ 62"
    then have "encode_varint_into t (cap_header enc) = Err VarIntTooLarge"
      by (intro encode_varint_into_Err) (simp only: not_less)
    with assms(1) l show False by (simp add: write_capsule_def)
  qed
  show "capsule_valid \<lparr>capsule_type = t, capsule_value = v\<rparr>"
    using t l by (simp add: capsule_valid_def)
  from capsule_header [OF t l assms(2)] obtain k h1 m h2 where
    h: "encode_varint_into t (cap_header enc) = Ok (k, h1)"
      "encode_varint_into (u64_of (length v)) (drop k h1) = Ok (m, h2)"
      "length (take k h1 @ h2) = 16" "k \<le> length h1" "k + m < 16"
      "take (k + m) (take k h1 @ h2) = varint_bytes (unat t) @ varint_bytes (length v)" .
  then have "write_header_and (enc\<lparr>cap_header := take k h1 @ h2\<rparr>) (k + m) v = (Ok (), enc')"
    using assms(1) l by (simp add: write_capsule_def)
  from write_header_and_Ok [OF this] h(3,6)
  show "written (cap_writer enc') =
      written (cap_writer enc) @ capsule_wire \<lparr>capsule_type = t, capsule_value = v\<rparr>"
    and "length (cap_header enc') = 16"
    by (auto simp: capsule_wire_def)
qed

lemma write_capsules_Ok:
  assumes "send_many (\<lambda>enc c. write_capsule enc (capsule_type c) (capsule_value c)) enc cs = (Ok (), enc')"
    and "length (cap_header enc) = 16"
  shows "list_all capsule_valid cs
    \<and> written (cap_writer enc') = written (cap_writer enc) @ concat (map capsule_wire cs)"
  using assms
proof (induction cs arbitrary: enc)
  case (Cons c cs)
  from Cons.prems(1) obtain enc1 where
    w: "write_capsule enc (capsule_type c) (capsule_value c) = (Ok (), enc1)" and
    rest: "send_many (\<lambda>enc c. write_capsule enc (capsule_type c) (capsule_value c)) enc1 cs = (Ok (), enc')"
    by (auto split: prod.splits sum.splits)
  have "\<lparr>capsule_type = capsule_type c, capsule_value = capsule_value c\<rparr> = c" by (cases c) simp
  with write_capsule_Ok [OF w Cons.prems(2)] Cons.IH [OF rest] show ?case by simp
qed simp

lemma write_ip_packet_Ok:
  assumes "write_ip_packet enc packet = (Ok (), enc')" and "length (cap_header enc) = 16"
  shows "capsule_valid \<lparr>capsule_type = CAPSULE_DATAGRAM, capsule_value = encode_ip_packet packet\<rparr>"
    and "written (cap_writer enc') = written (cap_writer enc) @
      capsule_wire \<lparr>capsule_type = CAPSULE_DATAGRAM, capsule_value = encode_ip_packet packet\<rparr>"
proof -
  let ?n = "length packet + 1"
  from assms(1) have l: "?n \<le> MAX_CAPSULE_SIZE"
    by (auto simp: write_ip_packet_def split: if_splits)
  have t: "unat CAPSULE_DATAGRAM < 2 ^ 62" by (simp add: CAPSULE_DATAGRAM_def)
  show "capsule_valid \<lparr>capsule_type = CAPSULE_DATAGRAM, capsule_value = encode_ip_packet packet\<rparr>"
    using t l by (simp add: capsule_valid_def encode_ip_packet_def)
  from capsule_header [OF t l assms(2)] obtain k h1 m h2 where
    h: "encode_varint_into CAPSULE_DATAGRAM (cap_header enc) = Ok (k, h1)"
      "encode_varint_into (u64_of ?n) (drop k h1) = Ok (m, h2)"
      "length (take k h1 @ h2) = 16" "k + m < 16"
      "take (k + m) (take k h1 @ h2) = varint_bytes (unat CAPSULE_DATAGRAM) @ varint_bytes ?n" .
  let ?h = "(take k h1 @ h2)[k + m := 0]"
  have w: "write_header_and (enc\<lparr>cap_header := ?h\<rparr>) (k + m + 1) packet = (Ok (), enc')"
    using assms(1) l h(1,2) by (simp add: write_ip_packet_def Let_def)
  have "take (k + m + 1) ?h = take (k + m) (take k h1 @ h2) @ [0]"
    using h(3,4) by (simp only: take_Suc_conv_app_nth length_list_update take_update_cancel
        nth_list_update_eq Suc_eq_plus1 [symmetric] le_refl)
  with write_header_and_Ok [OF w] h(5)
  show "written (cap_writer enc') = written (cap_writer enc) @
      capsule_wire \<lparr>capsule_type = CAPSULE_DATAGRAM, capsule_value = encode_ip_packet packet\<rparr>"
    by (simp add: capsule_wire_def encode_ip_packet_def)
qed

lemma decode_encode_ip_packet: "packet \<noteq> [] \<Longrightarrow> decode_ip_packet (encode_ip_packet packet) = Ok packet"
  using parse_varint_bytes [of 0 packet]
  by (simp add: decode_ip_packet_def encode_ip_packet_def varint_bytes_def varint_len_def
        varint_tag_def byte_of_def u64_of_def)

subsection \<open>Properties\<close>

text \<open>\<open>encode_varint\<close> accepts exactly the integers below \<open>2 ^ 62\<close>, and \<open>parse_varint\<close> reads
  back what it produced from the front of any input, with the number of bytes consumed.\<close>

theorem varint_roundtrip:
  "case encode_varint value of
     Ok bs \<Rightarrow> unat value < 2 ^ 62 \<and> length bs \<in> {1, 2, 4, 8}
       \<and> (\<forall>rest. parse_varint (bs @ rest) = Ok (value, length bs))
   | Err e \<Rightarrow> e = VarIntTooLarge \<and> 2 ^ 62 \<le> unat value"
proof (cases "unat value < 2 ^ 62")
  case True
  then have "encode_varint value = Ok (varint_bytes (unat value))"
    using encode_varint_into_Ok [OF True, of "replicate 8 0"] by (simp add: encode_varint_def)
  with True show ?thesis using parse_varint_bytes [OF True] varint_len_cases by simp
next
  case False
  then have "2 ^ 62 \<le> unat value" by (simp only: not_less)
  then show ?thesis using encode_varint_into_Err by (simp add: encode_varint_def)
qed

text \<open>C35: capsules written by \<open>Encoder::write\<close> are read back by \<open>Decoder::read\<close> in order with
  their types and values, for any chunking of the transport.\<close>

theorem capsule_roundtrip:
  assumes "send_many (\<lambda>enc c. write_capsule enc (capsule_type c) (capsule_value c))
      (new_capsule_encoder \<lparr>written = [], replies = rs\<rparr>) capsules = (Ok (), enc)"
    and "pending r = Some (written (cap_writer enc))"
  shows "\<exists>r'. read_many read_capsule (length capsules) r = (Ok capsules, r') \<and> pending r' = Some []"
  using write_capsules_Ok [OF assms(1)] assms(2) capsules.receive_all [of capsules r "[]"]
  by (simp add: new_capsule_encoder_def)

theorem capsule_roundtrip_witness:
  "\<exists>r'. read_many read_capsule (length [\<lparr>capsule_type = 0xff7000, capsule_value = [1, 2]\<rparr>])
      [Chunk [0x80, 0xff], ReadInterrupted, Chunk [0x70, 0, 2, 1, 2]]
    = (Ok [\<lparr>capsule_type = 0xff7000, capsule_value = [1, 2]\<rparr>], r') \<and> pending r' = Some []"
proof -
  have "send_many (\<lambda>enc c. write_capsule enc (capsule_type c) (capsule_value c))
      (new_capsule_encoder \<lparr>written = [], replies = [Accept 1]\<rparr>)
      [\<lparr>capsule_type = 0xff7000, capsule_value = [1, 2]\<rparr>]
    = (Ok (), \<lparr>cap_writer = \<lparr>written = [0x80, 0xff, 0x70, 0, 2, 1, 2], replies = []\<rparr>,
               cap_header = [0x80, 0xff, 0x70, 0, 2, 0, 0, 0, 0, 0, 0, 0, 0, 0, 0, 0]\<rparr>)"
    by code_simp
  from capsule_roundtrip [OF this, of "[Chunk [0x80, 0xff], ReadInterrupted, Chunk [0x70, 0, 2, 1, 2]]"]
  show ?thesis by simp
qed

text \<open>a nonempty packet sent with \<open>Encoder::write_ip_packet\<close>, which builds context and
  length in the header buffer without copying the packet, arrives as a DATAGRAM capsule whose value
  \<open>decode_ip_packet\<close> turns back into the packet, leaving what follows on the stream.\<close>

theorem ip_packet_delivered:
  assumes "write_ip_packet (new_capsule_encoder \<lparr>written = [], replies = rs\<rparr>) packet = (Ok (), enc)"
    and "packet \<noteq> []" and "pending r = Some (written (cap_writer enc) @ rest)"
  shows "\<exists>c r'. read_capsule r = (Ok c, r') \<and> capsule_type c = CAPSULE_DATAGRAM
    \<and> decode_ip_packet (capsule_value c) = Ok packet \<and> pending r' = Some rest"
proof -
  let ?c = "\<lparr>capsule_type = CAPSULE_DATAGRAM, capsule_value = encode_ip_packet packet\<rparr>"
  have w: "written (cap_writer enc) = capsule_wire ?c" and v: "capsule_valid ?c"
    using write_ip_packet_Ok [OF assms(1)] by (simp_all add: new_capsule_encoder_def)
  from read_capsule_next [OF v, of r rest] assms(3) decode_encode_ip_packet [OF assms(2)]
  show ?thesis by (auto simp: w)
qed

theorem ip_packet_delivered_witness:
  "\<exists>c r'. read_capsule [Chunk [0, 3], Chunk [0, 69, 7, 99]] = (Ok c, r')
    \<and> capsule_type c = CAPSULE_DATAGRAM
    \<and> decode_ip_packet (capsule_value c) = Ok [69, 7] \<and> pending r' = Some [99]"
proof -
  have "write_ip_packet (new_capsule_encoder \<lparr>written = [], replies = []\<rparr>) [69, 7]
    = (Ok (), \<lparr>cap_writer = \<lparr>written = [0, 3, 0, 69, 7], replies = []\<rparr>,
               cap_header = [0, 3, 0, 0, 0, 0, 0, 0, 0, 0, 0, 0, 0, 0, 0, 0]\<rparr>)"
    by code_simp
  from ip_packet_delivered [OF this, of "[Chunk [0, 3], Chunk [0, 69, 7, 99]]" "[99]"]
  show ?thesis by simp
qed

end
