(* ===== verification/Wire_Ip.thy ===== *)
theory Wire_Ip
  imports Prelude
begin

text \<open>
  IPv4 validation, classification and checksums: \<open>porta-wire/src/ip.rs\<close>. An
  \<open>Ipv4Addr\<close> is its 32-bit value. Every index below is guarded by the length tests that
  precede it, as in the source. The checksum accumulator is an unbounded \<open>nat\<close>: the source
  adds 16-bit words into a \<open>u64\<close>, which no slice that fits in memory can overflow.
\<close>

type_synonym ipv4_addr = u32

definition ipv4_new :: "u8 \<Rightarrow> u8 \<Rightarrow> u8 \<Rightarrow> u8 \<Rightarrow> ipv4_addr" where
  "ipv4_new a b c d = u32_of (from_be [a, b, c, d])"

definition ipv4_octets :: "ipv4_addr \<Rightarrow> bytes" where
  "ipv4_octets a = to_be 4 (unat a)"

lemma length_ipv4_octets [simp]: "length (ipv4_octets a) = 4"
  by (simp add: ipv4_octets_def)

lemma length4: "length bs = 4 \<longleftrightarrow> (\<exists>a b c d. bs = [a, b, c, d])"
  by (auto simp: numeral_eq_Suc length_Suc_conv)

lemma ipv4_new_octets: "ipv4_octets (ipv4_new a b c d) = [a, b, c, d]"
proof -
  have len: "length [a, b, c, d] = 4" by simp
  have "from_be [a, b, c, d] < 4294967296"
    using from_be_less [of "[a, b, c, d]"] unfolding len by simp
  moreover have "to_be 4 (from_be [a, b, c, d]) = [a, b, c, d]"
    using to_be_from_be [of "[a, b, c, d]"] unfolding len .
  ultimately show ?thesis by (simp add: ipv4_octets_def ipv4_new_def)
qed

lemma ipv4_octets_new:
  assumes "ipv4_octets x = [a, b, c, d]"
  shows "ipv4_new a b c d = x"
proof (rule word_eqI_unat)
  have "from_be [a, b, c, d] = unat x mod 256 ^ 4"
    using assms by (metis from_be_to_be ipv4_octets_def)
  moreover have "unat x < 4294967296" using unsigned_less [of x] by simp
  ultimately show "unat (ipv4_new a b c d) = unat x"
    by (simp add: ipv4_new_def)
qed

subsection \<open>Parsing\<close>

record ipv4_info =
  info_source :: ipv4_addr
  info_destination :: ipv4_addr
  total_length :: nat
  header_length :: nat

datatype ipv4_error = NotIpv4 | ShortHeader | InvalidLength nat nat

definition parse_ipv4 :: "bytes \<Rightarrow> ipv4_error + ipv4_info" where
  "parse_ipv4 packet =
    (if length packet < 20 then Err ShortHeader
     else if drop_bit 4 (packet ! 0) \<noteq> 4 then Err NotIpv4
     else
       let header_len = unat (packet ! 0 AND 15) * 4
       in if header_len < 20 \<or> header_len > length packet then Err ShortHeader
       else
         let total_len = unat (u16_from_be_bytes (packet ! 2) (packet ! 3))
         in if total_len < header_len \<or> total_len \<noteq> length packet
            then Err (InvalidLength total_len (length packet))
            else Ok \<lparr>info_source = ipv4_new (packet ! 12) (packet ! 13) (packet ! 14) (packet ! 15),
                     info_destination = ipv4_new (packet ! 16) (packet ! 17) (packet ! 18) (packet ! 19),
                     total_length = total_len,
                     header_length = header_len\<rparr>)"

subsection \<open>Classification\<close>

datatype packet_class = Tcp | Datagram | Control

record flow_key =
  flow_source :: bytes
  flow_destination :: bytes
  source_port :: u16
  destination_port :: u16
  fragment_id :: u16
  protocol :: u8
  fragmented :: bool

record packet_metadata =
  meta_class :: packet_class
  meta_flow :: flow_key
  meta_hash :: u32

definition default_flow :: flow_key where
  "default_flow = \<lparr>flow_source = [0, 0, 0, 0], flow_destination = [0, 0, 0, 0], source_port = 0,
     destination_port = 0, fragment_id = 0, protocol = 0, fragmented = False\<rparr>"

definition default_metadata :: packet_metadata where
  "default_metadata = \<lparr>meta_class = Datagram, meta_flow = default_flow, meta_hash = 0\<rparr>"

definition tcp_ack_only :: "bytes \<Rightarrow> nat \<Rightarrow> bool" where
  "tcp_ack_only packet ip_header_length =
    (if length packet < ip_header_length + 20 then False
     else
       let tcp_header_length = unat (drop_bit 4 (packet ! (ip_header_length + 12))) * 4
       in if tcp_header_length < 20 \<or> length packet < ip_header_length + tcp_header_length then False
       else
         let flags = packet ! (ip_header_length + 13)
         in flags AND 0x10 \<noteq> 0 \<and> flags AND (0x01 OR 0x02 OR 0x04) = 0
            \<and> length packet = ip_header_length + tcp_header_length)"

definition hash_flow :: "flow_key \<Rightarrow> u32" where
  "hash_flow flow =
    foldl (\<lambda>hash value. (hash XOR ucast value) * 16777619) 2166136261
      (flow_source flow @ flow_destination flow @ u16_to_be_bytes (source_port flow)
        @ u16_to_be_bytes (destination_port flow) @ u16_to_be_bytes (fragment_id flow)
        @ [protocol flow, if fragmented flow then 1 else 0])"

definition classify_ipv4 :: "bytes \<Rightarrow> packet_metadata" where
  "classify_ipv4 packet =
    (if length packet < 20 \<or> drop_bit 4 (packet ! 0) \<noteq> 4 then default_metadata
     else
       let header_len = unat (packet ! 0 AND 15) * 4
       in if header_len < 20 \<or> header_len > length packet then default_metadata
       else
         let flags_and_offset = u16_from_be_bytes (packet ! 6) (packet ! 7);
             is_fragment = (flags_and_offset AND 0x3fff \<noteq> 0);
             flow = default_flow
               \<lparr>flow_source := range_of 12 16 packet, flow_destination := range_of 16 20 packet,
                protocol := packet ! 9, fragmented := is_fragment,
                fragment_id := (if is_fragment then u16_from_be_bytes (packet ! 4) (packet ! 5) else 0)\<rparr>;
             has_ports = (\<not> fragmented flow \<and> (protocol flow = 6 \<or> protocol flow = 17)
               \<and> length packet \<ge> header_len + 4);
             flow = (if has_ports
               then flow
                 \<lparr>source_port := u16_from_be_bytes (packet ! header_len) (packet ! (header_len + 1)),
                  destination_port :=
                    u16_from_be_bytes (packet ! (header_len + 2)) (packet ! (header_len + 3))\<rparr>
               else flow);
             cls =
               (if protocol flow = 1 then Control
                else if protocol flow = 6 then
                  (if has_ports \<and> (source_port flow = 53 \<or> destination_port flow = 53)
                      \<or> has_ports \<and> tcp_ack_only packet header_len
                   then Control else Tcp)
                else if protocol flow = 17 \<and> has_ports
                    \<and> (source_port flow = 53 \<or> destination_port flow = 53 \<or> length packet \<le> 256)
                  then Control
                else Datagram)
         in \<lparr>meta_class = cls, meta_flow = flow, meta_hash = hash_flow flow\<rparr>)"

subsection \<open>Checksums\<close>

fun as_chunks2 :: "'a list \<Rightarrow> ('a \<times> 'a) list \<times> 'a list" where
  "as_chunks2 (a # b # rest) = (let (chunks, remainder) = as_chunks2 rest in ((a, b) # chunks, remainder))"
| "as_chunks2 rest = ([], rest)"

text \<open>The loop \<open>while sum >> 16 != 0\<close> of \<open>internet_checksum\<close>.\<close>

function fold_carries :: "nat \<Rightarrow> nat" where
  "fold_carries s = (if s div 65536 \<noteq> 0 then fold_carries (s mod 65536 + s div 65536) else s)"
  by pat_completeness auto
termination
proof (relation "measure id")
  fix s :: nat
  assume "s div 65536 \<noteq> 0"
  then show "(s mod 65536 + s div 65536, s) \<in> measure id"
    using div_mult_mod_eq [of s 65536] by (simp, linarith)
qed simp

declare fold_carries.simps [simp del]

definition internet_checksum :: "bytes \<Rightarrow> u16" where
  "internet_checksum data =
    (let (chunks, remainder) = as_chunks2 data;
         sum = foldl (\<lambda>sum (a, b). sum + unat (u16_from_be_bytes a b)) 0 chunks;
         sum = (case remainder of [] \<Rightarrow> sum | last_byte # _ \<Rightarrow> sum + unat last_byte * 256)
     in NOT (u16_of (fold_carries sum)))"

definition ipv4_header_length :: "bytes \<Rightarrow> ipv4_error + nat" where
  "ipv4_header_length packet =
    (if length packet < 20 then Err ShortHeader
     else if drop_bit 4 (packet ! 0) \<noteq> 4 then Err NotIpv4
     else
       let header_len = unat (packet ! 0 AND 15) * 4
       in if header_len < 20 \<or> header_len > length packet then Err ShortHeader
          else Ok header_len)"

definition ipv4_header_checksum :: "bytes \<Rightarrow> ipv4_error + u16" where
  "ipv4_header_checksum packet =
    rbind (ipv4_header_length packet) (\<lambda>header_len. Ok (internet_checksum (take header_len packet)))"

definition set_ipv4_header_checksum :: "bytes \<Rightarrow> ipv4_error + bytes" where
  "set_ipv4_header_checksum packet =
    rbind (ipv4_header_length packet) (\<lambda>header_len.
      let packet = packet[10 := 0, 11 := 0];
          checksum = u16_to_be_bytes (internet_checksum (take header_len packet))
      in Ok (copy_at 10 checksum packet))"

subsection \<open>Well-formed headers\<close>

text \<open>What the three header tests of \<open>parse_ipv4\<close>, \<open>classify_ipv4\<close> and
  \<open>ipv4_header_length\<close> have in common.\<close>

definition header_shape :: "bytes \<Rightarrow> nat \<Rightarrow> bool" where
  "header_shape packet n \<longleftrightarrow> unat (packet ! 0) div 16 = 4 \<and> n = unat (packet ! 0) mod 16 * 4
     \<and> 20 \<le> n \<and> n \<le> length packet"

lemma version_nibble: "drop_bit 4 (b :: u8) = 4 \<longleftrightarrow> unat b div 16 = 4"
proof -
  have "drop_bit 4 b = 4 \<longleftrightarrow> unat (drop_bit 4 b) = unat (4 :: u8)"
    by (metis word_eqI_unat)
  then show ?thesis by (simp only: bits) simp
qed

lemma header_shape_bounds:
  assumes "header_shape packet n"
  shows "20 \<le> n" "n \<le> length packet" "n \<le> 60" "n mod 4 = 0" "20 \<le> length packet" "even n"
  using assms by (auto simp: header_shape_def)

lemma ipv4_header_length_Ok: "ipv4_header_length packet = Ok n \<longleftrightarrow> header_shape packet n"
  by (auto simp: ipv4_header_length_def header_shape_def Let_def version_nibble bits)

lemma parse_ipv4_Ok:
  "parse_ipv4 packet = Ok info \<longleftrightarrow>
    header_shape packet (header_length info)
    \<and> total_length info = length packet
    \<and> 256 * unat (packet ! 2) + unat (packet ! 3) = length packet
    \<and> info_source info = ipv4_new (packet ! 12) (packet ! 13) (packet ! 14) (packet ! 15)
    \<and> info_destination info = ipv4_new (packet ! 16) (packet ! 17) (packet ! 18) (packet ! 19)"
proof (cases info)
  case (fields source destination total hlen)
  then show ?thesis
    by (auto simp: parse_ipv4_def header_shape_def Let_def version_nibble bits be_simps)
qed

lemma parse_ipv4_OkD:
  assumes "parse_ipv4 packet = Ok info"
  shows "header_shape packet (header_length info)" "total_length info = length packet"
    "length packet < 65536" "header_length info \<le> length packet" "20 \<le> length packet"
proof -
  from assms have h: "header_shape packet (header_length info)"
    and "256 * unat (packet ! 2) + unat (packet ! 3) = length packet"
    and "total_length info = length packet"
    unfolding parse_ipv4_Ok by blast+
  moreover have "unat (packet ! 2) < 256" "unat (packet ! 3) < 256" by simp_all
  ultimately show "header_shape packet (header_length info)" "total_length info = length packet"
    "length packet < 65536" "header_length info \<le> length packet" "20 \<le> length packet"
    using header_shape_bounds [OF h] by linarith+
qed

subsection \<open>The one's complement sum\<close>

fun words_sum :: "bytes \<Rightarrow> nat" where
  "words_sum (a # b # rest) = 256 * unat a + unat b + words_sum rest"
| "words_sum [a] = 256 * unat a"
| "words_sum [] = 0"

lemma foldl_chunks:
  "as_chunks2 data = (chunks, remainder) \<Longrightarrow>
    (case remainder of [] \<Rightarrow> foldl (\<lambda>sum (a, b). sum + unat (u16_from_be_bytes a b)) s chunks
      | last_byte # _ \<Rightarrow>
          foldl (\<lambda>sum (a, b). sum + unat (u16_from_be_bytes a b)) s chunks + unat last_byte * 256)
    = s + words_sum data"
proof (induction data arbitrary: s chunks remainder rule: words_sum.induct)
  case (1 a b rest)
  then show ?case by (auto simp: be_simps split: prod.splits list.splits)
qed auto

lemma internet_checksum_words: "internet_checksum data = NOT (u16_of (fold_carries (words_sum data)))"
  using foldl_chunks [where s = 0] by (auto simp: internet_checksum_def Let_def split: prod.splits)

lemma words_sum_append: "even (length xs) \<Longrightarrow> words_sum (xs @ ys) = words_sum xs + words_sum ys"
  by (induction xs rule: words_sum.induct) auto

lemma fold_carries_0: "fold_carries 0 = 0"
  by (simp add: fold_carries.simps [of 0])

lemma fold_carries_less: "fold_carries s < 65536"
proof (induction s rule: fold_carries.induct)
  case (1 s)
  then show ?case by (cases "s div 65536 = 0") (auto simp: fold_carries.simps [of s] div_eq_0_iff)
qed

lemma fold_carries_mod: "fold_carries s mod 65535 = s mod 65535"
proof (induction s rule: fold_carries.induct)
  case (1 s)
  have "s = 65535 * (s div 65536) + (s mod 65536 + s div 65536)"
    using div_mult_mod_eq [of s 65536] by simp
  then have "s mod 65535 = (s mod 65536 + s div 65536) mod 65535"
    by (rule ssubst [where P = "\<lambda>x. x mod 65535 = (s mod 65536 + s div 65536) mod 65535"])
       (rule mod_mult_self4)
  with 1 show ?case by (cases "s div 65536 = 0") (simp_all only: fold_carries.simps [of s] if_True if_False simp_thms)
qed

lemma fold_carries_pos: "0 < s \<Longrightarrow> 0 < fold_carries s"
proof (induction s rule: fold_carries.induct)
  case (1 s)
  then show ?case by (cases "s div 65536 = 0") (auto simp: fold_carries.simps [of s])
qed

lemma fold_carries_multiple:
  assumes "0 < s" and "s mod 65535 = 0"
  shows "fold_carries s = 65535"
proof -
  have "fold_carries s mod 65535 = 0" "0 < fold_carries s" "fold_carries s < 65536"
    using assms fold_carries_mod fold_carries_pos fold_carries_less by auto
  then show ?thesis by (auto elim!: dvdE [OF mod_0_imp_dvd])
qed

lemma fold_carries_eq_65535:
  "fold_carries s = 65535 \<longleftrightarrow> 0 < s \<and> s mod 65535 = 0"
proof
  assume f: "fold_carries s = 65535"
  then have "s \<noteq> 0" using fold_carries_0 by (cases "s = 0") simp_all
  with f fold_carries_mod [of s] show "0 < s \<and> s mod 65535 = 0" by simp
qed (simp add: fold_carries_multiple)

lemma unat_not_word16: "unat (NOT (w :: u16)) = 65535 - unat w"
proof -
  have "uint (NOT w) = mask 16 - uint w"
    using bintr_uint [of 16 w] by (simp add: unsigned_not_eq take_bit_not_eq_mask_diff)
  then have "int (unat (NOT w)) = 65535 - int (unat w)"
    by (simp only: of_nat_unat mask_eq_exp_minus_1) simp
  then show ?thesis by linarith
qed

lemma unat_not_u16: "n < 65536 \<Longrightarrow> unat (NOT (u16_of n)) = 65535 - n"
  by (simp add: unat_not_word16)

text \<open>A region passes the checksum test when its words add up to a positive multiple of 65535.\<close>

lemma internet_checksum_zero:
  "internet_checksum data = 0 \<longleftrightarrow> 0 < words_sum data \<and> words_sum data mod 65535 = 0"
proof -
  let ?f = "fold_carries (words_sum data)"
  have "internet_checksum data = 0 \<longleftrightarrow> unat (internet_checksum data) = unat (0 :: u16)"
    by (metis word_eqI_unat)
  also have "unat (internet_checksum data) = 65535 - ?f"
    unfolding internet_checksum_words by (rule unat_not_u16 [OF fold_carries_less])
  also have "65535 - ?f = unat (0 :: u16) \<longleftrightarrow> ?f = 65535"
    using fold_carries_less [of "words_sum data"] by auto
  finally show ?thesis by (simp only: fold_carries_eq_65535)
qed

text \<open>Storing the checksum of a region in a zero word of it makes the region pass.\<close>

lemma checksum_closes:
  assumes "even (length front)"
  shows "internet_checksum (front @ u16_to_be_bytes (internet_checksum (front @ [0, 0] @ rear)) @ rear) = 0"
proof -
  define s where "s = words_sum (front @ [0, 0] @ rear)"
  have s: "s = words_sum front + words_sum rear"
    using assms by (simp add: s_def words_sum_append)
  have "unat (internet_checksum (front @ [0, 0] @ rear)) = 65535 - fold_carries s"
    unfolding internet_checksum_words s_def by (rule unat_not_u16 [OF fold_carries_less])
  then have total: "words_sum (front @ u16_to_be_bytes (internet_checksum (front @ [0, 0] @ rear)) @ rear)
      = s + (65535 - fold_carries s)"
    using assms fold_carries_less [of s] by (simp add: be_simps words_sum_append s)
  have "(s + (65535 - fold_carries s)) mod 65535 = (fold_carries s + (65535 - fold_carries s)) mod 65535"
    by (metis fold_carries_mod mod_add_left_eq)
  moreover have "fold_carries s + (65535 - fold_carries s) = 65535"
    using fold_carries_less [of s] by simp
  moreover have "0 < s + (65535 - fold_carries s)"
    using fold_carries_0 by (cases "s = 0") simp_all
  ultimately show ?thesis
    unfolding internet_checksum_zero total by simp
qed

lemma split_checksum_field:
  assumes "12 \<le> length (p :: bytes)"
  obtains front x y rear where "p = front @ [x, y] @ rear" "length front = 10"
proof
  show "p = take 10 p @ [p ! 10, p ! 11] @ drop 12 p"
    using assms id_take_nth_drop [of 10 p] Cons_nth_drop_Suc [of 11 p] by simp
qed (use assms in simp)

lemma set_checksum_eq:
  assumes "header_shape (front @ [x, y] @ rear) n" and "length front = 10"
  shows "set_ipv4_header_checksum (front @ [x, y] @ rear) =
    Ok (front @ u16_to_be_bytes (internet_checksum (front @ [0, 0] @ take (n - 12) rear)) @ rear)"
proof -
  note b = header_shape_bounds [OF assms(1)]
  have "take n (front @ [0, 0] @ rear) = front @ [0, 0] @ take (n - 12) rear"
    using assms(2) b(1) take_past [of "front @ [0, 0]" n rear] by simp
  then show ?thesis
    using assms unfolding ipv4_header_length_Ok [symmetric]
    by (simp add: set_ipv4_header_checksum_def copy_at_def list_update_append)
qed

lemma set_checksum_passes:
  assumes "header_shape (front @ [x, y] @ rear) n" and "length front = 10"
  obtains check where "set_ipv4_header_checksum (front @ [x, y] @ rear) = Ok (front @ check @ rear)"
    "length check = 2" "header_shape (front @ check @ rear) n"
    "internet_checksum (take n (front @ check @ rear)) = 0"
proof -
  let ?cs = "u16_to_be_bytes (internet_checksum (front @ [0, 0] @ take (n - 12) rear))"
  note b = header_shape_bounds [OF assms(1)]
  show ?thesis
  proof (rule that [of ?cs])
    show "set_ipv4_header_checksum (front @ [x, y] @ rear) = Ok (front @ ?cs @ rear)"
      by (rule set_checksum_eq [OF assms])
    have "(front @ ?cs @ rear) ! 0 = (front @ [x, y] @ rear) ! 0"
      using assms(2) by (simp add: nth_append)
    then show "header_shape (front @ ?cs @ rear) n"
      using assms by (simp add: header_shape_def)
    have "take n (front @ ?cs @ rear) = front @ ?cs @ take (n - 12) rear"
      using b assms(2) by simp
    then show "internet_checksum (take n (front @ ?cs @ rear)) = 0"
      using checksum_closes [of front "take (n - 12) rear"] assms(2) by (simp only:) simp
  qed simp
qed

subsection \<open>Properties\<close>

text \<open>\<open>set_ipv4_header_checksum\<close> writes a header that passes the receiver's check
  (\<open>ipv4_header_checksum\<close> returns 0) and changes nothing but the checksum field.\<close>

theorem set_checksum_verifies:
  assumes "set_ipv4_header_checksum p = Ok p'"
  shows "ipv4_header_checksum p' = Ok 0 \<and> length p' = length p
    \<and> (\<forall>i < length p. i \<noteq> 10 \<longrightarrow> i \<noteq> 11 \<longrightarrow> p' ! i = p ! i)"
proof -
  from assms obtain n where shape: "header_shape p n"
    by (auto simp: set_ipv4_header_checksum_def ipv4_header_length_Ok)
  note b = header_shape_bounds [OF shape]
  obtain front x y rear where p: "p = front @ [x, y] @ rear" and front: "length front = 10"
    using b by (elim split_checksum_field [of p, rotated]) simp_all
  obtain check where p': "set_ipv4_header_checksum p = Ok (front @ check @ rear)" "length check = 2"
    and h: "header_shape (front @ check @ rear) n" "internet_checksum (take n (front @ check @ rear)) = 0"
    using set_checksum_passes [OF shape [unfolded p] front] unfolding p by blast
  have eq: "p' = front @ check @ rear" using assms p'(1) by simp
  have "ipv4_header_checksum p' = Ok 0"
    using h unfolding eq ipv4_header_checksum_def ipv4_header_length_Ok [symmetric] by simp
  then show ?thesis
    using p'(2) front by (auto simp: p eq nth_append nth_Cons' numeral_eq_Suc)
qed

theorem set_checksum_verifies_witness:
  "\<exists>p'. set_ipv4_header_checksum
      [0x45, 0, 0, 20, 0, 0, 0, 0, 64, 0, 0, 0, 10, 66, 0, 2, 1, 1, 1, 1] = Ok p'
    \<and> ipv4_header_checksum p' = Ok 0"
proof -
  have h: "set_ipv4_header_checksum
      [0x45, 0, 0, 20, 0, 0, 0, 0, 64, 0, 0, 0, 10, 66, 0, 2, 1, 1, 1, 1]
    = Ok [0x45, 0, 0, 20, 0, 0, 0, 0, 64, 0, 0x6e, 0xa5, 10, 66, 0, 2, 1, 1, 1, 1]"
    by code_simp
  from set_checksum_verifies [OF h] h show ?thesis by blast
qed

text \<open>\<open>parse_ipv4\<close> accepts exactly the packets whose version is 4, whose header length
  is at least 20 and inside the packet, and whose total length is the packet's; and it reports
  that header length, that total length and the two address fields.\<close>

theorem parse_ipv4_accepts:
  "parse_ipv4 packet = Ok info \<longleftrightarrow>
    unat (packet ! 0) div 16 = 4
    \<and> header_length info = unat (packet ! 0) mod 16 * 4
    \<and> 20 \<le> header_length info \<and> header_length info \<le> length packet
    \<and> total_length info = length packet
    \<and> from_be (range_of 2 4 packet) = length packet
    \<and> ipv4_octets (info_source info) = range_of 12 16 packet
    \<and> ipv4_octets (info_destination info) = range_of 16 20 packet"
proof (cases "20 \<le> length packet")
  case True
  then have fields: "range_of 2 4 packet = [packet ! 2, packet ! 3]"
    "range_of 12 16 packet = [packet ! 12, packet ! 13, packet ! 14, packet ! 15]"
    "range_of 16 20 packet = [packet ! 16, packet ! 17, packet ! 18, packet ! 19]"
    using range_of_2 [of 2 packet] range_of_4 [of 12 packet] range_of_4 [of 16 packet] by simp_all
  have "ipv4_octets a = [b, c, d, e] \<longleftrightarrow> a = ipv4_new b c d e" for a b c d e
    using ipv4_new_octets ipv4_octets_new by metis
  then show ?thesis
    unfolding parse_ipv4_Ok header_shape_def fields
    by (simp only: from_be_Cons from_be_Nil list.size power_0 power_Suc mult_1_right) auto
next
  case False
  then show ?thesis unfolding parse_ipv4_Ok header_shape_def by auto
qed

end
