(* ===== verification/Wire_Masque.thy ===== *)
theory Wire_Masque
  imports Wire_Varint Wire_Ip
begin

text \<open>
  The CONNECT-IP control messages of \<open>porta-wire/src/masque.rs\<close>: address requests and
  assignments, route advertisements, and the MTU discovery messages. An \<open>IpAddr\<close> is ordered as
  the derived \<open>Ord\<close> of the standard library orders it. The networks of the \<open>ipnet\<close> crate and
  the \<open>hex\<close> decoder are parameters of the definitions that call them.
\<close>

definition CAPSULE_ADDRESS_ASSIGN :: u64 where "CAPSULE_ADDRESS_ASSIGN = 1"
definition CAPSULE_ADDRESS_REQUEST :: u64 where "CAPSULE_ADDRESS_REQUEST = 2"
definition CAPSULE_ROUTE_ADVERTISEMENT :: u64 where "CAPSULE_ROUTE_ADVERTISEMENT = 3"
definition CAPSULE_MTU_SELECT :: u64 where "CAPSULE_MTU_SELECT = 0xff7000"
definition CAPSULE_MTU_SELECTED :: u64 where "CAPSULE_MTU_SELECTED = 0xff7001"
definition SAFE_MTU :: u16 where "SAFE_MTU = 1100"
definition MAX_DISCOVERED_MTU :: u16 where "MAX_DISCOVERED_MTU = 1400"
definition MTU_PROBE_CONTEXT :: u64 where "MTU_PROBE_CONTEXT = 1"
definition MTU_TOKEN_SIZE :: nat where "MTU_TOKEN_SIZE = 16"

subsection \<open>Addresses\<close>

datatype ip_addr = V4 u32 | V6 u128

instantiation ip_addr :: linorder
begin

fun less_eq_ip_addr :: "ip_addr \<Rightarrow> ip_addr \<Rightarrow> bool" where
  "less_eq_ip_addr (V4 a) (V4 b) \<longleftrightarrow> a \<le> b"
| "less_eq_ip_addr (V6 a) (V6 b) \<longleftrightarrow> a \<le> b"
| "less_eq_ip_addr (V4 _) (V6 _) \<longleftrightarrow> True"
| "less_eq_ip_addr (V6 _) (V4 _) \<longleftrightarrow> False"

definition less_ip_addr :: "ip_addr \<Rightarrow> ip_addr \<Rightarrow> bool" where
  "less_ip_addr a b \<longleftrightarrow> a \<le> b \<and> \<not> b \<le> (a :: ip_addr)"

instance
proof
  fix x y z :: ip_addr
  show "x < y \<longleftrightarrow> x \<le> y \<and> \<not> y \<le> x" by (rule less_ip_addr_def)
  show "x \<le> x" by (cases x) auto
  show "x \<le> y \<Longrightarrow> y \<le> z \<Longrightarrow> x \<le> z" by (cases x; cases y; cases z) auto
  show "x \<le> y \<Longrightarrow> y \<le> x \<Longrightarrow> x = y" by (cases x; cases y) auto
  show "x \<le> y \<or> y \<le> x" by (cases x; cases y) auto
qed

end

lemma less_ip_addr_simps [simp]:
  "V4 a < V4 b \<longleftrightarrow> a < b" "V6 c < V6 d \<longleftrightarrow> c < d" "V4 a < V6 d" "\<not> V6 c < V4 b"
  by (auto simp: less_ip_addr_def)

definition ipv6_octets :: "u128 \<Rightarrow> bytes" where
  "ipv6_octets a = to_be 16 (unat a)"

definition ipv6_from :: "bytes \<Rightarrow> u128" where
  "ipv6_from bs = word_of_nat (from_be bs)"

lemma length_ipv6_octets [simp]: "length (ipv6_octets a) = 16"
  by (simp add: ipv6_octets_def)

lemma ipv6_from_octets [simp]: "ipv6_from (ipv6_octets a) = a"
proof -
  have "unat a < 256 ^ 16" using unsigned_less [of a] by simp
  then show ?thesis by (simp add: ipv6_from_def ipv6_octets_def)
qed

lemma ipv6_octets_from: "length bs = 16 \<Longrightarrow> ipv6_octets (ipv6_from bs) = bs"
proof -
  assume l: "length bs = 16"
  have "from_be bs < 2 ^ 128" using from_be_less [of bs] l by simp
  then have "unat (ipv6_from bs) = from_be bs" by (simp add: ipv6_from_def unat_of_nat)
  then show ?thesis using to_be_from_be [of bs] l by (simp add: ipv6_octets_def)
qed

text \<open>
  The \<open>ipnet\<close> crate: \<open>Ipv4Net::new\<close>, \<open>addr\<close>, \<open>network\<close> and \<open>prefix_len\<close>, and the same for
  \<open>Ipv6Net\<close>. \<open>ipnet_laws\<close> states what the code relies on: a network keeps the address and the
  prefix length it was made with, and \<open>new\<close> accepts every length up to the width.
\<close>

record ('n4, 'n6) ipnet =
  v4_new :: "u32 \<Rightarrow> u8 \<Rightarrow> 'n4 option"
  v4_addr :: "'n4 \<Rightarrow> u32"
  v4_network :: "'n4 \<Rightarrow> u32"
  v4_prefix_len :: "'n4 \<Rightarrow> u8"
  v6_new :: "u128 \<Rightarrow> u8 \<Rightarrow> 'n6 option"
  v6_addr :: "'n6 \<Rightarrow> u128"
  v6_network :: "'n6 \<Rightarrow> u128"
  v6_prefix_len :: "'n6 \<Rightarrow> u8"

datatype ('n4, 'n6) ip_net = NetV4 'n4 | NetV6 'n6

record ('n4, 'n6) address =
  request_id :: u64
  prefix_net :: "('n4, 'n6) ip_net"

definition encode_address :: "('n4, 'n6) ipnet \<Rightarrow> ('n4, 'n6) address \<Rightarrow> masque_error + bytes" where
  "encode_address api address =
    rbind (encode_varint_into (request_id address) (replicate 8 0)) (\<lambda>(len, encoded).
      case prefix_net address of
        NetV4 net \<Rightarrow>
          if v4_addr api net \<noteq> v4_network api net then Err (MalformedAddressDetail NotMasked)
          else Ok (take len encoded @ [4] @ ipv4_octets (v4_addr api net) @ [v4_prefix_len api net])
      | NetV6 net \<Rightarrow>
          if v6_addr api net \<noteq> v6_network api net then Err (MalformedAddressDetail NotMasked)
          else Ok (take len encoded @ [6] @ ipv6_octets (v6_addr api net) @ [v6_prefix_len api net]))"

fun encode_addresses :: "('n4, 'n6) ipnet \<Rightarrow> ('n4, 'n6) address list \<Rightarrow> masque_error + bytes" where
  "encode_addresses api [] = Ok []"
| "encode_addresses api (address # addresses) =
    rbind (encode_address api address) (\<lambda>first.
      rbind (encode_addresses api addresses) (\<lambda>rest. Ok (first @ rest)))"

definition encode_address_request ::
  "('n4, 'n6) ipnet \<Rightarrow> ('n4, 'n6) address list \<Rightarrow> masque_error + bytes" where
  "encode_address_request api addresses =
    (if addresses = [] then Err EmptyAddressRequest
     else if list_ex (\<lambda>address. request_id address = 0) addresses then Err ZeroAddressRequestId
     else encode_addresses api addresses)"

text \<open>The version byte's \<open>match\<close>: the address, the prefix length and the bytes consumed.\<close>

definition decode_ip :: "u8 \<Rightarrow> bytes \<Rightarrow> masque_error + ip_addr \<times> u8 \<times> nat" where
  "decode_ip version value =
    (if version = 4 \<and> length value \<ge> 5 then
       Ok (V4 (ipv4_new (value ! 0) (value ! 1) (value ! 2) (value ! 3)), value ! 4, 5)
     else if version = 6 \<and> length value \<ge> 17 then
       Ok (V6 (ipv6_from (take 16 value)), value ! 16, 17)
     else if version = 4 \<or> version = 6 then Err MalformedAddress
     else Err (MalformedAddressDetail (InvalidIpVersion version)))"

definition decode_net :: "('n4, 'n6) ipnet \<Rightarrow> ip_addr \<Rightarrow> u8 \<Rightarrow> masque_error + ('n4, 'n6) ip_net" where
  "decode_net api addr prefix_bits =
    (case addr of
       V4 a \<Rightarrow>
         if unat prefix_bits > 32 then Err (MalformedAddressDetail (InvalidPrefixLength prefix_bits))
         else (case v4_new api a prefix_bits of
                 None \<Rightarrow> Err MalformedAddress
               | Some net \<Rightarrow>
                   if v4_addr api net \<noteq> v4_network api net then Err (MalformedAddressDetail NotMasked)
                   else Ok (NetV4 net))
     | V6 a \<Rightarrow>
         if unat prefix_bits > 128 then Err (MalformedAddressDetail (InvalidPrefixLength prefix_bits))
         else (case v6_new api a prefix_bits of
                 None \<Rightarrow> Err MalformedAddress
               | Some net \<Rightarrow>
                   if v6_addr api net \<noteq> v6_network api net then Err (MalformedAddressDetail NotMasked)
                   else Ok (NetV6 net)))"

text \<open>One iteration of the loop of \<open>decode_addresses\<close>: the entry and the input after it.\<close>

definition decode_entry ::
  "('n4, 'n6) ipnet \<Rightarrow> u64 \<Rightarrow> bytes \<Rightarrow> masque_error + ('n4, 'n6) address \<times> bytes" where
  "decode_entry api ident value =
    (case value of
       [] \<Rightarrow> Err MalformedAddress
     | version # value \<Rightarrow>
         rbind (decode_ip version value) (\<lambda>(addr, prefix_bits, consumed).
           rbind (decode_net api addr prefix_bits) (\<lambda>net.
             Ok (\<lparr>request_id = ident, prefix_net = net\<rparr>, drop consumed value))))"

definition decode_address ::
  "('n4, 'n6) ipnet \<Rightarrow> bytes \<Rightarrow> masque_error + ('n4, 'n6) address \<times> bytes" where
  "decode_address api value =
    rbind (map_err (\<lambda>e. MalformedAddressDetail (RequestIdDetail e)) (parse_varint value))
      (\<lambda>(ident, consumed). decode_entry api ident (drop consumed value))"

lemma decode_address_shorter:
  assumes "decode_address api value = Ok (address, rest)"
  shows "length rest < length value"
proof -
  from assms obtain id' n where "decode_entry api id' (drop n value) = Ok (address, rest)"
    by (auto simp: decode_address_def)
  then obtain version tail m where d: "drop n value = version # tail" and r: "rest = drop m tail"
    by (cases "drop n value") (auto simp: decode_entry_def)
  have "length (drop n value) = Suc (length tail)" by (simp add: d)
  with r show ?thesis by simp
qed

function decode_addresses :: "('n4, 'n6) ipnet \<Rightarrow> bytes \<Rightarrow> masque_error + ('n4, 'n6) address list" where
  "decode_addresses api value =
    (if value = [] then Ok []
     else (case decode_address api value of
             Err e \<Rightarrow> Err e
           | Ok (address, rest) \<Rightarrow>
               rbind (decode_addresses api rest) (\<lambda>addresses. Ok (address # addresses))))"
  by pat_completeness auto
termination
  by (relation "measure (\<lambda>(_, value). length value)") (auto dest: decode_address_shorter)

declare decode_addresses.simps [simp del]

definition decode_address_request ::
  "('n4, 'n6) ipnet \<Rightarrow> bytes \<Rightarrow> masque_error + ('n4, 'n6) address list" where
  "decode_address_request api value =
    rbind (decode_addresses api value) (\<lambda>addresses.
      if addresses = [] then Err DecodedEmptyAddressRequest
      else if list_ex (\<lambda>address. request_id address = 0) addresses
        then Err DecodedZeroAddressRequestId
      else Ok addresses)"

definition encode_address_assign ::
  "('n4, 'n6) ipnet \<Rightarrow> ('n4, 'n6) address list \<Rightarrow> masque_error + bytes" where
  "encode_address_assign api addresses = encode_addresses api addresses"

definition decode_address_assign ::
  "('n4, 'n6) ipnet \<Rightarrow> bytes \<Rightarrow> masque_error + ('n4, 'n6) address list" where
  "decode_address_assign api value = decode_addresses api value"

subsection \<open>Routes\<close>

datatype ordering = Less | Equal | Greater

record route =
  route_start :: ip_addr
  route_end :: ip_addr
  route_protocol :: u8

fun same_address_family :: "ip_addr \<Rightarrow> ip_addr \<Rightarrow> bool" where
  "same_address_family (V4 _) (V4 _) = True"
| "same_address_family (V6 _) (V6 _) = True"
| "same_address_family _ _ = False"

definition cmp :: "'a::linorder \<Rightarrow> 'a \<Rightarrow> ordering" where
  "cmp a b = (if a < b then Less else if a = b then Equal else Greater)"

definition compare_routes :: "route \<Rightarrow> route \<Rightarrow> ordering" where
  "compare_routes r1 r2 =
    (case (route_start r1, route_start r2) of
       (V4 _, V6 _) \<Rightarrow> Less
     | (V6 _, V4 _) \<Rightarrow> Greater
     | _ \<Rightarrow>
         (case cmp (route_protocol r1) (route_protocol r2) of
            Equal \<Rightarrow> if route_end r1 < route_start r2 then Less else Greater
          | unequal \<Rightarrow> unequal))"

text \<open>The encoder's loop; \<open>previous\<close> is \<open>routes[index - 1]\<close> when \<open>index > 0\<close>.\<close>

fun encode_routes :: "route option \<Rightarrow> route list \<Rightarrow> masque_error + bytes" where
  "encode_routes previous [] = Ok []"
| "encode_routes previous (route # routes) =
    (if \<not> same_address_family (route_start route) (route_end route) \<or> route_start route > route_end route
     then Err MalformedRoute
     else if (case previous of None \<Rightarrow> False | Some p \<Rightarrow> compare_routes p route \<noteq> Less)
     then Err RoutesNotOrdered
     else
       rbind
         (case (route_start route, route_end route) of
            (V4 a, V4 b) \<Rightarrow> Ok ([4] @ ipv4_octets a @ ipv4_octets b)
          | (V6 a, V6 b) \<Rightarrow> Ok ([6] @ ipv6_octets a @ ipv6_octets b)
          | _ \<Rightarrow> Err MalformedRoute)
         (\<lambda>range. rbind (encode_routes (Some route) routes) (\<lambda>rest.
           Ok (range @ [route_protocol route] @ rest))))"

definition encode_route_advertisement :: "route list \<Rightarrow> masque_error + bytes" where
  "encode_route_advertisement routes = encode_routes None routes"

text \<open>One iteration of the decoder's loop up to the ordering tests.\<close>

definition decode_route :: "bytes \<Rightarrow> masque_error + route \<times> bytes" where
  "decode_route value =
    (let version = value ! 0; value = drop 1 value
     in rbind (if version = 4 then Ok 4 else if version = 6 then Ok 16
               else Err (MalformedRouteDetail (InvalidIpVersion version)))
          (\<lambda>address_length.
            if length value < address_length * 2 + 1 then Err MalformedRoute
            else
              let (first, final) =
                (if version = 4
                 then (V4 (ipv4_new (value ! 0) (value ! 1) (value ! 2) (value ! 3)),
                       V4 (ipv4_new (value ! 4) (value ! 5) (value ! 6) (value ! 7)))
                 else (V6 (ipv6_from (take 16 value)), V6 (ipv6_from (range_of 16 32 value))))
              in Ok (\<lparr>route_start = first, route_end = final,
                      route_protocol = value ! (address_length * 2)\<rparr>,
                     drop (address_length * 2 + 1) value)))"

lemma decode_route_shorter:
  "decode_route value = Ok (route, rest) \<Longrightarrow> length rest < length value"
  by (auto simp: decode_route_def Let_def split: if_splits)

text \<open>The decoder's loop; \<open>routes\<close> holds the routes decoded so far.\<close>

function decode_routes :: "route list \<Rightarrow> bytes \<Rightarrow> masque_error + route list" where
  "decode_routes routes value =
    (if value = [] then Ok routes
     else (case decode_route value of
             Err e \<Rightarrow> Err e
           | Ok (route, rest) \<Rightarrow>
               if route_start route > route_end route then Err MalformedRoute
               else if routes \<noteq> [] \<and> compare_routes (last routes) route \<noteq> Less
                 then Err DecodedRoutesNotOrdered
               else decode_routes (routes @ [route]) rest))"
  by pat_completeness auto
termination
  by (relation "measure (\<lambda>(_, value). length value)") (auto dest: decode_route_shorter)

declare decode_routes.simps [simp del]

definition decode_route_advertisement :: "bytes \<Rightarrow> masque_error + route list" where
  "decode_route_advertisement value = decode_routes [] value"

subsection \<open>MTU discovery\<close>

type_synonym mtu_token = bytes

record mtu_probe =
  probe_token :: mtu_token
  probe_sequence :: u16
  probe_size :: u16

text \<open>\<open>decode_to_slice\<close> of the \<open>hex\<close> crate: the decoded bytes, or the failure.\<close>

definition parse_mtu_token :: "(string \<Rightarrow> bytes option) \<Rightarrow> string \<Rightarrow> masque_error + mtu_token" where
  "parse_mtu_token hex_decode value =
    (if length value \<noteq> MTU_TOKEN_SIZE * 2 then Err InvalidMtuMessage
     else (case hex_decode value of None \<Rightarrow> Err InvalidMtuMessage | Some token \<Rightarrow> Ok token))"

definition encode_mtu_probe :: "mtu_probe \<Rightarrow> masque_error + bytes" where
  "encode_mtu_probe probe =
    (if \<not> (SAFE_MTU \<le> probe_size probe \<and> probe_size probe \<le> MAX_DISCOVERED_MTU)
        \<or> probe_sequence probe = 0
     then Err InvalidMtuMessage
     else
       let data = replicate (unat (probe_size probe) + 1) 0;
           data = data[0 := ucast MTU_PROBE_CONTEXT];
           data = copy_at 1 (probe_token probe) data;
           data = copy_at 17 (u16_to_be_bytes (probe_sequence probe)) data
       in Ok (copy_at 19 (u16_to_be_bytes (probe_size probe)) data))"

definition is_mtu_probe :: "bytes \<Rightarrow> bool" where
  "is_mtu_probe data = (case data of [] \<Rightarrow> False | b # _ \<Rightarrow> b = ucast MTU_PROBE_CONTEXT)"

definition decode_mtu_probe :: "bytes \<Rightarrow> masque_error + mtu_probe" where
  "decode_mtu_probe data =
    (if \<not> is_mtu_probe data \<or> length data < unat SAFE_MTU + 1
        \<or> length data > unat MAX_DISCOVERED_MTU + 1
     then Err InvalidMtuMessage
     else
       let probe = \<lparr>probe_token = range_of 1 17 data,
                    probe_sequence = u16_from_be_bytes (data ! 17) (data ! 18),
                    probe_size = u16_from_be_bytes (data ! 19) (data ! 20)\<rparr>
       in if probe_sequence probe = 0 \<or> unat (probe_size probe) \<noteq> length data - 1
            \<or> list_ex (\<lambda>b. b \<noteq> 0) (drop 21 data)
          then Err InvalidMtuMessage else Ok probe)"

definition encode_mtu_selection :: "mtu_token \<Rightarrow> u16 \<Rightarrow> bytes" where
  "encode_mtu_selection token mtu =
    copy_at 16 (u16_to_be_bytes mtu) (copy_at 0 token (replicate 18 0))"

definition decode_mtu_selection :: "bytes \<Rightarrow> mtu_token \<Rightarrow> masque_error + u16" where
  "decode_mtu_selection data token =
    (if length data \<noteq> 18 \<or> take 16 data \<noteq> token then Err InvalidMtuMessage
     else Ok (u16_from_be_bytes (data ! 16) (data ! 17)))"

subsection \<open>Address lists\<close>

text \<open>What the code relies on of a network of the \<open>ipnet\<close> crate: its prefix length is within the
  width, and \<open>new\<close> on its own address and length gives it back.\<close>

fun net_made :: "('n4, 'n6) ipnet \<Rightarrow> ('n4, 'n6) ip_net \<Rightarrow> bool" where
  "net_made api (NetV4 net) \<longleftrightarrow> unat (v4_prefix_len api net) \<le> 32
     \<and> v4_new api (v4_addr api net) (v4_prefix_len api net) = Some net"
| "net_made api (NetV6 net) \<longleftrightarrow> unat (v6_prefix_len api net) \<le> 128
     \<and> v6_new api (v6_addr api net) (v6_prefix_len api net) = Some net"

lemma decode_ip_v4 [simp]:
  "decode_ip 4 (ipv4_octets a @ p # rest) = Ok (V4 a, p, 5)"
proof -
  obtain w x y z where o: "ipv4_octets a = [w, x, y, z]"
    using length4 [of "ipv4_octets a"] by auto
  then show ?thesis using ipv4_octets_new [OF o] by (simp add: decode_ip_def)
qed

lemma decode_ip_v6 [simp]:
  "decode_ip 6 (ipv6_octets a @ p # rest) = Ok (V6 a, p, 17)"
  by (simp add: decode_ip_def nth_append)

lemma encode_address_Ok:
  assumes "encode_address api address = Ok v" and "net_made api (prefix_net address)"
  shows "decode_address api (v @ rest) = Ok (address, rest)" and "v \<noteq> []"
proof -
  let ?id = "unat (request_id address)"
  have id: "?id < 2 ^ 62"
  proof (rule ccontr)
    assume "\<not> ?id < 2 ^ 62"
    then show False using assms(1) encode_varint_into_Err
      by (simp add: encode_address_def not_less)
  qed
  obtain net where v: "v = varint_bytes ?id @ net"
    and d: "decode_entry api (request_id address) (net @ rest) = Ok (address, rest)"
    using assms encode_varint_into_Ok [OF id, of "replicate 8 0"]
    by (cases address; cases "prefix_net address")
      (auto simp: encode_address_def decode_entry_def decode_net_def split: if_splits)
  have "length v \<noteq> 0" by (simp add: v)
  then show "v \<noteq> []" by auto
  show "decode_address api (v @ rest) = Ok (address, rest)"
    using parse_varint_bytes [OF id, of "net @ rest"] d by (simp add: v decode_address_def)
qed

lemma encode_addresses_decode:
  "encode_addresses api addresses = Ok v \<Longrightarrow> list_all (\<lambda>a. net_made api (prefix_net a)) addresses \<Longrightarrow>
    decode_addresses api v = Ok addresses"
proof (induction addresses arbitrary: v)
  case Nil
  then show ?case by (simp add: decode_addresses.simps)
next
  case (Cons a addresses)
  then obtain x y where "encode_address api a = Ok x" "encode_addresses api addresses = Ok y"
    "v = x @ y" "net_made api (prefix_net a)" by auto
  with encode_address_Ok(1) [of api a x y] encode_address_Ok(2) [of api a x] Cons show ?case
    by (simp add: decode_addresses.simps [of api "x @ y"])
qed

subsection \<open>Routes\<close>

definition route_ok :: "route option \<Rightarrow> route \<Rightarrow> bool" where
  "route_ok previous r \<longleftrightarrow> same_address_family (route_start r) (route_end r)
     \<and> route_start r \<le> route_end r \<and> (\<forall>p. previous = Some p \<longrightarrow> compare_routes p r = Less)"

definition route_wire :: "route \<Rightarrow> bytes" where
  "route_wire r =
    (case (route_start r, route_end r) of
       (V4 a, V4 b) \<Rightarrow> [4] @ ipv4_octets a @ ipv4_octets b
     | (V6 a, V6 b) \<Rightarrow> [6] @ ipv6_octets a @ ipv6_octets b
     | _ \<Rightarrow> []) @ [route_protocol r]"

fun chained :: "route option \<Rightarrow> route list \<Rightarrow> bool" where
  "chained previous [] \<longleftrightarrow> True"
| "chained previous (r # rs) \<longleftrightarrow> route_ok previous r \<and> chained (Some r) rs"

lemma encode_routes_Ok:
  "encode_routes previous rs = Ok v \<longleftrightarrow> chained previous rs \<and> v = concat (map route_wire rs)"
proof (induction previous rs arbitrary: v rule: encode_routes.induct)
  case (2 previous r rs)
  show ?case
    by (cases "route_start r"; cases "route_end r")
      (auto simp: "2.IH" route_ok_def route_wire_def not_less split: option.splits)
qed auto

lemma decode_route_wire:
  assumes "same_address_family (route_start r) (route_end r)"
  shows "decode_route (route_wire r @ rest) = Ok (r, rest)"
proof (cases "route_start r")
  case (V4 a)
  then obtain b where b: "route_end r = V4 b" using assms by (cases "route_end r") auto
  obtain w x y z w' x' y' z' where o: "ipv4_octets a = [w, x, y, z]" "ipv4_octets b = [w', x', y', z']"
    using length4 [of "ipv4_octets a"] length4 [of "ipv4_octets b"] by auto
  show ?thesis using ipv4_octets_new [OF o(1)] ipv4_octets_new [OF o(2)] V4 b o
    by (cases r) (simp add: decode_route_def route_wire_def Let_def)
next
  case (V6 a)
  then obtain b where b: "route_end r = V6 b" using assms by (cases "route_end r") auto
  show ?thesis using V6 b
    by (cases r) (simp add: decode_route_def route_wire_def Let_def range_of_def nth_append)
qed

lemma decode_route_Ok:
  assumes "decode_route value = Ok (r, rest)" and "value \<noteq> []"
  shows "value = route_wire r @ rest" and "same_address_family (route_start r) (route_end r)"
proof -
  obtain version tail where v: "value = version # tail" using assms(2) by (cases "value") auto
  consider "version = 4" | "version = 6" | "version \<noteq> 4" "version \<noteq> 6" by blast
  then have "value = route_wire r @ rest \<and> same_address_family (route_start r) (route_end r)"
  proof cases
    case 1
    with assms(1) v have l: "9 \<le> length tail" by (auto simp: decode_route_def split: if_splits)
    then obtain a b c d e f g h p more where t: "tail = a # b # c # d # e # f # g # h # p # more"
      by (auto simp: numeral_eq_Suc Suc_le_length_iff)
    show ?thesis using assms(1) v 1 t by (auto simp: decode_route_def route_wire_def ipv4_new_octets)
  next
    case 2
    with assms(1) v have l: "33 \<le> length tail" by (auto simp: decode_route_def split: if_splits)
    have "drop 16 tail = range_of 16 32 tail @ drop 32 tail"
      using append_take_drop_id [of 16 "drop 16 tail"] by (simp add: range_of_def)
    moreover have "drop 32 tail = tail ! 32 # drop 33 tail"
      using Cons_nth_drop_Suc [of 32 tail] l by simp
    ultimately have t: "tail = take 16 tail @ range_of 16 32 tail @ tail ! 32 # drop 33 tail"
      by (metis append_take_drop_id)
    have r: "r = \<lparr>route_start = V6 (ipv6_from (take 16 tail)),
        route_end = V6 (ipv6_from (range_of 16 32 tail)), route_protocol = tail ! 32\<rparr>" "rest = drop 33 tail"
      using assms(1) v 2 l by (auto simp: decode_route_def Let_def)
    show ?thesis
      using l t unfolding r v 2 by (simp add: route_wire_def ipv6_octets_from)
  next
    case 3
    with assms(1) v show ?thesis by (simp add: decode_route_def)
  qed
  then show "value = route_wire r @ rest" and "same_address_family (route_start r) (route_end r)"
    by blast+
qed

text \<open>The first route of a well-formed advertisement is what one iteration decodes.\<close>

lemma chained_first:
  assumes "value \<noteq> []"
  shows "(\<exists>new. rs' = rs @ new \<and> chained previous new \<and> value = concat (map route_wire new)) \<longleftrightarrow>
    (\<exists>r rest. decode_route value = Ok (r, rest) \<and> route_ok previous r \<and>
      (\<exists>new. rs' = (rs @ [r]) @ new \<and> chained (Some r) new \<and> rest = concat (map route_wire new)))"
    (is "?L \<longleftrightarrow> ?R")
proof
  assume ?L
  then obtain new' where new: "rs' = rs @ new'" "chained previous new'" "value = concat (map route_wire new')"
    by blast
  with assms obtain r new where "new' = r # new" by (cases new') auto
  with new show ?R using decode_route_wire [of r "concat (map route_wire new)"]
    by (auto simp: route_ok_def)
next
  assume ?R
  then obtain r rest new where r: "decode_route value = Ok (r, rest)" "route_ok previous r"
    "rs' = rs @ r # new" "chained (Some r) new" "rest = concat (map route_wire new)"
    by auto
  then have "value = concat (map route_wire (r # new))"
    using decode_route_Ok(1) [OF r(1) assms] by simp
  moreover have "chained previous (r # new)" using r by simp
  ultimately show ?L using r(3) by blast
qed

lemma decode_routes_Ok:
  "decode_routes rs value = Ok rs' \<longleftrightarrow>
    (\<exists>new. rs' = rs @ new \<and> chained (if rs = [] then None else Some (last rs)) new
      \<and> value = concat (map route_wire new))"
proof (induction rs "value" rule: decode_routes.induct)
  case (1 rs "value")
  let ?prev = "if rs = [] then None else Some (last rs)"
  show ?case
  proof (cases "value = []")
    case True
    have "concat (map route_wire new) = [] \<Longrightarrow> new = []" for new by (cases new) (auto simp: route_wire_def)
    with True show ?thesis by (auto simp: decode_routes.simps)
  next
    case False
    note first = chained_first [OF False, of rs' rs ?prev]
    show ?thesis
    proof (cases "decode_route value")
      case (Inl e)
      with False show ?thesis unfolding first by (simp add: decode_routes.simps [of rs "value"])
    next
      case (Inr x)
      obtain r rest where x: "x = (r, rest)" by fastforce
      have fam: "same_address_family (route_start r) (route_end r)"
        using decode_route_Ok(2) Inr x False by blast
      let ?bad = "route_end r < route_start r" and ?out = "rs \<noteq> [] \<and> compare_routes (last rs) r \<noteq> Less"
      have ok: "route_ok ?prev r \<longleftrightarrow> \<not> ?bad \<and> \<not> ?out" using fam by (auto simp: route_ok_def)
      then have step: "decode_routes rs value = Ok rs' \<longleftrightarrow>
          route_ok ?prev r \<and> decode_routes (rs @ [r]) rest = Ok rs'"
        using False Inr x by (simp add: decode_routes.simps [of rs "value"])
      show ?thesis unfolding first step
        using "1.IH" [OF False Inr x [symmetric]] ok Inr x by auto
    qed
  qed
qed

lemma compare_routes_Less:
  "compare_routes p r = Less \<longleftrightarrow>
    (case (route_start p, route_start r) of
       (V4 _, V6 _) \<Rightarrow> True
     | (V6 _, V4 _) \<Rightarrow> False
     | _ \<Rightarrow> route_protocol p < route_protocol r
            \<or> route_protocol p = route_protocol r \<and> route_end p < route_start r)"
  by (auto simp: compare_routes_def cmp_def split: ip_addr.splits)

text \<open>On well-formed ranges, being in order is transitive.\<close>

lemma compare_routes_trans:
  assumes "compare_routes p q = Less" "compare_routes q r = Less" "route_start q \<le> route_end q"
  shows "compare_routes p r = Less"
  using assms by (auto simp: compare_routes_Less split: ip_addr.splits dest: less_trans)

lemma chained_all:
  "chained (Some p) rs \<Longrightarrow> route_start p \<le> route_end p \<Longrightarrow> \<forall>r \<in> set rs. compare_routes p r = Less"
proof (induction rs arbitrary: p)
  case (Cons r rs)
  then have p: "compare_routes p r = Less" and r: "route_start r \<le> route_end r"
    and c: "chained (Some r) rs" by (auto simp: route_ok_def)
  from Cons.IH [OF c r] compare_routes_trans [OF p _ r] p show ?case by simp
qed simp

lemma chained_nth:
  "chained previous rs \<Longrightarrow> i < j \<Longrightarrow> j < length rs \<Longrightarrow> compare_routes (rs ! i) (rs ! j) = Less"
proof (induction rs arbitrary: previous i j)
  case (Cons r rs)
  then have c: "chained (Some r) rs" and r: "route_start r \<le> route_end r" by (auto simp: route_ok_def)
  obtain k where j: "j = Suc k" "k < length rs" using Cons.prems by (cases j) auto
  show ?case
  proof (cases i)
    case 0
    then show ?thesis using chained_all [OF c r] j by simp
  next
    case (Suc n)
    then show ?thesis using Cons.IH [OF c, of n k] Cons.prems j by simp
  qed
qed simp

lemma route_ok_family: "chained previous rs \<Longrightarrow> r \<in> set rs \<Longrightarrow> same_address_family (route_start r) (route_end r)"
  by (induction rs arbitrary: previous) (auto simp: route_ok_def)

subsection \<open>The wire format of probes\<close>

definition probe_wire :: "mtu_probe \<Rightarrow> bytes" where
  "probe_wire probe = [1] @ probe_token probe @ u16_to_be_bytes (probe_sequence probe)
     @ u16_to_be_bytes (probe_size probe) @ replicate (unat (probe_size probe) - 20) 0"

lemma encode_mtu_probe_Ok:
  assumes "length (probe_token probe) = MTU_TOKEN_SIZE"
  shows "encode_mtu_probe probe = Ok data \<longleftrightarrow>
    1100 \<le> unat (probe_size probe) \<and> unat (probe_size probe) \<le> 1400 \<and> probe_sequence probe \<noteq> 0
    \<and> data = probe_wire probe"
proof -
  let ?n = "unat (probe_size probe)" and ?t = "probe_token probe"
  let ?s = "u16_to_be_bytes (probe_sequence probe)" and ?z = "u16_to_be_bytes (probe_size probe)"
  have range: "SAFE_MTU \<le> probe_size probe \<and> probe_size probe \<le> MAX_DISCOVERED_MTU \<longleftrightarrow> 1100 \<le> ?n \<and> ?n \<le> 1400"
    by (simp add: word_le_nat_alt SAFE_MTU_def MAX_DISCOVERED_MTU_def)
  have "copy_at 19 ?z (copy_at 17 ?s (copy_at 1 ?t ((replicate (?n + 1) 0)[0 := 1]))) = probe_wire probe"
    if "1100 \<le> ?n"
  proof -
    let ?pad = "replicate (?n - 20) 0 :: bytes"
    have n: "?n + 1 = 1 + (16 + (2 + (2 + (?n - 20))))" using that by simp
    have "replicate (?n + 1) (0 :: u8) = replicate 1 0 @ replicate 16 0 @ replicate 2 0 @ replicate 2 0 @ ?pad"
      by (subst n) (simp only: replicate_add)
    then have h: "(replicate (?n + 1) 0)[0 := 1] = [1] @ replicate 16 0 @ replicate 2 0 @ replicate 2 0 @ ?pad"
      by simp
    have "copy_at 1 ?t ((replicate (?n + 1) 0)[0 := 1]) = [1] @ ?t @ replicate 2 0 @ replicate 2 0 @ ?pad"
      unfolding h using assms by (intro copy_at_append) (simp_all add: MTU_TOKEN_SIZE_def)
    moreover have "copy_at 17 ?s (([1] @ ?t) @ replicate 2 0 @ replicate 2 0 @ ?pad) = ([1] @ ?t) @ ?s @ replicate 2 0 @ ?pad"
      using assms by (intro copy_at_append) (simp_all add: MTU_TOKEN_SIZE_def)
    moreover have "copy_at 19 ?z (([1] @ ?t @ ?s) @ replicate 2 0 @ ?pad) = ([1] @ ?t @ ?s) @ ?z @ ?pad"
      using assms by (intro copy_at_append) (simp_all add: MTU_TOKEN_SIZE_def)
    ultimately show ?thesis by (simp only: append_assoc probe_wire_def)
  qed
  then show ?thesis using range
    by (auto simp: encode_mtu_probe_def Let_def MTU_PROBE_CONTEXT_def)
qed

lemma decode_probe_wire:
  assumes "length (probe_token probe) = MTU_TOKEN_SIZE" "1100 \<le> unat (probe_size probe)"
    "unat (probe_size probe) \<le> 1400" "probe_sequence probe \<noteq> 0"
  shows "decode_mtu_probe (probe_wire probe) = Ok probe"
proof -
  have i: "probe_wire probe ! 17 = byte_of (unat (probe_sequence probe) div 256)"
    "probe_wire probe ! 18 = byte_of (unat (probe_sequence probe))"
    "probe_wire probe ! 19 = byte_of (unat (probe_size probe) div 256)"
    "probe_wire probe ! 20 = byte_of (unat (probe_size probe))"
    using assms(1) by (simp_all add: probe_wire_def MTU_TOKEN_SIZE_def nth_append be_simps)
  have "length (probe_wire probe) = unat (probe_size probe) + 1"
    using assms(1,2) by (simp add: probe_wire_def MTU_TOKEN_SIZE_def)
  moreover have "range_of 1 17 (probe_wire probe) = probe_token probe"
    "drop 21 (probe_wire probe) = replicate (unat (probe_size probe) - 20) 0"
    using assms(1) by (simp_all add: probe_wire_def MTU_TOKEN_SIZE_def range_of_def)
  moreover have "is_mtu_probe (probe_wire probe)"
    by (simp add: is_mtu_probe_def probe_wire_def MTU_PROBE_CONTEXT_def)
  ultimately show ?thesis
    using assms i
    by (cases probe)
      (simp add: decode_mtu_probe_def Let_def SAFE_MTU_def MAX_DISCOVERED_MTU_def be_simps list_ex_iff)
qed

lemma decode_mtu_probe_Ok:
  assumes "decode_mtu_probe data = Ok probe"
  shows "1100 \<le> unat (probe_size probe) \<and> unat (probe_size probe) \<le> 1400
    \<and> probe_sequence probe \<noteq> 0 \<and> data = probe_wire probe"
proof -
  from assms have d: "1101 \<le> length data" "length data \<le> 1401" "data ! 0 = 1"
    and p: "probe = \<lparr>probe_token = range_of 1 17 data,
                    probe_sequence = u16_from_be_bytes (data ! 17) (data ! 18),
                    probe_size = u16_from_be_bytes (data ! 19) (data ! 20)\<rparr>"
    and n: "probe_sequence probe \<noteq> 0" "unat (probe_size probe) = length data - 1"
    and z: "\<forall>b \<in> set (drop 21 data). b = 0"
    by (auto simp: decode_mtu_probe_def Let_def SAFE_MTU_def MAX_DISCOVERED_MTU_def list_ex_iff
          is_mtu_probe_def MTU_PROBE_CONTEXT_def split: if_splits list.splits)
  have pad: "drop 21 data = replicate (length data - 21) 0"
    using z by (intro replicate_eqI) auto
  have "take 1 data = [1]" using d by (cases data) auto
  moreover have "range_of 17 19 data = [data ! 17, data ! 18]" "range_of 19 21 data = [data ! 19, data ! 20]"
    using range_of_2 [of 17 data] range_of_2 [of 19 data] d(1) by simp_all
  ultimately have "data = [1] @ range_of 1 17 data @ [data ! 17, data ! 18] @ [data ! 19, data ! 20]
      @ replicate (length data - 21) 0"
    using range_of_split [of 1 17 data] range_of_split [of 17 19 data]
      range_of_split [of 19 21 data] append_take_drop_id [of 1 data] by (simp only: pad)
  moreover have "u16_to_be_bytes (u16_from_be_bytes a b) = [a, b]" for a b
    by (simp add: be_simps byte_of_low)
  moreover have "length data - 1 - 20 = length data - 21" by simp
  ultimately have "data = probe_wire probe"
    unfolding probe_wire_def n(2) by (simp only: p mtu_probe.simps)
  moreover have "1100 \<le> unat (probe_size probe)" "unat (probe_size probe) \<le> 1400"
    using d(1,2) n(2) by linarith+
  ultimately show ?thesis using n(1) by blast
qed

subsection \<open>Properties\<close>

text \<open>an ADDRESS_REQUEST that \<open>encode_address_request\<close> produces is decoded to the same
  request, for every network type whose values \<open>new\<close> rebuilds from their address and length.\<close>

theorem address_request_roundtrip:
  assumes "encode_address_request api addresses = Ok value"
    and "list_all (\<lambda>a. net_made api (prefix_net a)) addresses"
  shows "decode_address_request api value = Ok addresses \<and> decode_address_assign api value = Ok addresses"
  using assms encode_addresses_decode [of api addresses "value"]
  by (auto simp: encode_address_request_def decode_address_request_def decode_address_assign_def
        split: if_splits)

text \<open>Networks as pairs of an address and a prefix length.\<close>

definition pair_net :: "(u32 \<times> u8, u128 \<times> u8) ipnet" where
  "pair_net =
    \<lparr>v4_new = \<lambda>a p. if unat p \<le> 32 then Some (a, p) else None, v4_addr = fst,
     v4_network = \<lambda>(a, p). push_bit (32 - unat p) (drop_bit (32 - unat p) a), v4_prefix_len = snd,
     v6_new = \<lambda>a p. if unat p \<le> 128 then Some (a, p) else None, v6_addr = fst,
     v6_network = \<lambda>(a, p). push_bit (128 - unat p) (drop_bit (128 - unat p) a), v6_prefix_len = snd\<rparr>"

theorem address_request_roundtrip_witness:
  "decode_address_request pair_net [7, 4, 10, 0, 0, 0, 8] =
      Ok [\<lparr>request_id = 7, prefix_net = NetV4 (0x0a000000, 8)\<rparr>]
    \<and> decode_address_assign pair_net [7, 4, 10, 0, 0, 0, 8] =
      Ok [\<lparr>request_id = 7, prefix_net = NetV4 (0x0a000000, 8)\<rparr>]"
proof -
  have "encode_address_request pair_net [\<lparr>request_id = 7, prefix_net = NetV4 (0x0a000000, 8)\<rparr>]
      = Ok [7, 4, 10, 0, 0, 0, 8]"
    by code_simp
  from address_request_roundtrip [OF this] show ?thesis by (simp add: pair_net_def)
qed

text \<open>C38: the route advertisement codec is a bijection: the bytes that decode to a list of routes
  are exactly the bytes the encoder produces for it.\<close>

theorem route_codec_exact:
  "decode_route_advertisement value = Ok routes \<longleftrightarrow> encode_route_advertisement routes = Ok value"
  by (auto simp: decode_route_advertisement_def encode_route_advertisement_def decode_routes_Ok
        encode_routes_Ok)

text \<open>the ranges of a decoded route advertisement are ordered and do not overlap: of two
  routes with the same protocol, the earlier one ends below the start of the later one.\<close>

theorem decoded_routes_disjoint:
  assumes "decode_route_advertisement value = Ok routes" and "i < j" and "j < length routes"
    and "route_protocol (routes ! i) = route_protocol (routes ! j)"
  shows "route_end (routes ! i) < route_start (routes ! j)"
proof -
  from assms(1) have c: "chained None routes"
    by (auto simp: decode_route_advertisement_def decode_routes_Ok)
  have "compare_routes (routes ! i) (routes ! j) = Less" using chained_nth [OF c assms(2,3)] .
  moreover have "same_address_family (route_start (routes ! i)) (route_end (routes ! i))"
    using route_ok_family [OF c] assms(2,3) by simp
  ultimately show ?thesis
    using assms(4) by (cases "route_end (routes ! i)") (auto simp: compare_routes_Less split: ip_addr.splits)
qed

theorem decoded_routes_disjoint_witness:
  "let routes = [\<lparr>route_start = V4 0x0a000000, route_end = V4 0x0a0000ff, route_protocol = 6\<rparr>,
        \<lparr>route_start = V4 0x0b000000, route_end = V4 0x0b000001, route_protocol = 6\<rparr>]
   in decode_route_advertisement
        [4, 10, 0, 0, 0, 10, 0, 0, 255, 6, 4, 11, 0, 0, 0, 11, 0, 0, 1, 6] = Ok routes
      \<and> route_end (routes ! 0) < route_start (routes ! 1)"
  (is "let routes = ?r in ?P routes")
proof -
  have "decode_route_advertisement [4, 10, 0, 0, 0, 10, 0, 0, 255, 6, 4, 11, 0, 0, 0, 11, 0, 0, 1, 6] = Ok ?r"
    by code_simp
  with decoded_routes_disjoint [OF this, of 0 1] show ?thesis unfolding Let_def by simp
qed

text \<open>an MTU probe occupies exactly the datagram size it announces, and the probe codec is
  exact in both directions: \<open>decode_mtu_probe\<close> accepts only the bytes \<open>encode_mtu_probe\<close>
  produces (context byte, sizes within the discovery range, zero padding).\<close>

theorem mtu_probe_exact:
  assumes "length (probe_token probe) = MTU_TOKEN_SIZE"
  shows "encode_mtu_probe probe = Ok data \<longleftrightarrow> decode_mtu_probe data = Ok probe"
proof
  assume "encode_mtu_probe probe = Ok data"
  then have e: "1100 \<le> unat (probe_size probe)" "unat (probe_size probe) \<le> 1400"
      "probe_sequence probe \<noteq> 0" "data = probe_wire probe"
    using assms by (simp_all add: encode_mtu_probe_Ok)
  then show "decode_mtu_probe data = Ok probe"
    using assms by (simp add: decode_probe_wire)
next
  assume "decode_mtu_probe data = Ok probe"
  from decode_mtu_probe_Ok [OF this] assms show "encode_mtu_probe probe = Ok data"
    by (simp add: encode_mtu_probe_Ok)
qed

theorem mtu_probe_exact_witness:
  "let probe = \<lparr>probe_token = replicate 16 7, probe_sequence = 3, probe_size = 1200\<rparr>
   in encode_mtu_probe probe = Ok (probe_wire probe) \<longleftrightarrow> decode_mtu_probe (probe_wire probe) = Ok probe"
  unfolding Let_def by (rule mtu_probe_exact) (simp add: MTU_TOKEN_SIZE_def)

text \<open>an MTU selection is read back only by the holder of its token; any other token or
  length is rejected.\<close>

theorem mtu_selection_bound_to_token:
  assumes "length token = MTU_TOKEN_SIZE"
  shows "decode_mtu_selection (encode_mtu_selection token mtu) token' =
    (if token' = token then Ok mtu else Err InvalidMtuMessage)"
  using assms
  by (auto simp: encode_mtu_selection_def decode_mtu_selection_def copy_at_def MTU_TOKEN_SIZE_def
        nth_append be_simps)

theorem mtu_selection_bound_to_token_witness:
  "decode_mtu_selection (encode_mtu_selection (replicate 16 7) 1300) (replicate 16 8) = Err InvalidMtuMessage"
  using mtu_selection_bound_to_token [of "replicate 16 7" 1300 "replicate 16 8"]
  by (simp add: MTU_TOKEN_SIZE_def)

end
