(* ===== verification/Wire_Mtu.thy ===== *)
theory Wire_Mtu
  imports Wire_Ip
begin

text \<open>
  Datagram budgets, IPv4 fragmentation, ICMP \<^emph>\<open>fragmentation needed\<close> responses and the
  feedback policy of \<open>porta-wire/src/mtu.rs\<close>. \<open>n & !7\<close> on a \<open>usize\<close> is \<open>n div 8 * 8\<close>,
  \<open>(n + 3) & !3\<close> is \<open>(n + 3) div 4 * 4\<close>. The loops of the source are recursive functions over
  their loop variables; the buffers they fill are lists updated in place.
\<close>

definition MIN_IPV4_MTU :: nat where "MIN_IPV4_MTU = 68"
definition MAX_FEEDBACK_FLOWS :: nat where "MAX_FEEDBACK_FLOWS = 128"
definition FLOW_IDLE_TIMEOUT :: duration where "FLOW_IDLE_TIMEOUT = secs 60"
definition ICMP_INTERVAL :: duration where "ICMP_INTERVAL = millis 100"
definition MIN_FEEDBACK_REQUESTS :: u8 where "MIN_FEEDBACK_REQUESTS = 3"

datatype mtu_error = InvalidPacket | FragmentationNeeded | IcmpSuppressed | InvalidMtu

record icmp_context =
  gateway :: ipv4_addr
  leased_address :: ipv4_addr
  prefix_len :: u8

subsection \<open>Datagram budgets\<close>

definition ip_datagram_capacity :: "nat option \<Rightarrow> u64 \<Rightarrow> nat option" where
  "ip_datagram_capacity quic_capacity stream_id =
    (let quarter = unat stream_id div 4;
         stream_id_length =
           (if quarter \<le> 63 then 1 else if quarter \<le> 16383 then 2
            else if quarter \<le> 1073741823 then 4 else 8)
     in map_option (\<lambda>capacity. capacity - (stream_id_length + 1)) quic_capacity)"

record datagram_mtu =
  mtu_limit :: nat

text \<open>\<open>None\<close> is the panic of the assertion.\<close>

definition datagram_mtu_new :: "u16 \<Rightarrow> datagram_mtu option" where
  "datagram_mtu_new ceiling =
    (if unat ceiling \<ge> MIN_IPV4_MTU then Some \<lparr>mtu_limit = unat ceiling\<rparr> else None)"

definition datagram_mtu_update :: "datagram_mtu \<Rightarrow> nat \<Rightarrow> (mtu_error + bool) \<times> datagram_mtu" where
  "datagram_mtu_update m ip_capacity =
    (if ip_capacity < MIN_IPV4_MTU then (Err InvalidMtu, m)
     else
       let limit = min (mtu_limit m) ip_capacity
       in (Ok (limit \<noteq> mtu_limit m), m\<lparr>mtu_limit := limit\<rparr>))"

subsection \<open>The feedback policy\<close>

record feedback_decision =
  send_icmp :: bool
  use_capsule :: bool

definition default_decision :: feedback_decision where
  "default_decision = \<lparr>send_icmp = False, use_capsule = False\<rparr>"

record flow_feedback =
  fb_flow :: flow_key
  fb_mtu :: nat
  last_seen :: instant
  first_feedback :: "instant option"
  feedback_requests :: u8

definition flow_feedback_new :: "flow_key \<Rightarrow> nat \<Rightarrow> instant \<Rightarrow> flow_feedback" where
  "flow_feedback_new flow mtu now =
    \<lparr>fb_flow = flow, fb_mtu = mtu, last_seen = now, first_feedback = None, feedback_requests = 0\<rparr>"

record feedback_policy =
  policy_flows :: "flow_feedback list"
  last_feedback :: "instant option"

definition new_policy :: feedback_policy where
  "new_policy = \<lparr>policy_flows = [], last_feedback = None\<rparr>"

text \<open>The index of \<open>iter().enumerate().min_by_key(key)\<close>, the first of the minimal elements.\<close>

fun min_index :: "('a \<Rightarrow> nat) \<Rightarrow> 'a list \<Rightarrow> nat" where
  "min_index key (x # y # xs) =
    (let i = min_index key (y # xs) in if key x \<le> key ((y # xs) ! i) then 0 else Suc i)"
| "min_index key _ = 0"

text \<open>Finding or making the entry of a flow: the flow list and the index.\<close>

definition flow_entry :: "flow_feedback list \<Rightarrow> flow_key \<Rightarrow> nat \<Rightarrow> instant \<Rightarrow> flow_feedback list \<times> nat" where
  "flow_entry flows flow effective_mtu now =
    (case position (\<lambda>s. fb_flow s = flow) flows of
       Some index \<Rightarrow> (flows, index)
     | None \<Rightarrow>
         let flows =
           (if length flows = MAX_FEEDBACK_FLOWS then remove_nth (min_index last_seen flows) flows
            else flows);
             flows = flows @ [flow_feedback_new flow effective_mtu now]
         in (flows, length flows - 1))"

definition grace_of :: "duration \<Rightarrow> duration" where
  "grace_of rtt = max (secs 2) (min (secs 10) (rtt * 4))"

text \<open>The three outcomes for the entry \<open>state\<close> of the packet's flow.\<close>

definition feedback_decide ::
  "feedback_policy \<Rightarrow> flow_feedback list \<Rightarrow> nat \<Rightarrow> flow_feedback \<Rightarrow> nat \<Rightarrow> nat \<Rightarrow> instant \<Rightarrow> duration
    \<Rightarrow> feedback_decision \<times> feedback_policy" where
  "feedback_decide policy flows index state packet_len capsule_ceiling now rtt =
    (let grace = grace_of rtt
     in if packet_len \<le> capsule_ceiling \<and> feedback_requests state \<ge> MIN_FEEDBACK_REQUESTS
          \<and> (case first_feedback state of None \<Rightarrow> False | Some t \<Rightarrow> now - t \<ge> grace)
        then (\<lparr>send_icmp = False, use_capsule = True\<rparr>, policy\<lparr>policy_flows := flows[index := state]\<rparr>)
        else if (case last_feedback policy of None \<Rightarrow> False | Some t \<Rightarrow> now - t < ICMP_INTERVAL)
        then (default_decision, policy\<lparr>policy_flows := flows[index := state]\<rparr>)
        else
          let state = state
            \<lparr>first_feedback := Some (case first_feedback state of None \<Rightarrow> now | Some t \<Rightarrow> t),
             feedback_requests := min (feedback_requests state + 1) MIN_FEEDBACK_REQUESTS\<rparr>
          in (\<lparr>send_icmp = True, use_capsule = False\<rparr>,
              \<lparr>policy_flows = flows[index := state], last_feedback = Some now\<rparr>))"

definition on_oversized ::
  "feedback_policy \<Rightarrow> bytes \<Rightarrow> nat \<Rightarrow> nat \<Rightarrow> instant \<Rightarrow> duration \<Rightarrow> feedback_decision \<times> feedback_policy" where
  "on_oversized policy packet effective_mtu capsule_ceiling now rtt =
    (if length packet \<le> effective_mtu \<or> effective_mtu < MIN_IPV4_MTU then (default_decision, policy)
     else
       let flows = filter (\<lambda>s. now - last_seen s < FLOW_IDLE_TIMEOUT) (policy_flows policy);
           flow = meta_flow (classify_ipv4 packet);
           (flows, index) = flow_entry flows flow effective_mtu now;
           state = flows ! index;
           state = (if effective_mtu < fb_mtu state then flow_feedback_new flow effective_mtu now else state);
           state = state\<lparr>last_seen := now\<rparr>
       in feedback_decide policy flows index state (length packet) capsule_ceiling now rtt)"

subsection \<open>Fragmentation\<close>

text \<open>\<open>while copied.len() % 4 != index % 4 { copied.push(1) }\<close>\<close>

lemma pad_step:
  assumes "n mod 4 \<noteq> i mod (4 :: nat)"
  shows "(i + 3 * (n + 1)) mod 4 < (i + 3 * n) mod 4"
proof -
  have "(x + 3) mod 4 < x mod 4" if "x mod 4 \<noteq> 0" for x :: nat using that by presburger
  moreover have "(i + 3 * n) mod 4 \<noteq> 0"
  proof
    assume "(i + 3 * n) mod 4 = 0"
    then have "(i + 3 * n + n) mod 4 = n mod 4"
      using mod_add_left_eq [of "i + 3 * n" 4 n] by simp
    with assms show False by simp
  qed
  ultimately have "(i + 3 * n + 3) mod 4 < (i + 3 * n) mod 4" by blast
  then show ?thesis by (simp add: algebra_simps)
qed

function pad_nops :: "nat \<Rightarrow> bytes \<Rightarrow> bytes" where
  "pad_nops index copied =
    (if length copied mod 4 \<noteq> index mod 4 then pad_nops index (copied @ [1]) else copied)"
  by pat_completeness auto
termination
proof (relation "measure (\<lambda>(index, copied). (index + 3 * length copied) mod 4)")
  fix index :: nat and copied :: bytes
  assume "length copied mod 4 \<noteq> index mod 4"
  then have "(index + 3 * (length copied + 1)) mod 4 < (index + 3 * length copied) mod 4"
    by (rule pad_step)
  then show "((index, copied @ [1]), index, copied) \<in> measure (\<lambda>(index, copied). (index + 3 * length copied) mod 4)"
    by simp
qed simp

declare pad_nops.simps [simp del]

function copied_options_loop :: "bytes \<Rightarrow> nat \<Rightarrow> bytes \<Rightarrow> mtu_error + bytes" where
  "copied_options_loop options index copied =
    (if index < length options then
       if options ! index = 0 then
         if list_ex (\<lambda>b. b \<noteq> 0) (drop index options) then Err InvalidPacket else Ok copied
       else if options ! index = 1 then copied_options_loop options (index + 1) copied
       else if index + 1 < length options then
         (let kind = options ! index; len = unat (options ! (index + 1))
          in if len < 2 \<or> index + len > length options then Err InvalidPacket
             else copied_options_loop options (index + len)
               (if kind AND 0x80 \<noteq> 0
                then pad_nops index copied @ range_of index (index + len) options
                else copied))
       else Err InvalidPacket
     else Ok copied)"
  by pat_completeness auto
termination
  by (relation "measure (\<lambda>(options, index, _). length options - index)") auto

declare copied_options_loop.simps [simp del]

definition copied_ipv4_options :: "bytes \<Rightarrow> mtu_error + bytes" where
  "copied_ipv4_options options =
    rbind (copied_options_loop options 0 []) (\<lambda>copied.
      Ok (resize ((length copied + 3) div 4 * 4) 0 copied))"

text \<open>The bytes of one fragment before its checksum is set: the body of the loop from the zeroed
  buffer to the copy of the payload.\<close>

definition build_fragment :: "bytes \<Rightarrow> bytes \<Rightarrow> u16 \<Rightarrow> bytes \<Rightarrow> bytes" where
  "build_fragment packet options new_flags chunk =
    (let header_len = 20 + length options;
         fragment = replicate (header_len + length chunk) 0;
         fragment = copy_at 0 (take 20 packet) fragment;
         fragment = copy_at 20 options fragment;
         fragment = fragment[0 := 0x40 OR byte_of (header_len div 4)];
         fragment = copy_at 2 (u16_to_be_bytes (u16_of (length fragment))) fragment;
         fragment = copy_at 6 (u16_to_be_bytes new_flags) fragment
     in copy_at header_len chunk fragment)"

function fragment_loop ::
  "bytes \<Rightarrow> nat \<Rightarrow> u16 \<Rightarrow> bytes \<Rightarrow> bytes \<Rightarrow> bytes \<Rightarrow> nat \<Rightarrow> nat \<Rightarrow> mtu_error + bytes list" where
  "fragment_loop packet mtu flags own_options copied_options payload consumed absolute_offset =
    (if consumed < length payload then
       let options = (if absolute_offset = 0 then own_options else copied_options);
           header_len = 20 + length options
       in if mtu < header_len + 8 then Err InvalidMtu
       else
         let remaining = length payload - consumed;
             len = (if remaining > mtu - header_len then (mtu - header_len) div 8 * 8 else remaining);
             new_flags = u16_of (absolute_offset div 8);
             new_flags =
               (if consumed + len < length payload \<or> flags AND 0x2000 \<noteq> 0
                then new_flags OR 0x2000 else new_flags);
             fragment = build_fragment packet options new_flags (range_of consumed (consumed + len) payload)
         in (case set_ipv4_header_checksum fragment of
               Err _ \<Rightarrow> Err InvalidPacket
             | Ok fragment \<Rightarrow>
                 rbind (fragment_loop packet mtu flags own_options copied_options payload
                          (consumed + len) (absolute_offset + len))
                   (\<lambda>fragments. Ok (fragment # fragments)))
     else Ok [])"
  by pat_completeness auto
termination
  by (relation "measure (\<lambda>(_, _, _, _, _, payload, consumed, _). length payload - consumed)")
    (auto simp: div_greater_zero_iff)

declare fragment_loop.simps [simp del]

definition fragment_ipv4 :: "bytes \<Rightarrow> nat \<Rightarrow> mtu_error + bytes list" where
  "fragment_ipv4 packet mtu =
    (if \<not> (MIN_IPV4_MTU \<le> mtu \<and> mtu \<le> 65535) then Err InvalidMtu
     else rbind (map_err (\<lambda>_. InvalidPacket) (parse_ipv4 packet)) (\<lambda>info.
       if internet_checksum (take (header_length info) packet) \<noteq> 0 then Err InvalidPacket
       else
         let flags = u16_from_be_bytes (packet ! 6) (packet ! 7)
         in if flags AND 0x8000 \<noteq> 0 then Err InvalidPacket
         else if length packet \<le> mtu then Ok [packet]
         else if flags AND 0x4000 \<noteq> 0 then Err FragmentationNeeded
         else
           let own_options = range_of 20 (header_length info) packet
           in rbind (copied_ipv4_options own_options) (\<lambda>copied_options.
                let payload = drop (header_length info) packet;
                    absolute_offset = unat (flags AND 0x1fff) * 8
                in if (flags AND 0x2000 \<noteq> 0 \<and> length payload mod 8 \<noteq> 0)
                     \<or> (flags AND 0x3fff \<noteq> 0 \<and> payload = [])
                     \<or> 20 + length copied_options + absolute_offset + length payload > 65535
                   then Err InvalidPacket
                   else fragment_loop packet mtu flags own_options copied_options payload 0 absolute_offset)))"

subsection \<open>ICMP responses\<close>

definition unicast :: "ipv4_addr \<Rightarrow> bool" where
  "unicast a = (let first = ipv4_octets a ! 0 in first \<noteq> 0 \<and> first \<noteq> 127 \<and> first < 224)"

definition subnet_broadcast :: "ipv4_addr \<Rightarrow> icmp_context \<Rightarrow> bool" where
  "subnet_broadcast a context' =
    (if prefix_len context' \<ge> 31 then False
     else
       let leased = leased_address context';
           host_mask = drop_bit (unat (prefix_len context')) (- 1)
       in a AND NOT host_mask = leased AND NOT host_mask \<and> a AND host_mask = host_mask)"

text \<open>The response before its header checksum is set: from the zeroed buffer to the ICMP checksum.\<close>

definition build_icmp :: "ipv4_addr \<Rightarrow> ipv4_addr \<Rightarrow> nat \<Rightarrow> u16 \<Rightarrow> bytes \<Rightarrow> bytes" where
  "build_icmp gw source mtu identification quoted =
    (let response = replicate (28 + length quoted) 0;
         response = response[0 := 0x45];
         response = copy_at 2 (u16_to_be_bytes (u16_of (length response))) response;
         response = copy_at 4 (u16_to_be_bytes identification) response;
         response = response[8 := 64, 9 := 1];
         response = copy_at 12 (ipv4_octets gw) response;
         response = copy_at 16 (ipv4_octets source) response;
         response = response[20 := 3, 21 := 4];
         response = copy_at 26 (u16_to_be_bytes (u16_of mtu)) response;
         response = copy_at 28 quoted response;
         icmp_checksum = u16_to_be_bytes (internet_checksum (drop 20 response))
     in copy_at 22 icmp_checksum response)"

definition icmp_fragmentation_needed ::
  "bytes \<Rightarrow> icmp_context \<Rightarrow> nat \<Rightarrow> u16 \<Rightarrow> mtu_error + bytes" where
  "icmp_fragmentation_needed packet ctx mtu identification =
    (if \<not> (MIN_IPV4_MTU \<le> mtu \<and> mtu \<le> 65535) then Err InvalidMtu
     else if prefix_len ctx > 32 then Err InvalidPacket
     else rbind (map_err (\<lambda>_. InvalidPacket) (parse_ipv4 packet)) (\<lambda>info.
       if internet_checksum (take (header_length info) packet) \<noteq> 0 then Err InvalidPacket
       else
         let flags = u16_from_be_bytes (packet ! 6) (packet ! 7)
         in if flags AND 0x8000 \<noteq> 0 then Err InvalidPacket
         else if length packet \<le> mtu \<or> flags AND 0x1fff \<noteq> 0 \<or> flags AND 0x4000 = 0
             \<or> \<not> unicast (gateway ctx) \<or> \<not> unicast (info_source info) \<or> \<not> unicast (info_destination info)
             \<or> subnet_broadcast (info_source info) ctx \<or> subnet_broadcast (info_destination info) ctx
         then Err IcmpSuppressed
         else if packet ! 9 = 1 \<and>
             (length packet - header_length info < 8
              \<or> packet ! header_length info \<notin> {0, 8, 9, 10, 13, 14, 15, 16, 17, 18, 42, 43})
         then Err IcmpSuppressed
         else
           let quote_length = min (length packet) (header_length info + 8)
           in map_err (\<lambda>_. InvalidPacket)
                (set_ipv4_header_checksum
                  (build_icmp (gateway ctx) (info_source info) mtu identification
                    (take quote_length packet)))))"

subsection \<open>Copied options\<close>

lemma pad_nops_length:
  "length copied \<le> index \<Longrightarrow>
    length (pad_nops index copied) \<le> index \<and> length (pad_nops index copied) mod 4 = index mod 4"
proof (induction index copied rule: pad_nops.induct)
  case (1 index copied)
  show ?case
  proof (cases "length copied mod 4 = index mod 4")
    case True
    with "1.prems" show ?thesis by (simp add: pad_nops.simps [of index copied])
  next
    case False
    then have "length copied \<noteq> index" by auto
    with "1.prems" "1.IH" [OF False] False show ?thesis by (simp add: pad_nops.simps [of index copied])
  qed
qed

lemma copied_loop_length:
  "copied_options_loop options index copied = Ok c \<Longrightarrow> length copied \<le> index \<Longrightarrow>
    index \<le> length options \<Longrightarrow> length c \<le> length options"
proof (induction options index copied rule: copied_options_loop.induct)
  case (1 options index copied)
  let ?len = "unat (options ! (index + 1))"
  consider "\<not> index < length options" | "index < length options" "options ! index = 0"
    | "index < length options" "options ! index = 1"
    | "index < length options" "options ! index \<noteq> 0" "options ! index \<noteq> 1" by blast
  then show ?case
  proof cases
    case 4
    then have i: "index + 1 < length options" "\<not> (?len < 2 \<or> index + ?len > length options)"
      using "1.prems"(1) by (auto simp: copied_options_loop.simps [of options index copied] Let_def split: if_splits)
    let ?c = "if options ! index AND 0x80 \<noteq> 0 then pad_nops index copied @ range_of index (index + ?len) options
      else copied"
    have "copied_options_loop options (index + ?len) ?c = Ok c"
      using 4 i "1.prems"(1)
      by (auto simp: copied_options_loop.simps [of options index copied] Let_def split: if_splits)
    moreover have "length ?c \<le> index + ?len"
      using pad_nops_length [OF "1.prems"(2)] "1.prems"(2) i by auto
    ultimately show ?thesis using "1.IH"(2) [OF 4 i(1) refl refl i(2)] i by simp
  next
    case 1
    then have "copied_options_loop options index copied = Ok copied"
      by (simp add: copied_options_loop.simps [of options index copied])
    with "1.prems" show ?thesis by simp
  qed (use 1 in \<open>auto simp: copied_options_loop.simps [of options index copied] split: if_splits\<close>)
qed

lemma copied_options_length:
  assumes "copied_ipv4_options options = Ok c" and "length options mod 4 = 0"
  shows "length c \<le> length options" and "length c mod 4 = 0"
proof -
  from assms(1) obtain d where d: "copied_options_loop options 0 [] = Ok d"
    and c: "c = resize ((length d + 3) div 4 * 4) 0 d" by (auto simp: copied_ipv4_options_def)
  have "length d \<le> length options" using copied_loop_length [OF d] by simp
  moreover obtain k where "length options = 4 * k" using assms(2) by (metis mult_div_mod_eq add_0_right)
  ultimately have "(length d + 3) div 4 * 4 \<le> length options" by simp
  then show "length c \<le> length options" and "length c mod 4 = 0" by (simp_all add: c)
qed

subsection \<open>Header fields\<close>

text \<open>A packet of at least 20 bytes as its header fields: first byte, service byte, total length,
  identification, flags and offset, time to live, protocol, checksum, addresses, and the rest.\<close>

definition ip_bytes :: "u8 \<Rightarrow> u8 \<Rightarrow> bytes \<Rightarrow> bytes \<Rightarrow> bytes \<Rightarrow> u8 \<Rightarrow> u8 \<Rightarrow> bytes \<Rightarrow> bytes \<Rightarrow> bytes \<Rightarrow> bytes" where
  "ip_bytes vihl tos tlen ident flags ttl proto check addrs rest =
    [vihl, tos] @ tlen @ ident @ flags @ [ttl, proto] @ check @ addrs @ rest"

lemma ip_bytes_split:
  assumes "20 \<le> length (p :: bytes)"
  shows "p = ip_bytes (p ! 0) (p ! 1) (range_of 2 4 p) (range_of 4 6 p) (range_of 6 8 p) (p ! 8) (p ! 9)
    (range_of 10 12 p) (range_of 12 20 p) (drop 20 p)"
proof -
  have "p = range_of 0 2 p @ drop 2 p" using range_of_split [of 0 2 p] by simp
  moreover have "range_of 0 2 p = [p ! 0, p ! 1]" "range_of 8 10 p = [p ! 8, p ! 9]"
    using range_of_2 [of 0 p] range_of_2 [of 8 p] assms by (simp_all add: numeral_2_eq_2)
  ultimately show ?thesis
    using range_of_split [of 2 4 p] range_of_split [of 4 6 p] range_of_split [of 6 8 p]
      range_of_split [of 8 10 p] range_of_split [of 10 12 p] range_of_split [of 12 20 p]
    by (simp add: ip_bytes_def)
qed

lemma ip_bytes_fields:
  assumes "length tlen = 2" "length ident = 2" "length flags = 2" "length check = 2" "length addrs = 8"
  shows "length (ip_bytes a b tlen ident flags c d check addrs rest) = 20 + length rest"
    "ip_bytes a b tlen ident flags c d check addrs rest ! 0 = a"
    "ip_bytes a b tlen ident flags c d check addrs rest ! 9 = d"
    "range_of 2 4 (ip_bytes a b tlen ident flags c d check addrs rest) = tlen"
    "range_of 4 6 (ip_bytes a b tlen ident flags c d check addrs rest) = ident"
    "range_of 6 8 (ip_bytes a b tlen ident flags c d check addrs rest) = flags"
    "range_of 12 20 (ip_bytes a b tlen ident flags c d check addrs rest) = addrs"
    "drop 20 (ip_bytes a b tlen ident flags c d check addrs rest) = rest"
  using assms by (simp_all add: ip_bytes_def range_of_def nth_append)

text \<open>The fragment that the loop builds, field by field: only the first byte, the total length,
  the flags and the options differ from the packet.\<close>

lemma build_fragment_eq:
  assumes "20 \<le> length packet"
  shows "build_fragment packet options nf chunk =
    ip_bytes (0x40 OR byte_of ((20 + length options) div 4)) (packet ! 1)
      (u16_to_be_bytes (u16_of (20 + length options + length chunk)))
      (range_of 4 6 packet) (u16_to_be_bytes nf) (packet ! 8) (packet ! 9) (range_of 10 12 packet)
      (range_of 12 20 packet) (options @ chunk)"
proof -
  let ?z = "replicate (length options) 0 :: bytes" and ?w = "replicate (length chunk) 0 :: bytes"
  let ?h = "[packet ! 0, packet ! 1] @ range_of 2 4 packet @ range_of 4 6 packet @ range_of 6 8 packet
    @ [packet ! 8, packet ! 9] @ range_of 10 12 packet @ range_of 12 20 packet"
  have "?h @ drop 20 packet = packet"
    using ip_bytes_split [OF assms, symmetric] unfolding ip_bytes_def by (simp only: append_assoc)
  moreover have "take 20 (?h @ drop 20 packet) = ?h" using assms by simp
  ultimately have h: "take 20 packet = ?h" by (simp only:)
  have "copy_at 0 (take 20 packet) (replicate (20 + length options + length chunk) 0) = take 20 packet @ ?z @ ?w"
    using assms by (simp add: copy_at_def replicate_add)
  moreover have "copy_at 20 options (take 20 packet @ ?z @ ?w) = take 20 packet @ options @ ?w"
    using assms by (intro copy_at_append) simp_all
  moreover define front where "front = [0x40 OR byte_of ((20 + length options) div 4), packet ! 1]
    @ u16_to_be_bytes (u16_of (20 + length options + length chunk)) @ range_of 4 6 packet
    @ u16_to_be_bytes nf @ [packet ! 8, packet ! 9] @ range_of 10 12 packet @ range_of 12 20 packet"
  moreover have "copy_at 6 (u16_to_be_bytes nf)
      (copy_at 2 (u16_to_be_bytes (u16_of (20 + length options + length chunk)))
        ((?h @ options @ ?w)[0 := 0x40 OR byte_of ((20 + length options) div 4)]))
    = (front @ options) @ ?w @ []"
    using assms by (simp add: front_def copy_at_def)
  moreover have "copy_at (20 + length options) chunk ((front @ options) @ ?w @ []) = (front @ options) @ chunk @ []"
    using assms by (intro copy_at_append) (simp_all add: front_def)
  moreover have "length ((?h @ options @ ?w)[0 := x]) = 20 + length options + length chunk" for x
    using assms by simp
  ultimately show ?thesis
    unfolding build_fragment_def Let_def h ip_bytes_def by (simp only:) simp
qed

lemma unat_and_0x1fff [bits]: "unat (w AND 0x1fff :: u16) = unat w mod 8192"
proof -
  have "(0x1fff :: u16) = mask 13" by (simp add: mask_eq_exp_minus_1)
  then show ?thesis by (simp only: unat_and_mask) simp
qed

lemma and_flag_bit: "(w :: u16) AND 2 ^ n \<noteq> 0 \<longleftrightarrow> n < 16 \<and> odd (unat w div 2 ^ n)"
proof -
  have "w AND 2 ^ n \<noteq> 0 \<longleftrightarrow> bit w n" by (simp add: and_exp_eq_0_iff_not_bit)
  also have "bit w n \<longleftrightarrow> n < 16 \<and> bit (unat w) n"
    using bit_imp_le_length [of w n] by (auto simp: bit_unsigned_iff)
  finally show ?thesis by (simp add: bit_iff_odd)
qed

lemma and_0x2000 [bits]: "(w :: u16) AND 0x2000 \<noteq> 0 \<longleftrightarrow> odd (unat w div 8192)"
  using and_flag_bit [of w 13] by simp

subsection \<open>What a fragment is\<close>

text \<open>The offset, the more-fragments flag and the payload of a packet, as a receiver reads them.\<close>

definition frag_flags :: "bytes \<Rightarrow> u16" where
  "frag_flags p = u16_from_be_bytes (p ! 6) (p ! 7)"

definition frag_offset :: "bytes \<Rightarrow> nat" where
  "frag_offset p = unat (frag_flags p AND 0x1fff) * 8"

definition more_fragments :: "bytes \<Rightarrow> bool" where
  "more_fragments p \<longleftrightarrow> frag_flags p AND 0x2000 \<noteq> 0"

definition ip_payload :: "bytes \<Rightarrow> bytes" where
  "ip_payload p = drop (unat (p ! 0) mod 16 * 4) p"

text \<open>A valid packet within the MTU that carries the identity of the original.\<close>

definition fragment_of :: "bytes \<Rightarrow> nat \<Rightarrow> bytes \<Rightarrow> bool" where
  "fragment_of packet mtu f \<longleftrightarrow>
    length f \<le> mtu \<and> (\<exists>info. parse_ipv4 f = Ok info) \<and> ipv4_header_checksum f = Ok 0
    \<and> range_of 4 6 f = range_of 4 6 packet \<and> f ! 9 = packet ! 9
    \<and> range_of 12 20 f = range_of 12 20 packet"

text \<open>\<open>reassembles fs off data mf\<close>: the fragments, in order, are nonempty, start at offset
  \<open>off\<close>, leave no gap and no overlap, carry \<open>data\<close>, and flag more fragments except on the last
  one, where the flag is \<open>mf\<close>.\<close>

fun reassembles :: "bytes list \<Rightarrow> nat \<Rightarrow> bytes \<Rightarrow> bool \<Rightarrow> bool" where
  "reassembles [] off data mf \<longleftrightarrow> data = []"
| "reassembles (f # fs) off data mf \<longleftrightarrow>
    (let n = length (ip_payload f)
     in frag_offset f = off \<and> n \<noteq> 0 \<and> take n data = ip_payload f
        \<and> (more_fragments f \<longleftrightarrow> n < length data \<or> mf)
        \<and> reassembles fs (off + n) (drop n data) mf)"

subsection \<open>The fragments built\<close>

lemma first_byte:
  assumes "k < 16"
  shows "unat (0x40 OR byte_of k) div 16 = 4" "unat (0x40 OR byte_of k) mod 16 = k"
proof -
  have "unat (byte_of k OR 0x40) = unat (byte_of k) + unat (0x40 :: u8)"
    by (rule unat_or_high [of _ 6 _ 1]) (use assms in simp_all)
  then have "unat (0x40 OR byte_of k) = 64 + k" using assms by (simp add: or.commute)
  then show "unat (0x40 OR byte_of k) div 16 = 4" "unat (0x40 OR byte_of k) mod 16 = k"
    using assms by presburger+
qed

text \<open>The flags word of a fragment: 13 bits of offset below the more-fragments bit.\<close>

definition flags_word :: "nat \<Rightarrow> bool \<Rightarrow> u16" where
  "flags_word off mf = (if mf then u16_of (off div 8) OR 0x2000 else u16_of (off div 8))"

lemma flags_word:
  assumes "off < 65536" and "off mod 8 = 0"
  shows "unat (flags_word off mf AND 0x1fff) * 8 = off" "flags_word off mf AND 0x2000 \<noteq> 0 \<longleftrightarrow> mf"
proof -
  have k: "off div 8 < 8192" "off div 8 * 8 = off" using assms by presburger+
  have "unat (u16_of (off div 8) OR 0x2000) = unat (u16_of (off div 8)) + unat (0x2000 :: u16)"
    by (rule unat_or_high [of _ 13 _ 1]) (use k in simp_all)
  then have w: "unat (flags_word off mf) = off div 8 + (if mf then 8192 else 0)"
    using k by (simp add: flags_word_def)
  show "unat (flags_word off mf AND 0x1fff) * 8 = off" using k by (simp add: bits w)
  show "flags_word off mf AND 0x2000 \<noteq> 0 \<longleftrightarrow> mf"
    using k(1) div_add_self2 [of 8192 "off div 8"] by (simp add: bits w)
qed

lemma ip_bytes_parse:
  fixes tos ttl proto :: u8
  assumes "length ident = 2" "length fl = 2" "length check = 2" "length addrs = 8"
    and "(20 + length opts) mod 4 = 0" "20 + length opts \<le> 60" "20 + length opts + length chunk \<le> 65535"
  defines "p \<equiv> ip_bytes (0x40 OR byte_of ((20 + length opts) div 4)) tos
      (u16_to_be_bytes (u16_of (20 + length opts + length chunk))) ident fl ttl proto check addrs (opts @ chunk)"
  shows "header_shape p (20 + length opts)" "\<exists>info. parse_ipv4 p = Ok info" "ip_payload p = chunk"
    "frag_flags p = u16_from_be_bytes (fl ! 0) (fl ! 1)"
proof -
  let ?t = "u16_to_be_bytes (u16_of (20 + length opts + length chunk))"
  have k: "(20 + length opts) div 4 < 16" "(20 + length opts) div 4 * 4 = 20 + length opts"
    using assms(5,6) by auto
  have len: "length p = 20 + (length opts + length chunk)"
    using assms(1-4) by (simp add: p_def ip_bytes_def)
  have p0: "p ! 0 = 0x40 OR byte_of ((20 + length opts) div 4)" by (simp add: p_def ip_bytes_def)
  have shape: "header_shape p (20 + length opts)"
    using first_byte [OF k(1)] k(2) len by (simp add: header_shape_def p0)
  then show "header_shape p (20 + length opts)" .
  have "p ! 2 = ?t ! 0" "p ! 3 = ?t ! 1" by (simp_all add: p_def ip_bytes_def nth_append)
  then have "256 * unat (p ! 2) + unat (p ! 3) = length p"
    using assms(7) len by (simp add: be_simps)
  with shape show "\<exists>info. parse_ipv4 p = Ok info"
    by (intro exI [of _ "\<lparr>info_source = ipv4_new (p ! 12) (p ! 13) (p ! 14) (p ! 15),
      info_destination = ipv4_new (p ! 16) (p ! 17) (p ! 18) (p ! 19),
      total_length = length p, header_length = 20 + length opts\<rparr>"]) (simp add: parse_ipv4_Ok)
  have "drop 20 p = opts @ chunk" using assms(1-4) by (simp add: p_def ip_bytes_fields)
  then have "drop (length opts + 20) p = chunk" by (simp flip: drop_drop)
  moreover have "unat (p ! 0) mod 16 * 4 = length opts + 20"
    using first_byte(2) [OF k(1)] k(2) by (simp add: p0)
  ultimately show "ip_payload p = chunk" by (simp add: ip_payload_def)
  show "frag_flags p = u16_from_be_bytes (fl ! 0) (fl ! 1)"
    using assms(1-2) by (simp add: frag_flags_def p_def ip_bytes_def nth_append)
qed

lemma fragment_built:
  assumes "20 \<le> length packet" "mtu \<le> 65535" "20 + length opts + length chunk \<le> mtu"
    and "length opts mod 4 = 0" "length opts \<le> 40"
  obtains f where "set_ipv4_header_checksum (build_fragment packet opts nf chunk) = Ok f"
    "fragment_of packet mtu f" "ip_payload f = chunk" "frag_flags f = nf"
    "length f = 20 + length opts + length chunk"
proof -
  define n where "n = 20 + length opts"
  let ?hb = "0x40 OR byte_of (n div 4)" and ?t = "u16_to_be_bytes (u16_of (n + length chunk))"
  let ?ip = "\<lambda>check. ip_bytes ?hb (packet ! 1) ?t (range_of 4 6 packet) (u16_to_be_bytes nf) (packet ! 8)
      (packet ! 9) check (range_of 12 20 packet) (opts @ chunk)"
  have n: "n mod 4 = 0" "n \<le> 60" "n + length chunk \<le> 65535" "n + length chunk \<le> mtu"
    using assms unfolding n_def by presburger+
  have lens: "length (range_of 4 6 packet) = 2" "length (range_of 12 20 packet) = 8"
    using assms(1) by simp_all
  note parse = ip_bytes_parse [OF lens(1) length_u16_to_be_bytes _ lens(2), of _ opts chunk, folded n_def, OF _ n(1-3)]
  obtain x y where xy: "range_of 10 12 packet = [x, y]"
    using range_of_2 [of 10 packet] assms(1) by auto
  let ?front = "[?hb, packet ! 1] @ ?t @ range_of 4 6 packet @ u16_to_be_bytes nf @ [packet ! 8, packet ! 9]"
  let ?rear = "range_of 12 20 packet @ opts @ chunk"
  have ip: "?ip check = ?front @ check @ ?rear" for check by (simp add: ip_bytes_def)
  have "header_shape (?front @ [x, y] @ ?rear) n" "length ?front = 10"
    using parse(1) [of "[x, y]"] lens unfolding ip [symmetric] by simp_all
  then obtain check where ck: "set_ipv4_header_checksum (?front @ [x, y] @ ?rear) = Ok (?front @ check @ ?rear)"
    "length check = 2" "header_shape (?front @ check @ ?rear) n"
    "internet_checksum (take n (?front @ check @ ?rear)) = 0"
    by (rule set_checksum_passes)
  show ?thesis
  proof (rule that [of "?ip check"])
    show "set_ipv4_header_checksum (build_fragment packet opts nf chunk) = Ok (?ip check)"
      using ck(1) unfolding build_fragment_eq [OF assms(1)] n_def [symmetric] xy ip .
    have "ipv4_header_checksum (?ip check) = Ok 0"
      using ck(3,4) unfolding ip ipv4_header_checksum_def ipv4_header_length_Ok [symmetric] by (simp only: rbind_simps)
    then show "fragment_of packet mtu (?ip check)"
      using parse(2) [OF ck(2)] n(4) lens ck(2) by (simp add: fragment_of_def ip_bytes_fields n_def)
    show "ip_payload (?ip check) = chunk" using parse(3) [OF ck(2)] .
    show "length (?ip check) = 20 + length opts + length chunk"
      using lens ck(2) by (simp add: ip_bytes_fields)
    show "frag_flags (?ip check) = nf" using parse(4) [OF ck(2)] by (simp add: be_simps)
  qed
qed

text \<open>The loop always succeeds on what the checks before it let through.\<close>

lemma fragment_loop_ok:
  assumes "20 \<le> length packet" "MIN_IPV4_MTU \<le> mtu" "mtu \<le> 65535"
    and "length own mod 4 = 0" "length own \<le> 40" "length copied mod 4 = 0" "length copied \<le> 40"
    and "consumed < length payload \<longrightarrow> off mod 8 = 0" "consumed \<le> length payload"
    and "off + (length payload - consumed) \<le> 65535"
  shows "\<exists>fs. fragment_loop packet mtu flags own copied payload consumed off = Ok fs
    \<and> list_all (fragment_of packet mtu) fs
    \<and> reassembles fs off (drop consumed payload) (flags AND 0x2000 \<noteq> 0)
    \<and> (off = 0 \<and> fs \<noteq> [] \<longrightarrow> length (hd fs) = 20 + length own + length (ip_payload (hd fs)))"
  using assms
proof (induction packet mtu flags own copied payload consumed off rule: fragment_loop.induct)
  case (1 packet mtu flags own copied payload consumed off)
  note pre = "1.prems"
  show ?case
  proof (cases "consumed < length payload")
    case False
    then show ?thesis by (simp add: fragment_loop.simps [of packet mtu flags own copied payload consumed off])
  next
    case True
    define opts where "opts = (if off = 0 then own else copied)"
    define hl where "hl = 20 + length opts"
    define len where "len = (if length payload - consumed > mtu - hl then (mtu - hl) div 8 * 8
      else length payload - consumed)"
    define mf where "mf = (consumed + len < length payload \<or> flags AND 0x2000 \<noteq> 0)"
    let ?chunk = "range_of consumed (consumed + len) payload"
    have o: "length opts mod 4 = 0" "length opts \<le> 40" using pre by (simp_all add: opts_def)
    have hl: "\<not> mtu < hl + 8" using pre(2) o(2) by (simp add: hl_def MIN_IPV4_MTU_def)
    have len: "0 < len" "consumed + len \<le> length payload" "len \<le> mtu - hl"
      "consumed + len < length payload \<longrightarrow> len mod 8 = 0"
      using True hl by (auto simp: len_def div_greater_zero_iff)
    have chunk: "length ?chunk = len" using len(2) by simp
    have fits: "20 + length opts + length ?chunk \<le> mtu" using len(3) hl chunk by (simp add: hl_def)
    obtain f where f: "set_ipv4_header_checksum (build_fragment packet opts (flags_word off mf) ?chunk) = Ok f"
      "fragment_of packet mtu f" "ip_payload f = ?chunk" "frag_flags f = flags_word off mf"
      "length f = 20 + length opts + length ?chunk"
      by (rule fragment_built [OF pre(1) pre(3) fits o])
    have "off mod 8 = 0" using pre(8) True by blast
    then have next8: "consumed + len < length payload \<longrightarrow> (off + len) mod 8 = 0" using len(4) by auto
    have bound: "off + len + (length payload - (consumed + len)) \<le> 65535" using pre(10) len(2) by simp
    note fold = opts_def [symmetric] hl_def [symmetric] len_def [symmetric] mf_def [symmetric]
      flags_word_def [symmetric]
    have "\<exists>fs. fragment_loop packet mtu flags own copied payload (consumed + len) (off + len) = Ok fs
      \<and> list_all (fragment_of packet mtu) fs
      \<and> reassembles fs (off + len) (drop (consumed + len) payload) (flags AND 0x2000 \<noteq> 0)"
      using "1.IH" [OF True opts_def hl_def hl refl len_def refl refl refl, unfolded fold, OF f(1) pre(1-7) next8 len(2) bound]
      by blast
    then obtain fs where fs: "fragment_loop packet mtu flags own copied payload (consumed + len) (off + len) = Ok fs"
      "list_all (fragment_of packet mtu) fs"
      "reassembles fs (off + len) (drop (consumed + len) payload) (flags AND 0x2000 \<noteq> 0)" by blast
    have "fragment_loop packet mtu flags own copied payload consumed off = Ok (f # fs)"
      using True hl f(1) fs(1)
      unfolding fragment_loop.simps [of packet mtu flags own copied payload consumed off] Let_def fold
      by simp
    moreover have "reassembles (f # fs) off (drop consumed payload) (flags AND 0x2000 \<noteq> 0)"
      using f(3,4) fs(3) flags_word [of off mf] pre(8,10) True len chunk
      by (auto simp: frag_offset_def more_fragments_def range_of_def mf_def add.commute)
    moreover have "off = 0 \<longrightarrow> length f = 20 + length own + length (ip_payload f)"
      using f(3,5) by (simp add: opts_def)
    ultimately show ?thesis using f(2) fs(2) by auto
  qed
qed

subsection \<open>Whole packets\<close>

lemma fragment_ipv4_Ok:
  assumes "fragment_ipv4 packet mtu = Ok fs"
  obtains info where "parse_ipv4 packet = Ok info" "internet_checksum (take (header_length info) packet) = 0"
    "MIN_IPV4_MTU \<le> mtu" "mtu \<le> 65535"
    "length packet \<le> mtu \<Longrightarrow> fs = [packet]"
    "mtu < length packet \<Longrightarrow> list_all (fragment_of packet mtu) fs
      \<and> reassembles fs (frag_offset packet) (ip_payload packet) (more_fragments packet)
      \<and> (frag_offset packet = 0 \<and> fs \<noteq> [] \<longrightarrow>
          length (hd fs) = header_length info + length (ip_payload (hd fs)))"
proof -
  from assms obtain info where info: "parse_ipv4 packet = Ok info"
    "internet_checksum (take (header_length info) packet) = 0" "MIN_IPV4_MTU \<le> mtu" "mtu \<le> 65535"
    by (auto simp: fragment_ipv4_def split: if_splits)
  note D = parse_ipv4_OkD [OF info(1)] and shape = header_shape_bounds [OF parse_ipv4_OkD(1) [OF info(1)]]
  let ?own = "range_of 20 (header_length info) packet" and ?payload = "drop (header_length info) packet"
  let ?flags = "frag_flags packet"
  have own: "length ?own = header_length info - 20" "length ?own mod 4 = 0" "length ?own \<le> 40"
    using shape by (auto simp: mod_eq_0_iff_dvd dvd_diff_nat min_def)
  show ?thesis
  proof (rule that [OF info])
    show "fs = [packet]" if "length packet \<le> mtu"
      using assms info that by (auto simp: fragment_ipv4_def Let_def split: if_splits)
    assume big: "mtu < length packet"
    from assms info big obtain copied where c: "copied_ipv4_options ?own = Ok copied"
      and bound: "20 + length copied + frag_offset packet + length ?payload \<le> 65535"
      and l: "fragment_loop packet mtu ?flags ?own copied ?payload 0 (frag_offset packet) = Ok fs"
      by (auto simp: fragment_ipv4_def Let_def frag_flags_def frag_offset_def split: if_splits)
    have "length copied mod 4 = 0" "length copied \<le> 40"
      using copied_options_length [OF c own(2)] own(3) by linarith+
    then have "list_all (fragment_of packet mtu) fs
        \<and> reassembles fs (frag_offset packet) (drop 0 ?payload) (?flags AND 0x2000 \<noteq> 0)
        \<and> (frag_offset packet = 0 \<and> fs \<noteq> [] \<longrightarrow> length (hd fs) = 20 + length ?own + length (ip_payload (hd fs)))"
      using fragment_loop_ok [OF D(5) info(3,4) own(2,3), of copied 0 ?payload "frag_offset packet" ?flags]
        bound l by (simp add: frag_offset_def)
    moreover have "ip_payload packet = ?payload" using D(1) by (simp add: ip_payload_def header_shape_def)
    ultimately show "list_all (fragment_of packet mtu) fs
      \<and> reassembles fs (frag_offset packet) (ip_payload packet) (more_fragments packet)
      \<and> (frag_offset packet = 0 \<and> fs \<noteq> [] \<longrightarrow>
          length (hd fs) = header_length info + length (ip_payload (hd fs)))"
      using own(1) shape by (simp add: more_fragments_def)
  qed
qed

lemma header_checksum_Ok:
  "header_shape p n \<Longrightarrow> internet_checksum (take n p) = 0 \<Longrightarrow> ipv4_header_checksum p = Ok 0"
  by (simp add: ipv4_header_checksum_def flip: ipv4_header_length_Ok)

text \<open>In a reassembling sequence, a packet that is not the whole datagram is marked as a fragment.\<close>

lemma reassembles_marked:
  "reassembles fs off data mf \<Longrightarrow> off > 0 \<or> (fs \<noteq> [] \<longrightarrow> more_fragments (hd fs)) \<Longrightarrow>
    \<forall>f \<in> set fs. frag_offset f > 0 \<or> more_fragments f"
proof (induction fs arbitrary: off data)
  case (Cons f fs)
  let ?n = "length (ip_payload f)"
  have "frag_offset f = off" "?n \<noteq> 0" "reassembles fs (off + ?n) (drop ?n data) mf"
    using Cons.prems(1) by (auto simp: Let_def)
  with Cons.IH [of "off + ?n" "drop ?n data"] Cons.prems(2) show ?case by auto
qed simp

lemma and_0x3fff: "frag_offset f > 0 \<or> more_fragments f \<Longrightarrow> frag_flags f AND 0x3fff \<noteq> 0"
proof -
  let ?w = "frag_flags f"
  have "(?w AND 0x3fff) AND 0x1fff = ?w AND 0x1fff" "(?w AND 0x3fff) AND 0x2000 = ?w AND 0x2000"
    by (simp_all add: and.assoc)
  then show "frag_offset f > 0 \<or> more_fragments f \<Longrightarrow> ?w AND 0x3fff \<noteq> 0"
    unfolding frag_offset_def more_fragments_def by auto
qed

text \<open>Fragments are classified by addresses, protocol and identification only.\<close>

lemma classify_fragment:
  assumes "header_shape f n" and "frag_flags f AND 0x3fff \<noteq> 0"
  shows "classify_ipv4 f =
    (let flow = default_flow\<lparr>flow_source := take 4 (range_of 12 20 f), flow_destination := drop 4 (range_of 12 20 f),
          protocol := f ! 9, fragmented := True,
          fragment_id := u16_from_be_bytes (range_of 4 6 f ! 0) (range_of 4 6 f ! 1)\<rparr>
     in \<lparr>meta_class = (if f ! 9 = 1 then Control else if f ! 9 = 6 then Tcp else Datagram),
         meta_flow = flow, meta_hash = hash_flow flow\<rparr>)"
proof -
  note b = header_shape_bounds [OF assms(1)]
  have h: "\<not> length f < 20" "drop_bit 4 (f ! 0) = 4" "unat (f ! 0 AND 15) * 4 = n"
    using assms(1) b by (auto simp: header_shape_def version_nibble bits)
  have r: "range_of 12 16 f = take 4 (range_of 12 20 f)" "range_of 16 20 f = drop 4 (range_of 12 20 f)"
    "range_of 4 6 f = [f ! 4, f ! 5]"
    using b range_of_2 [of 4 f] by (simp_all add: range_of_def drop_take)
  have n: "\<not> (n < 20 \<or> length f < n)" using b by simp
  show ?thesis using h n assms(2) unfolding classify_ipv4_def r
    by (simp add: Let_def frag_flags_def)
qed

text \<open>What the two properties of fragmentation rest on.\<close>

lemma fragments_of_packet:
  assumes "fragment_ipv4 packet mtu = Ok fs"
  shows "list_all (fragment_of packet mtu) fs"
proof -
  from assms obtain info where info: "parse_ipv4 packet = Ok info"
      "internet_checksum (take (header_length info) packet) = 0" "length packet \<le> mtu \<Longrightarrow> fs = [packet]"
      "mtu < length packet \<Longrightarrow> list_all (fragment_of packet mtu) fs"
    by (elim fragment_ipv4_Ok) blast
  show ?thesis
  proof (cases "length packet \<le> mtu")
    case True
    then have "fragment_of packet mtu packet"
      using info(1) header_checksum_Ok [OF parse_ipv4_OkD(1) [OF info(1)] info(2)]
      by (simp add: fragment_of_def)
    then show ?thesis using info(3) [OF True] by simp
  qed (use info(4) in simp)
qed

lemma fragments_marked:
  assumes "fragment_ipv4 packet mtu = Ok fs" and "mtu < length packet"
  shows "\<forall>f \<in> set fs. frag_flags f AND 0x3fff \<noteq> 0"
proof -
  from assms obtain info where info: "parse_ipv4 packet = Ok info"
    and fs: "list_all (fragment_of packet mtu) fs"
      "reassembles fs (frag_offset packet) (ip_payload packet) (more_fragments packet)"
      "frag_offset packet = 0 \<and> fs \<noteq> [] \<longrightarrow> length (hd fs) = header_length info + length (ip_payload (hd fs))"
    by (elim fragment_ipv4_Ok) blast
  have payload: "header_length info + length (ip_payload packet) = length packet"
    using parse_ipv4_OkD [OF info] by (simp add: ip_payload_def header_shape_def)
  have "frag_offset packet > 0 \<or> (fs \<noteq> [] \<longrightarrow> more_fragments (hd fs))"
  proof (rule disjCI)
    assume "\<not> (fs \<noteq> [] \<longrightarrow> more_fragments (hd fs))"
    then obtain f gs where f: "fs = f # gs" "\<not> more_fragments f" by (cases fs) auto
    then have "length (ip_payload f) \<ge> length (ip_payload packet)" "length f \<le> mtu"
      using fs(1,2) by (auto simp: fragment_of_def Let_def)
    then show "frag_offset packet > 0" using fs(3) payload assms(2) f(1) by (cases "frag_offset packet") auto
  qed
  from reassembles_marked [OF fs(2) this] show ?thesis using and_0x3fff by blast
qed

subsection \<open>Properties\<close>

text \<open>C33: \<open>fragment_ipv4\<close> returns packets within the MTU that parse, pass the header checksum and
  keep the identification, protocol and addresses of the original. A packet that fits is returned
  as it is; otherwise the fragments carry the payload without gap or overlap from the original
  offset on, with the more-fragments flag on all but the last, which keeps the original's flag.\<close>

theorem fragment_reassembles:
  assumes "fragment_ipv4 packet mtu = Ok fragments"
  shows "list_all (fragment_of packet mtu) fragments \<and>
    (if length packet \<le> mtu then fragments = [packet]
     else reassembles fragments (frag_offset packet) (ip_payload packet) (more_fragments packet))"
  using fragments_of_packet [OF assms] assms by (auto elim!: fragment_ipv4_Ok)

text \<open>A 100-byte UDP packet split at 68 bytes.\<close>

definition sample_packet :: bytes where
  "sample_packet = [0x45, 0, 0, 100, 0, 9, 0, 0, 64, 17, 0x6e, 0x3b, 10, 66, 0, 2, 1, 1, 1, 1]
     @ map byte_of [0..<80]"

theorem fragment_reassembles_witness:
  "\<exists>f g. fragment_ipv4 sample_packet 68 = Ok [f, g]
    \<and> list_all (fragment_of sample_packet 68) [f, g] \<and> reassembles [f, g] 0 (map byte_of [0..<80]) False"
proof -
  have "case fragment_ipv4 sample_packet 68 of Ok [f, g] \<Rightarrow> True | _ \<Rightarrow> False" by code_simp
  then obtain f g where fg: "fragment_ipv4 sample_packet 68 = Ok [f, g]"
    by (auto split: sum.splits list.splits)
  have "length sample_packet = 100 \<and> frag_offset sample_packet = 0
      \<and> ip_payload sample_packet = map byte_of [0..<80] \<and> \<not> more_fragments sample_packet"
    by code_simp
  with fragment_reassembles [OF fg] fg show ?thesis by simp
qed

text \<open>all fragments that \<open>fragment_ipv4\<close> makes of one packet get the same metadata from
  \<open>classify_ipv4\<close> (class, flow key and hash), so that flow-affine queues and lanes keep them
  together.\<close>

theorem fragments_share_flow:
  assumes "fragment_ipv4 packet mtu = Ok fragments" and "mtu < length packet"
    and "f \<in> set fragments" and "g \<in> set fragments"
  shows "classify_ipv4 f = classify_ipv4 g"
proof -
  have same: "\<exists>n. header_shape h n \<and> frag_flags h AND 0x3fff \<noteq> 0 \<and> range_of 4 6 h = range_of 4 6 packet
      \<and> h ! 9 = packet ! 9 \<and> range_of 12 20 h = range_of 12 20 packet" if "h \<in> set fragments" for h
    using that fragments_of_packet [OF assms(1)] fragments_marked [OF assms(1,2)] parse_ipv4_OkD(1)
    by (fastforce simp: list_all_iff fragment_of_def)
  from same [OF assms(3)] same [OF assms(4)] show ?thesis by (auto simp: classify_fragment)
qed

theorem fragments_share_flow_witness:
  "\<exists>f g. fragment_ipv4 sample_packet 68 = Ok [f, g] \<and> classify_ipv4 f = classify_ipv4 g"
proof -
  have "case fragment_ipv4 sample_packet 68 of Ok [f, g] \<Rightarrow> True | _ \<Rightarrow> False" by code_simp
  then obtain f g where fg: "fragment_ipv4 sample_packet 68 = Ok [f, g]"
    by (auto split: sum.splits list.splits)
  have "68 < length sample_packet" by code_simp
  from fragments_share_flow [OF fg this, of f g] fg show ?thesis by simp
qed

text \<open>fragmentation does not fail on an ordinary packet: valid, without options, neither a
  fragment nor marked don't-fragment, whatever the MTU of at least 68 bytes.\<close>

theorem fragment_succeeds:
  assumes "parse_ipv4 packet = Ok info" and "header_length info = 20"
    and "ipv4_header_checksum packet = Ok 0" and "frag_flags packet = 0"
    and "MIN_IPV4_MTU \<le> mtu" and "mtu \<le> 65535"
  shows "\<exists>fragments. fragment_ipv4 packet mtu = Ok fragments"
proof -
  note D = parse_ipv4_OkD [OF assms(1)]
  have ck: "internet_checksum (take 20 packet) = 0"
    using assms(2,3) D(1) by (simp add: ipv4_header_checksum_def flip: ipv4_header_length_Ok)
  have "copied_ipv4_options [] = Ok []"
    by (simp add: copied_ipv4_options_def copied_options_loop.simps resize_def)
  moreover have "length packet - 20 \<le> 65535" "\<not> 65515 < length packet - 20" using D(3) by linarith+
  moreover obtain fs where "fragment_loop packet mtu (frag_flags packet) [] [] (drop 20 packet) 0 0 = Ok fs"
    using fragment_loop_ok [OF D(5) assms(5,6), of "[]" "[]" 0 "drop 20 packet" 0 "frag_flags packet"] calculation(2)
    by auto
  ultimately show ?thesis
    using assms ck D(3,5) by (simp add: fragment_ipv4_def frag_flags_def [symmetric] range_of_def Let_def)
qed

theorem fragment_succeeds_witness:
  "\<exists>fragments. fragment_ipv4 sample_packet 70 = Ok fragments"
proof -
  have p: "parse_ipv4 sample_packet = Ok \<lparr>info_source = 0x0a420002, info_destination = 0x01010101,
      total_length = 100, header_length = 20\<rparr>" by code_simp
  have "ipv4_header_checksum sample_packet = Ok 0 \<and> frag_flags sample_packet = 0 \<and> MIN_IPV4_MTU \<le> 70"
    by code_simp
  with fragment_succeeds [OF p] show ?thesis by simp
qed

subsection \<open>ICMP responses\<close>

lemma build_icmp_eq:
  assumes "gw = [g0, g1, g2, g3]" "src = [s0, s1, s2, s3]"
    and "ipv4_octets g = gw" "ipv4_octets s = src"
  obtains t0 t1 i0 i1 check where "build_icmp g s mtu ident quoted =
    [0x45, 0, t0, t1, i0, i1, 0, 0, 64, 1, 0, 0] @ gw @ src @ [3, 4] @ check @ [0, 0]
      @ u16_to_be_bytes (u16_of mtu) @ quoted"
    "length check = 2" "[t0, t1] = u16_to_be_bytes (u16_of (28 + length quoted))"
    "internet_checksum ([3, 4] @ check @ [0, 0] @ u16_to_be_bytes (u16_of mtu) @ quoted) = 0"
proof -
  let ?m = "u16_to_be_bytes (u16_of mtu)"
  obtain t0 t1 where t: "u16_to_be_bytes (u16_of (28 + length quoted)) = [t0, t1]" by (simp add: be_simps)
  obtain i0 i1 where i: "u16_to_be_bytes ident = [i0, i1]" by (simp add: be_simps)
  obtain m0 m1 where m: "?m = [m0, m1]" by (simp add: be_simps)
  let ?check = "u16_to_be_bytes (internet_checksum ([3, 4] @ [0, 0] @ [0, 0] @ ?m @ quoted))"
  obtain c0 c1 where c: "?check = [c0, c1]" by (simp add: be_simps)
  have z: "replicate (28 + length quoted) 0 = replicate 28 0 @ replicate (length quoted) (0 :: u8)"
    by (rule replicate_add)
  have "build_icmp g s mtu ident quoted = [0x45, 0, t0, t1, i0, i1, 0, 0, 64, 1, 0, 0] @ gw @ src
      @ [3, 4] @ ?check @ [0, 0] @ ?m @ quoted"
    using c unfolding build_icmp_def Let_def length_list_update length_replicate t
    unfolding z assms(3,4) i m assms(1,2)
    by (simp add: copy_at_def numeral_eq_Suc)
  moreover have "internet_checksum ([3, 4] @ ?check @ [0, 0] @ ?m @ quoted) = 0"
    by (rule checksum_closes) simp
  ultimately show ?thesis using t by (intro that [of t0 t1 i0 i1 ?check]) simp_all
qed


text \<open>The same packet with don't-fragment set, from a client at 10.66.0.2.\<close>

definition df_packet :: bytes where
  "df_packet = sample_packet[6 := 0x40, 10 := 0x2e]"

definition sample_context :: icmp_context where
  "sample_context = \<lparr>gateway = 0x0a420001, leased_address = 0x0a420002, prefix_len = 24\<rparr>"


subsection \<open>Datagram limits\<close>

fun apply_updates :: "datagram_mtu \<Rightarrow> nat list \<Rightarrow> datagram_mtu" where
  "apply_updates m [] = m"
| "apply_updates m (c # cs) = apply_updates (snd (datagram_mtu_update m c)) cs"

text \<open>a connection's datagram limit starts at the negotiated ceiling and is, after any
  sequence of capacity reports, the minimum of the ceiling and the usable capacities: it never
  grows and never falls below 68, and an unusable report leaves it unchanged.\<close>

theorem datagram_limit_is_minimum:
  assumes "datagram_mtu_new ceiling = Some m"
  shows "mtu_limit (apply_updates m capacities) =
      fold min (filter (\<lambda>c. MIN_IPV4_MTU \<le> c) capacities) (unat ceiling)
    \<and> MIN_IPV4_MTU \<le> mtu_limit (apply_updates m capacities)
    \<and> mtu_limit (apply_updates m capacities) \<le> unat ceiling"
proof -
  have "mtu_limit (apply_updates m cs) = fold min (filter (\<lambda>c. MIN_IPV4_MTU \<le> c) cs) (mtu_limit m)
      \<and> (MIN_IPV4_MTU \<le> mtu_limit m \<longrightarrow> MIN_IPV4_MTU \<le> mtu_limit (apply_updates m cs))
      \<and> mtu_limit (apply_updates m cs) \<le> mtu_limit m" for cs m
  proof (induction cs arbitrary: m)
    case (Cons c cs)
    let ?m = "snd (datagram_mtu_update m c)"
    have "mtu_limit ?m = (if MIN_IPV4_MTU \<le> c then min c (mtu_limit m) else mtu_limit m)"
      by (simp add: datagram_mtu_update_def Let_def min.commute)
    then show ?case using Cons.IH [of ?m] by (cases "MIN_IPV4_MTU \<le> c") auto
  qed simp
  note all = this [of m capacities]
  have "mtu_limit m = unat ceiling" "MIN_IPV4_MTU \<le> mtu_limit m"
    using assms by (auto simp: datagram_mtu_new_def split: if_splits)
  with all show ?thesis by metis
qed

theorem datagram_limit_is_minimum_witness:
  "mtu_limit (apply_updates \<lparr>mtu_limit = 1400\<rparr> [1500, 1300, 20, 1350]) = 1300"
proof -
  have "datagram_mtu_new 1400 = Some \<lparr>mtu_limit = 1400\<rparr>" by code_simp
  from datagram_limit_is_minimum [OF this, of "[1500, 1300, 20, 1350]"]
  show ?thesis by (simp add: MIN_IPV4_MTU_def)
qed

subsection \<open>Runs of the feedback policy\<close>

record oversized =
  ov_packet :: bytes
  ov_mtu :: nat
  ov_ceiling :: nat
  ov_now :: instant
  ov_rtt :: duration

definition ov_flow :: "oversized \<Rightarrow> flow_key" where
  "ov_flow e = meta_flow (classify_ipv4 (ov_packet e))"

definition policy_step :: "feedback_policy \<Rightarrow> oversized \<Rightarrow> feedback_decision \<times> feedback_policy" where
  "policy_step p e = on_oversized p (ov_packet e) (ov_mtu e) (ov_ceiling e) (ov_now e) (ov_rtt e)"

fun policy_after :: "feedback_policy \<Rightarrow> oversized list \<Rightarrow> feedback_policy" where
  "policy_after p [] = p"
| "policy_after p (e # es) = policy_after (snd (policy_step p e)) es"

text \<open>The flows and times of the ICMP responses requested in a run.\<close>

definition sent_by :: "oversized \<Rightarrow> feedback_decision \<Rightarrow> (flow_key \<times> instant) list" where
  "sent_by e d = (if send_icmp d then [(ov_flow e, ov_now e)] else [])"

fun icmp_sent :: "feedback_policy \<Rightarrow> oversized list \<Rightarrow> (flow_key \<times> instant) list" where
  "icmp_sent p [] = []"
| "icmp_sent p (e # es) = (let (d, p') = policy_step p e in sent_by e d @ icmp_sent p' es)"

lemma min_index_less: "xs \<noteq> [] \<Longrightarrow> min_index key xs < length xs"
  by (induction key xs rule: min_index.induct) (auto simp: Let_def)

lemma flow_entry:
  assumes "flow_entry flows flow mtu now = (flows', i)"
  shows "i < length flows'" "fb_flow (flows' ! i) = flow"
    "set flows' \<subseteq> insert (flow_feedback_new flow mtu now) (set flows)"
    "length flows \<le> MAX_FEEDBACK_FLOWS \<Longrightarrow> length flows' \<le> MAX_FEEDBACK_FLOWS"
    "distinct (map fb_flow flows) \<Longrightarrow> distinct (map fb_flow flows')"
proof -
  let ?kept = "if length flows = MAX_FEEDBACK_FLOWS then remove_nth (min_index last_seen flows) flows else flows"
  have kept: "set ?kept \<subseteq> set flows" using set_remove_nth [of _ flows] by auto
  show "i < length flows'" "fb_flow (flows' ! i) = flow"
    "set flows' \<subseteq> insert (flow_feedback_new flow mtu now) (set flows)"
    using assms kept position_Some [of _ flows]
    by (auto simp: flow_entry_def Let_def flow_feedback_new_def split: option.splits if_splits)
  show "length flows' \<le> MAX_FEEDBACK_FLOWS" if "length flows \<le> MAX_FEEDBACK_FLOWS"
    using assms that min_index_less [of flows last_seen]
    by (cases "flows = []") (auto simp: flow_entry_def Let_def length_remove_nth MAX_FEEDBACK_FLOWS_def split: option.splits if_splits)
  show "distinct (map fb_flow flows')" if "distinct (map fb_flow flows)"
  proof (cases "position (\<lambda>s. fb_flow s = flow) flows")
    case None
    then have "flow \<notin> fb_flow ` set ?kept" using kept by (auto simp: position_None)
    then show ?thesis using assms that None distinct_remove_nth [OF that]
      by (auto simp: flow_entry_def Let_def flow_feedback_new_def split: if_splits)
  qed (use assms that in \<open>auto simp: flow_entry_def\<close>)
qed

text \<open>What a call does with the packet it does not ignore: it decides on an entry of the packet's
  flow, which is an old one or new.\<close>

lemma policy_step_cases:
  assumes "policy_step p e = (d, p')"
  obtains (ignored) "d = default_decision" "p' = p"
  | (handled) flows i s where
      "(d, p') = feedback_decide p flows i s (length (ov_packet e)) (ov_ceiling e) (ov_now e) (ov_rtt e)"
      "i < length flows" "fb_flow s = ov_flow e" "fb_flow (flows ! i) = ov_flow e"
      "set flows \<subseteq> insert (flow_feedback_new (ov_flow e) (ov_mtu e) (ov_now e)) (set (policy_flows p))"
      "length (policy_flows p) \<le> MAX_FEEDBACK_FLOWS \<Longrightarrow> length flows \<le> MAX_FEEDBACK_FLOWS"
      "distinct (map fb_flow (policy_flows p)) \<Longrightarrow> distinct (map fb_flow flows)"
      "\<exists>s'. (s' \<in> set flows \<or> s' = flow_feedback_new (ov_flow e) (ov_mtu e) (ov_now e))
        \<and> s = s'\<lparr>last_seen := ov_now e\<rparr>"
proof -
  let ?live = "filter (\<lambda>s. ov_now e - last_seen s < FLOW_IDLE_TIMEOUT) (policy_flows p)"
  let ?new = "flow_feedback_new (ov_flow e) (ov_mtu e) (ov_now e)"
  obtain flows i where fe: "flow_entry ?live (ov_flow e) (ov_mtu e) (ov_now e) = (flows, i)" by fastforce
  define s where "s = (if ov_mtu e < fb_mtu (flows ! i) then ?new else flows ! i)"
  note F = flow_entry [OF fe]
  show ?thesis
  proof (cases "length (ov_packet e) \<le> ov_mtu e \<or> ov_mtu e < MIN_IPV4_MTU")
    case True
    then show ?thesis using assms by (intro ignored) (auto simp: policy_step_def on_oversized_def)
  next
    case False
    show ?thesis
    proof (rule handled [of flows i "s\<lparr>last_seen := ov_now e\<rparr>"])
      show "(d, p') = feedback_decide p flows i (s\<lparr>last_seen := ov_now e\<rparr>) (length (ov_packet e))
          (ov_ceiling e) (ov_now e) (ov_rtt e)"
        using assms False fe by (simp add: policy_step_def on_oversized_def s_def ov_flow_def Let_def split: if_splits)
      show "fb_flow (s\<lparr>last_seen := ov_now e\<rparr>) = ov_flow e" using F(2) by (simp add: s_def flow_feedback_new_def)
      show "length flows \<le> MAX_FEEDBACK_FLOWS" if "length (policy_flows p) \<le> MAX_FEEDBACK_FLOWS"
        using F(4) that length_filter_le order_trans by blast
      show "distinct (map fb_flow flows)" if "distinct (map fb_flow (policy_flows p))"
        using F(5) that distinct_map_filter by blast
      show "set flows \<subseteq> insert ?new (set (policy_flows p))" using F(3) by auto
      show "\<exists>s'. (s' \<in> set flows \<or> s' = ?new) \<and> s\<lparr>last_seen := ov_now e\<rparr> = s'\<lparr>last_seen := ov_now e\<rparr>"
        using F(1) by (intro exI [of _ s]) (simp add: s_def)
    qed (use F in simp_all)
  qed
qed

lemma feedback_decide_flows:
  assumes "feedback_decide p flows i s len ceiling now rtt = (d, p')"
  shows "\<exists>s'. policy_flows p' = flows[i := s'] \<and> fb_flow s' = fb_flow s"
  using assms by (fastforce simp: feedback_decide_def Let_def split: if_splits)

lemma feedback_decide_send:
  assumes "feedback_decide p flows i s len ceiling now rtt = (d, p')"
  shows "if send_icmp d
    then last_feedback p' = Some now \<and> (\<forall>t. last_feedback p = Some t \<longrightarrow> t + ICMP_INTERVAL \<le> now)
    else last_feedback p' = last_feedback p"
  using assms
  by (auto simp: feedback_decide_def Let_def default_decision_def ICMP_INTERVAL_def split: if_splits option.splits)

lemma policy_step_send:
  assumes "policy_step p e = (d, p')"
  shows "if send_icmp d
    then last_feedback p' = Some (ov_now e) \<and> (\<forall>t. last_feedback p = Some t \<longrightarrow> t + ICMP_INTERVAL \<le> ov_now e)
    else last_feedback p' = last_feedback p"
  using assms
proof (cases rule: policy_step_cases)
  case (handled flows i s)
  from feedback_decide_send [OF handled(1) [symmetric]] show ?thesis .
qed (simp add: default_decision_def)

subsection \<open>The policy's invariant\<close>

definition policy_inv :: "feedback_policy \<Rightarrow> bool" where
  "policy_inv p \<longleftrightarrow> length (policy_flows p) \<le> MAX_FEEDBACK_FLOWS \<and> distinct (map fb_flow (policy_flows p))"

lemma policy_step_inv: "policy_inv p \<Longrightarrow> policy_inv (snd (policy_step p e))"
proof -
  assume inv: "policy_inv p"
  obtain d p' where st: "policy_step p e = (d, p')" by fastforce
  from st show ?thesis
  proof (cases rule: policy_step_cases)
    case (handled flows i s)
    from feedback_decide_flows [OF handled(1) [symmetric]] obtain s' where
      p': "policy_flows p' = flows[i := s']" "fb_flow s' = fb_flow s" by blast
    have "map fb_flow (flows[i := s']) = map fb_flow flows"
      using handled(2,3,4) p'(2) by (metis list_update_id map_update nth_map)
    then show ?thesis using inv handled(6,7) st by (simp add: policy_inv_def p')
  qed (use inv st in simp)
qed

subsection \<open>Properties of the policy\<close>

text \<open>the policy remembers at most 128 flows, each once, after any sequence of oversized
  packets.\<close>

theorem feedback_flows_bounded:
  "policy_inv (policy_after new_policy events)"
proof -
  have "policy_inv p \<Longrightarrow> policy_inv (policy_after p events)" for p
    by (induction events arbitrary: p) (simp_all add: policy_step_inv)
  moreover have "policy_inv new_policy" by (simp add: policy_inv_def new_policy_def)
  ultimately show ?thesis by blast
qed

text \<open>over all flows of a connection, ICMP responses are requested at least 100 ms apart, in
  any run and whatever times it observes.\<close>

theorem icmp_rate_limited:
  "sorted_wrt (\<lambda>(_, earlier) (_, later). earlier + ICMP_INTERVAL \<le> later) (icmp_sent p events)"
proof -
  have "sorted_wrt (\<lambda>(_, earlier) (_, later). earlier + ICMP_INTERVAL \<le> later) (icmp_sent p es)
      \<and> (\<forall>t. last_feedback p = Some t \<longrightarrow> (\<forall>(_, u) \<in> set (icmp_sent p es). t + ICMP_INTERVAL \<le> u))" for es p
  proof (induction es arbitrary: p)
    case (Cons e es)
    obtain d p' where st: "policy_step p e = (d, p')" by fastforce
    note send = policy_step_send [OF st]
    show ?case
    proof (cases "send_icmp d")
      case True
      with send Cons.IH [of p'] st show ?thesis by (fastforce simp: sent_by_def)
    next
      case False
      with send Cons.IH [of p'] st show ?thesis by (simp add: sent_by_def)
    qed
  qed simp
  then show ?thesis by blast
qed

text \<open>The feedback a flow is credited with has been sent.\<close>

definition sends_of :: "flow_key \<Rightarrow> (flow_key \<times> instant) list \<Rightarrow> instant list" where
  "sends_of flow hist = map snd (filter (\<lambda>(f, _). f = flow) hist)"

definition credited :: "(flow_key \<times> instant) list \<Rightarrow> flow_feedback \<Rightarrow> bool" where
  "credited hist s \<longleftrightarrow> unat (feedback_requests s) \<le> length (sends_of (fb_flow s) hist)
     \<and> (\<forall>t. first_feedback s = Some t \<longrightarrow> t \<in> set (sends_of (fb_flow s) hist))"

lemma sends_of_append [simp]: "sends_of flow (xs @ ys) = sends_of flow xs @ sends_of flow ys"
  by (simp add: sends_of_def)

lemma credited_more: "credited hist s \<Longrightarrow> credited (hist @ more_hist) s"
  by (auto simp: credited_def)

lemma credited_new: "credited hist (flow_feedback_new flow mtu now)"
  by (simp add: credited_def flow_feedback_new_def)

lemma credited_seen [simp]: "credited hist (s\<lparr>last_seen := now\<rparr>) = credited hist s"
  by (simp add: credited_def)

lemma unat_min_Suc: "unat (min (w + 1) v :: 'a::len word) \<le> Suc (unat w)"
proof -
  have "min (w + 1) v \<le> w + 1" by simp
  then have "unat (min (w + 1) v) \<le> unat (w + 1)" by (simp only: word_le_nat_alt)
  also have "\<dots> \<le> Suc (unat w)"
    by (simp add: unat_word_ariths mod_less_eq_dividend)
  finally show ?thesis .
qed

lemma credited_send:
  assumes "credited hist s"
  shows "credited (hist @ [(fb_flow s, now)])
    (s\<lparr>first_feedback := Some (case first_feedback s of None \<Rightarrow> now | Some t \<Rightarrow> t),
       feedback_requests := min (feedback_requests s + 1) MIN_FEEDBACK_REQUESTS\<rparr>)"
  using assms unat_min_Suc [of "feedback_requests s" MIN_FEEDBACK_REQUESTS]
  by (auto simp: credited_def sends_of_def split: option.splits)

lemma feedback_decide_credited:
  assumes "feedback_decide p flows i s len ceiling now rtt = (d, p')"
    and "credited hist s" and "\<forall>s \<in> set flows. credited hist s"
  shows "\<forall>s' \<in> set (policy_flows p'). credited (hist @ (if send_icmp d then [(fb_flow s, now)] else [])) s'"
    and "use_capsule d \<Longrightarrow> len \<le> ceiling \<and> 3 \<le> length (sends_of (fb_flow s) hist)
      \<and> (\<exists>t \<in> set (sends_of (fb_flow s) hist). t + secs 2 \<le> now)"
proof -
  have upd: "x \<in> set (flows[i := y]) \<Longrightarrow> x = y \<or> x \<in> set flows" for x y
    using set_update_subset_insert by fastforce
  show "\<forall>s' \<in> set (policy_flows p'). credited (hist @ (if send_icmp d then [(fb_flow s, now)] else [])) s'"
    using assms credited_send [OF assms(2), of now] credited_more
    by (fastforce simp: feedback_decide_def Let_def default_decision_def split: if_splits dest!: upd)
  assume "use_capsule d"
  then have c: "len \<le> ceiling" "feedback_requests s \<ge> MIN_FEEDBACK_REQUESTS"
      "case first_feedback s of None \<Rightarrow> False | Some t \<Rightarrow> now - t \<ge> grace_of rtt"
    using assms(1) by (auto simp: feedback_decide_def Let_def default_decision_def split: if_splits)
  then obtain t where t: "first_feedback s = Some t" "grace_of rtt \<le> now - t" by (auto split: option.splits)
  have "3 \<le> unat (feedback_requests s)"
    using c(2) by (simp add: MIN_FEEDBACK_REQUESTS_def word_le_nat_alt)
  moreover have "t + secs 2 \<le> now" using t(2) by (simp add: grace_of_def max_def split: if_splits)
  ultimately show "len \<le> ceiling \<and> 3 \<le> length (sends_of (fb_flow s) hist)
      \<and> (\<exists>t \<in> set (sends_of (fb_flow s) hist). t + secs 2 \<le> now)"
    using assms(2) c(1) t(1) by (auto simp: credited_def)
qed

lemma policy_step_credited:
  assumes "policy_step p e = (d, p')" and "\<forall>s \<in> set (policy_flows p). credited hist s"
  shows "\<forall>s \<in> set (policy_flows p'). credited (hist @ sent_by e d) s"
    and "use_capsule d \<Longrightarrow> length (ov_packet e) \<le> ov_ceiling e \<and> 3 \<le> length (sends_of (ov_flow e) hist)
      \<and> (\<exists>t \<in> set (sends_of (ov_flow e) hist). t + secs 2 \<le> ov_now e)"
proof -
  have "(\<forall>s \<in> set (policy_flows p'). credited (hist @ sent_by e d) s) \<and>
    (use_capsule d \<longrightarrow> length (ov_packet e) \<le> ov_ceiling e \<and> 3 \<le> length (sends_of (ov_flow e) hist)
      \<and> (\<exists>t \<in> set (sends_of (ov_flow e) hist). t + secs 2 \<le> ov_now e))"
    using assms(1)
  proof (cases rule: policy_step_cases)
    case (handled flows i s)
    have all: "\<forall>s \<in> set flows. credited hist s"
      using handled(5) assms(2) credited_new by blast
    then have "credited hist s" using handled(8) credited_new by auto
    note D = feedback_decide_credited [OF handled(1) [symmetric] this all, unfolded handled(3)]
    from D show ?thesis by (simp add: sent_by_def)
  qed (use assms(2) in \<open>simp add: sent_by_def default_decision_def\<close>)
  then show "\<forall>s \<in> set (policy_flows p'). credited (hist @ sent_by e d) s"
    and "use_capsule d \<Longrightarrow> length (ov_packet e) \<le> ov_ceiling e \<and> 3 \<le> length (sends_of (ov_flow e) hist)
      \<and> (\<exists>t \<in> set (sends_of (ov_flow e) hist). t + secs 2 \<le> ov_now e)" by blast+
qed

lemma policy_after_credited:
  "\<forall>s \<in> set (policy_flows p). credited hist s \<Longrightarrow>
    \<forall>s \<in> set (policy_flows (policy_after p es)). credited (hist @ icmp_sent p es) s"
proof (induction es arbitrary: p hist)
  case (Cons e es)
  obtain d p' where st: "policy_step p e = (d, p')" by fastforce
  from Cons.IH [OF policy_step_credited(1) [OF st Cons.prems]] st show ?case by simp
qed simp

text \<open>an oversized packet is sent as a capsule only when it fits the negotiated interface MTU
  and its flow has ignored at least three ICMP responses requested earlier in the connection, one
  of them at least two seconds ago.\<close>

theorem capsule_needs_feedback:
  assumes "use_capsule (fst (policy_step (policy_after new_policy events) e))"
  shows "length (ov_packet e) \<le> ov_ceiling e
    \<and> 3 \<le> length (sends_of (ov_flow e) (icmp_sent new_policy events))
    \<and> (\<exists>t \<in> set (sends_of (ov_flow e) (icmp_sent new_policy events)). t + secs 2 \<le> ov_now e)"
proof -
  have "\<forall>s \<in> set (policy_flows (policy_after new_policy events)). credited ([] @ icmp_sent new_policy events) s"
    by (rule policy_after_credited) (simp add: new_policy_def)
  then show ?thesis
    using assms policy_step_credited(2) [of "policy_after new_policy events" e] by (cases "policy_step (policy_after new_policy events) e") auto
qed

text \<open>Four oversized packets of one flow, the last one 2.5 seconds after the first.\<close>

definition sample_events :: "oversized list" where
  "sample_events = map (\<lambda>t. \<lparr>ov_packet = df_packet, ov_mtu = 68, ov_ceiling = 200, ov_now = millis t,
     ov_rtt = millis 20\<rparr>) [0, 100, 150, 200, 2500]"

theorem capsule_needs_feedback_witness:
  "use_capsule (fst (policy_step (policy_after new_policy (take 4 sample_events)) (sample_events ! 4)))
    \<and> 3 \<le> length (sends_of (ov_flow (sample_events ! 4)) (icmp_sent new_policy (take 4 sample_events)))"
proof -
  have "use_capsule (fst (policy_step (policy_after new_policy (take 4 sample_events)) (sample_events ! 4)))"
    by code_simp
  with capsule_needs_feedback [OF this] show ?thesis by blast
qed

end
