(* ===== verification/Fifo_Spec.thy ===== *)
theory Fifo_Spec
  imports Prelude "HOL-Library.Sublist"
begin

text \<open>
  The contract that the packet queues of both ends of a tunnel fulfil. A step of a queue accepts
  some packets at the back and delivers some from the front; it may drop packets, but it neither
  invents, duplicates nor reorders them. The contract is stated for one step; what a client of a
  queue relies on is the same for a whole run.
\<close>

fun run_steps :: "('q \<Rightarrow> 'op \<Rightarrow> 'q) \<Rightarrow> 'q \<Rightarrow> 'op list \<Rightarrow> 'q" where
  "run_steps f q [] = q"
| "run_steps f q (op # ops) = run_steps f (f q op) ops"

text \<open>What the steps of a run yield, one after the other.\<close>

fun run_outputs :: "('q \<Rightarrow> 'op \<Rightarrow> 'q) \<Rightarrow> ('q \<Rightarrow> 'op \<Rightarrow> 'a list) \<Rightarrow> 'q \<Rightarrow> 'op list \<Rightarrow> 'a list" where
  "run_outputs f out q [] = []"
| "run_outputs f out q (op # ops) = out q op @ run_outputs f out (f q op) ops"

lemma run_steps_append: "run_steps f q (xs @ ys) = run_steps f (run_steps f q xs) ys"
  by (induction xs arbitrary: q) auto

lemma run_steps_invariant:
  "(\<And>q op. I q \<Longrightarrow> I (f q op)) \<Longrightarrow> I q \<Longrightarrow> I (run_steps f q ops)"
  by (induction ops arbitrary: q) auto

lemma subseq_append_mono: "subseq a b \<Longrightarrow> subseq c d \<Longrightarrow> subseq (a @ c) (b @ d)"
  by (rule list_emb_append_mono)

lemma subseq_remove_nth: "subseq (remove_nth i xs) xs"
proof -
  have "subseq (take i xs @ drop (Suc i) xs) (take i xs @ drop i xs)"
  proof (rule subseq_append_mono)
    have "drop (Suc i) xs = drop 1 (drop i xs)" by simp
    then show "subseq (drop (Suc i) xs) (drop i xs)"
      by (metis append_take_drop_id list_emb_append2 subseq_order.order_refl)
  qed simp
  then show ?thesis by (simp add: remove_nth_def)
qed

lemma subseq_set: "subseq xs ys \<Longrightarrow> set xs \<subseteq> set ys"
  by (induction rule: list_emb.induct) auto

locale packet_fifo =
  fixes do_op :: "'q \<Rightarrow> 'op \<Rightarrow> 'q"
    and accepts :: "'q \<Rightarrow> 'op \<Rightarrow> 'a list"
    and delivers :: "'q \<Rightarrow> 'op \<Rightarrow> 'a list"
    and contents :: "'q \<Rightarrow> 'a list"
    and invar :: "'q \<Rightarrow> bool"
  assumes step_invar: "invar q \<Longrightarrow> invar (do_op q op)"
    and step_in_order:
      "invar q \<Longrightarrow> subseq (delivers q op @ contents (do_op q op)) (contents q @ accepts q op)"
begin

lemma run_invar: "invar q \<Longrightarrow> invar (run_steps do_op q ops)"
  by (rule run_steps_invariant) (rule step_invar)

lemma run_in_order:
  "invar q \<Longrightarrow> subseq (run_outputs do_op delivers q ops @ contents (run_steps do_op q ops))
    (contents q @ run_outputs do_op accepts q ops)"
proof (induction ops arbitrary: q)
  case (Cons op ops)
  let ?q = "do_op q op"
  let ?out = "run_outputs do_op delivers ?q ops @ contents (run_steps do_op ?q ops)"
  let ?in = "run_outputs do_op accepts ?q ops"
  have "subseq (delivers q op @ ?out) (delivers q op @ contents ?q @ ?in)"
    by (rule subseq_append_mono) (simp_all add: Cons.IH [OF step_invar [OF Cons.prems]])
  moreover have "subseq ((delivers q op @ contents ?q) @ ?in) ((contents q @ accepts q op) @ ?in)"
    by (rule subseq_append_mono) (simp_all add: step_in_order [OF Cons.prems])
  ultimately have "subseq (delivers q op @ ?out) ((contents q @ accepts q op) @ ?in)"
    unfolding append.assoc by (rule subseq_order.trans)
  then show ?case by simp
qed simp

lemma deliveries_in_order:
  assumes "invar q" and "contents q = []"
  shows "subseq (run_outputs do_op delivers q ops) (run_outputs do_op accepts q ops)"
proof -
  let ?out = "run_outputs do_op delivers q ops"
  have "subseq (?out @ []) (?out @ contents (run_steps do_op q ops))"
    by (rule subseq_append_mono) simp_all
  then show ?thesis
    using run_in_order [OF assms(1), of ops] assms(2) by (metis append_Nil append_Nil2 subseq_order.trans)
qed

end

end
