(* ===== verification/Upload_Queue.thy ===== *)
theory Upload_Queue
  imports Fifo_Spec Wire_Ip
begin

text \<open>
  The client's upload queue of an HTTP/2 lane, \<open>porta-client/src/tunnel/h2_queue.rs\<close>. The record
  holds the state behind the mutex, the configuration, the statistics and the wake-up permit of
  \<open>ready\<close>. \<open>take_batch\<close> is modelled one pass at a time: a pass returns a batch, reports that the
  queue is closed, or waits. The counters of drops are \<open>u64\<close> words, the byte gauge an integer.
\<close>

record upload_config =
  up_max_packets :: nat
  up_max_bytes :: nat
  up_tcp_max_age :: duration
  up_datagram_max_age :: duration
  up_control_max_age :: duration

definition default_upload_config :: upload_config where
  "default_upload_config = \<lparr>up_max_packets = 96, up_max_bytes = 131072, up_tcp_max_age = millis 500,
     up_datagram_max_age = millis 150, up_control_max_age = millis 250\<rparr>"

record upload_stats =
  oldest_drops :: u64
  full_drops :: u64
  tail_drops :: u64
  expired_drops :: u64
  current_bytes :: int
  high_water :: nat

record upload_packet =
  up_data :: bytes
  up_class :: packet_class
  up_enqueued :: instant

record upload_queue =
  u_items :: "upload_packet list"
  u_bytes :: nat
  u_closed :: bool
  u_active :: bool
  u_config :: upload_config
  u_stats :: upload_stats
  u_ready :: bool

datatype upload_error = Unavailable bytes | Full bytes

definition upload_new :: "upload_config \<Rightarrow> upload_queue" where
  "upload_new config =
    \<lparr>u_items = [], u_bytes = 0, u_closed = False, u_active = True, u_config = config,
     u_stats = \<lparr>oldest_drops = 0, full_drops = 0, tail_drops = 0, expired_drops = 0,
                current_bytes = 0, high_water = 0\<rparr>,
     u_ready = False\<rparr>"

subsection \<open>Accounting\<close>

definition adjust_bytes_locked :: "upload_queue \<Rightarrow> int \<Rightarrow> upload_queue" where
  "adjust_bytes_locked q delta =
    (let q = q\<lparr>u_bytes := nat (int (u_bytes q) + delta)\<rparr>;
         stats = u_stats q;
         current = current_bytes stats + delta
     in if current < 0 then q\<lparr>u_stats := stats\<lparr>current_bytes := 0\<rparr>\<rparr>
        else q\<lparr>u_stats := stats\<lparr>current_bytes := current, high_water := max (high_water stats) (nat current)\<rparr>\<rparr>)"

definition clear_locked :: "upload_queue \<Rightarrow> upload_queue" where
  "clear_locked q = q\<lparr>u_items := [], u_bytes := 0, u_stats := (u_stats q)\<lparr>current_bytes := 0\<rparr>\<rparr>"

definition record_rejected :: "upload_queue \<Rightarrow> packet_class \<Rightarrow> upload_queue" where
  "record_rejected q cls =
    (let stats = u_stats q
     in if cls = Tcp then q\<lparr>u_stats := stats\<lparr>tail_drops := tail_drops stats + 1\<rparr>\<rparr>
        else q\<lparr>u_stats := stats\<lparr>full_drops := full_drops stats + 1\<rparr>\<rparr>)"

definition upload_max_age :: "upload_config \<Rightarrow> packet_class \<Rightarrow> duration" where
  "upload_max_age config cls =
    (case cls of Tcp \<Rightarrow> up_tcp_max_age config | Control \<Rightarrow> up_control_max_age config
       | Datagram \<Rightarrow> up_datagram_max_age config)"

definition upload_alive :: "upload_config \<Rightarrow> instant \<Rightarrow> upload_packet \<Rightarrow> bool" where
  "upload_alive config now item \<longleftrightarrow> now - up_enqueued item < upload_max_age config (up_class item)"

text \<open>The removal of one item with its accounting, shared by expiry and eviction.\<close>

definition remove_item :: "upload_queue \<Rightarrow> nat \<Rightarrow> upload_queue" where
  "remove_item q index =
    (let removed = u_items q ! index
     in adjust_bytes_locked (q\<lparr>u_items := remove_nth index (u_items q)\<rparr>) (- int (length (up_data removed))))"

definition count_oldest :: "upload_queue \<Rightarrow> upload_queue" where
  "count_oldest q = q\<lparr>u_stats := (u_stats q)\<lparr>oldest_drops := oldest_drops (u_stats q) + 1\<rparr>\<rparr>"

definition count_expired :: "upload_queue \<Rightarrow> upload_queue" where
  "count_expired q = q\<lparr>u_stats := (u_stats q)\<lparr>expired_drops := expired_drops (u_stats q) + 1\<rparr>\<rparr>"

lemma adjust_bytes_locked_simps [simp]:
  "u_items (adjust_bytes_locked q d) = u_items q" "u_bytes (adjust_bytes_locked q d) = nat (int (u_bytes q) + d)"
  "u_closed (adjust_bytes_locked q d) = u_closed q" "u_active (adjust_bytes_locked q d) = u_active q"
  "u_config (adjust_bytes_locked q d) = u_config q" "u_ready (adjust_bytes_locked q d) = u_ready q"
  "current_bytes (u_stats (adjust_bytes_locked q d)) = max 0 (current_bytes (u_stats q) + d)"
  by (simp_all add: adjust_bytes_locked_def Let_def)

lemma count_simps [simp]:
  "u_items (count_oldest q) = u_items q" "u_bytes (count_oldest q) = u_bytes q"
  "u_closed (count_oldest q) = u_closed q" "u_active (count_oldest q) = u_active q"
  "u_config (count_oldest q) = u_config q"
  "current_bytes (u_stats (count_oldest q)) = current_bytes (u_stats q)"
  "u_items (count_expired q) = u_items q" "u_bytes (count_expired q) = u_bytes q"
  "u_closed (count_expired q) = u_closed q" "u_active (count_expired q) = u_active q"
  "u_config (count_expired q) = u_config q"
  "current_bytes (u_stats (count_expired q)) = current_bytes (u_stats q)"
  "u_items (record_rejected q c) = u_items q" "u_bytes (record_rejected q c) = u_bytes q"
  "u_closed (record_rejected q c) = u_closed q" "u_active (record_rejected q c) = u_active q"
  "u_config (record_rejected q c) = u_config q"
  "current_bytes (u_stats (record_rejected q c)) = current_bytes (u_stats q)"
  by (simp_all add: count_oldest_def count_expired_def record_rejected_def Let_def)

lemma remove_item_simps [simp]:
  "u_items (remove_item q i) = remove_nth i (u_items q)" "u_closed (remove_item q i) = u_closed q"
  "u_active (remove_item q i) = u_active q" "u_config (remove_item q i) = u_config q"
  by (simp_all add: remove_item_def Let_def)

subsection \<open>Operations\<close>

function upload_drop_expired :: "upload_queue \<Rightarrow> instant \<Rightarrow> nat \<Rightarrow> upload_queue" where
  "upload_drop_expired q now index =
    (if index < length (u_items q) then
       if upload_alive (u_config q) now (u_items q ! index) then upload_drop_expired q now (index + 1)
       else upload_drop_expired (count_expired (remove_item q index)) now index
     else q)"
  by pat_completeness auto
termination
  by (relation "measure (\<lambda>(q, _, index). length (u_items q) - index)") (auto simp: length_remove_nth)

declare upload_drop_expired.simps [simp del]

definition activate :: "upload_queue \<Rightarrow> upload_queue" where
  "activate q = (if \<not> u_closed q then q\<lparr>u_active := True\<rparr> else q)"

definition deactivate_and_clear :: "upload_queue \<Rightarrow> upload_queue" where
  "deactivate_and_clear q = clear_locked (q\<lparr>u_active := False\<rparr>)"

definition upload_close :: "upload_queue \<Rightarrow> upload_queue" where
  "upload_close q =
    (if u_closed q then q else clear_locked (q\<lparr>u_closed := True, u_active := False\<rparr>))"

definition fits_locked :: "upload_queue \<Rightarrow> nat \<Rightarrow> bool" where
  "fits_locked q packet_bytes \<longleftrightarrow> length (u_items q) < up_max_packets (u_config q)
     \<and> u_bytes q + packet_bytes \<le> up_max_bytes (u_config q)"

definition oldest_replaceable_locked :: "upload_queue \<Rightarrow> packet_class \<Rightarrow> nat option" where
  "oldest_replaceable_locked q incoming =
    (case position (\<lambda>item. up_class item = Datagram) (u_items q) of
       Some i \<Rightarrow> Some i
     | None \<Rightarrow>
         if incoming = Control then position (\<lambda>item. up_class item = Control) (u_items q) else None)"

lemma oldest_replaceable_locked_Some:
  "oldest_replaceable_locked q c = Some i \<Longrightarrow> i < length (u_items q)
    \<and> (up_class (u_items q ! i) = Datagram \<or> c = Control \<and> up_class (u_items q ! i) = Control)"
  by (auto simp: oldest_replaceable_locked_def dest!: position_Some split: option.splits if_splits)

text \<open>The eviction loop of \<open>enqueue\<close>; \<open>False\<close> when no victim is left.\<close>

function upload_make_room :: "upload_queue \<Rightarrow> nat \<Rightarrow> packet_class \<Rightarrow> bool \<times> upload_queue" where
  "upload_make_room q packet_bytes cls =
    (if fits_locked q packet_bytes then (True, q)
     else (case oldest_replaceable_locked q cls of
             None \<Rightarrow> (False, record_rejected q cls)
           | Some victim \<Rightarrow> upload_make_room (count_oldest (remove_item q victim)) packet_bytes cls))"
  by pat_completeness auto
termination
  by (relation "measure (\<lambda>(q, _, _). length (u_items q))")
    (auto dest!: oldest_replaceable_locked_Some simp: length_remove_nth)

declare upload_make_room.simps [simp del]

definition upload_enqueue ::
  "upload_queue \<Rightarrow> bytes \<Rightarrow> packet_metadata \<Rightarrow> instant \<Rightarrow> (upload_error + unit) \<times> upload_queue" where
  "upload_enqueue q packet metadata now =
    (if u_closed q \<or> \<not> u_active q then (Err (Unavailable packet), q)
     else
       let q = upload_drop_expired q now 0
       in if length packet > up_max_bytes (u_config q) \<or> up_max_packets (u_config q) = 0
       then (Err (Full packet), record_rejected q (meta_class metadata))
       else (case upload_make_room q (length packet) (meta_class metadata) of
               (False, q) \<Rightarrow> (Err (Full packet), q)
             | (True, q) \<Rightarrow>
                 let was_empty = (u_items q = []);
                     q = adjust_bytes_locked q (int (length packet));
                     q = q\<lparr>u_items := u_items q @
                       [\<lparr>up_data = packet, up_class = meta_class metadata, up_enqueued = now\<rparr>]\<rparr>
                 in (Ok (), if was_empty then q\<lparr>u_ready := True\<rparr> else q)))"

text \<open>The inner loop of \<open>take_batch\<close>: the items left, the batch and its bytes.\<close>

fun batch_loop ::
  "upload_packet list \<Rightarrow> bytes list \<Rightarrow> nat \<Rightarrow> nat \<Rightarrow> nat \<Rightarrow> upload_packet list \<times> bytes list \<times> nat" where
  "batch_loop [] batch used limit byte_limit = ([], batch, used)"
| "batch_loop (item # items) batch used limit byte_limit =
    (if length batch < limit then
       if batch \<noteq> [] \<and> used + length (up_data item) > byte_limit then (item # items, batch, used)
       else batch_loop items (batch @ [up_data item]) (used + length (up_data item)) limit byte_limit
     else (item # items, batch, used))"

datatype batch_poll = Batch "bytes list" | Ended | Waiting

definition take_batch_pass :: "upload_queue \<Rightarrow> instant \<Rightarrow> nat \<Rightarrow> nat \<Rightarrow> batch_poll \<times> upload_queue" where
  "take_batch_pass q now limit byte_limit =
    (let q = upload_drop_expired q now 0
     in if u_items q \<noteq> [] then
       (case batch_loop (u_items q) [] 0 limit byte_limit of
          (items, batch, used) \<Rightarrow> (Batch batch, adjust_bytes_locked (q\<lparr>u_items := items\<rparr>) (- int used)))
     else if u_closed q then (Ended, q)
     else (Waiting, q))"

definition queued_bytes_at :: "upload_queue \<Rightarrow> instant \<Rightarrow> nat \<times> upload_queue" where
  "queued_bytes_at q now = (let q = upload_drop_expired q now 0 in (u_bytes q, q))"

subsection \<open>The invariant\<close>

definition upload_bytes :: "upload_packet list \<Rightarrow> nat" where
  "upload_bytes items = sum_list (map (length \<circ> up_data) items)"

definition upload_accounted :: "upload_queue \<Rightarrow> bool" where
  "upload_accounted q \<longleftrightarrow> u_bytes q = upload_bytes (u_items q) \<and> current_bytes (u_stats q) = int (u_bytes q)"

definition upload_inv :: "upload_queue \<Rightarrow> bool" where
  "upload_inv q \<longleftrightarrow> upload_accounted q \<and> length (u_items q) \<le> up_max_packets (u_config q)
     \<and> u_bytes q \<le> up_max_bytes (u_config q) \<and> (u_closed q \<longrightarrow> \<not> u_active q)
     \<and> (\<not> u_active q \<longrightarrow> u_items q = [])"

lemma upload_bytes_simps [simp]:
  "upload_bytes [] = 0" "upload_bytes (x # xs) = length (up_data x) + upload_bytes xs"
  "upload_bytes (xs @ ys) = upload_bytes xs + upload_bytes ys"
  by (simp_all add: upload_bytes_def)

lemma upload_bytes_remove_nth:
  "i < length xs \<Longrightarrow> upload_bytes (remove_nth i xs) + length (up_data (xs ! i)) = upload_bytes xs"
proof -
  assume "i < length xs"
  then have "xs = take i xs @ xs ! i # drop (Suc i) xs" by (rule id_take_nth_drop)
  then have "upload_bytes xs = upload_bytes (take i xs @ xs ! i # drop (Suc i) xs)" by simp
  then show ?thesis by (simp add: remove_nth_def)
qed

lemma upload_accounted_remove:
  "upload_accounted q \<Longrightarrow> i < length (u_items q) \<Longrightarrow> upload_accounted (remove_item q i)"
  using upload_bytes_remove_nth [of i "u_items q"]
  by (auto simp: upload_accounted_def remove_item_def Let_def)

lemma upload_accounted_count [simp]:
  "upload_accounted (count_oldest q) = upload_accounted q"
  "upload_accounted (count_expired q) = upload_accounted q"
  "upload_accounted (record_rejected q c) = upload_accounted q"
  by (simp_all add: upload_accounted_def)

lemma upload_drop_expired_from:
  "upload_accounted q \<Longrightarrow> upload_accounted (upload_drop_expired q now i)
    \<and> u_items (upload_drop_expired q now i) =
      take i (u_items q) @ filter (upload_alive (u_config q) now) (drop i (u_items q))
    \<and> u_config (upload_drop_expired q now i) = u_config q \<and> u_closed (upload_drop_expired q now i) = u_closed q
    \<and> u_active (upload_drop_expired q now i) = u_active q"
proof (induction q now i rule: upload_drop_expired.induct)
  case (1 q now i)
  let ?item = "u_items q ! i"
  consider "\<not> i < length (u_items q)" | "i < length (u_items q)" "upload_alive (u_config q) now ?item"
    | "i < length (u_items q)" "\<not> upload_alive (u_config q) now ?item" by blast
  then show ?case
  proof cases
    case 2
    then have d: "drop i (u_items q) = ?item # drop (Suc i) (u_items q)" by (simp add: Cons_nth_drop_Suc)
    from 2 "1.IH"(1) [OF 2] "1.prems" show ?thesis
      by (simp add: upload_drop_expired.simps [of q now i] d take_Suc_conv_app_nth)
  next
    case 3
    then have d: "drop i (u_items q) = ?item # drop (Suc i) (u_items q)" by (simp add: Cons_nth_drop_Suc)
    from 3 "1.IH"(2) [OF 3] upload_accounted_remove [OF "1.prems" 3(1)] show ?thesis
      by (simp add: upload_drop_expired.simps [of q now i] d remove_nth_def)
  qed (use "1.prems" in \<open>simp add: upload_drop_expired.simps [of q now i]\<close>)
qed

lemmas upload_expire = upload_drop_expired_from [where i = 0, simplified]

definition upload_replaceable :: "packet_class \<Rightarrow> upload_packet \<Rightarrow> bool" where
  "upload_replaceable incoming item \<longleftrightarrow>
    up_class item = Datagram \<or> incoming = Control \<and> up_class item = Control"

lemma upload_victim_None:
  assumes "oldest_replaceable_locked q cls = None"
  shows "\<forall>x \<in> set (u_items q). \<not> upload_replaceable cls x"
proof -
  have "position (\<lambda>item. up_class item = Datagram) (u_items q) = None"
    using assms by (auto simp: oldest_replaceable_locked_def split: option.splits)
  moreover from this have "cls = Control \<longrightarrow> position (\<lambda>item. up_class item = Control) (u_items q) = None"
    using assms unfolding oldest_replaceable_locked_def by (simp split: if_splits)
  ultimately show ?thesis by (auto simp: upload_replaceable_def position_None)
qed

lemma upload_make_room:
  assumes "upload_make_room q n cls = (ok, q')" and "upload_accounted q"
  shows "upload_accounted q' \<and> u_config q' = u_config q \<and> u_closed q' = u_closed q \<and> u_active q' = u_active q
    \<and> subseq (u_items q') (u_items q) \<and> (ok \<longleftrightarrow> fits_locked q' n)
    \<and> filter (\<lambda>x. \<not> upload_replaceable cls x) (u_items q') = filter (\<lambda>x. \<not> upload_replaceable cls x) (u_items q)
    \<and> (\<not> ok \<longrightarrow> (\<forall>x \<in> set (u_items q'). \<not> upload_replaceable cls x))"
  using assms
proof (induction q n cls rule: upload_make_room.induct)
  case (1 q n cls)
  show ?case
  proof (cases "fits_locked q n")
    case True
    with "1.prems" show ?thesis by (simp add: upload_make_room.simps [of q n cls])
  next
    case no: False
    show ?thesis
    proof (cases "oldest_replaceable_locked q cls")
      case None
      then show ?thesis using "1.prems" no upload_victim_None [OF None]
        by (auto simp: upload_make_room.simps [of q n cls] fits_locked_def)
    next
      case (Some i)
      let ?q = "count_oldest (remove_item q i)"
      have i: "i < length (u_items q)" "upload_replaceable cls (u_items q ! i)"
        using oldest_replaceable_locked_Some [OF Some] by (auto simp: upload_replaceable_def)
      have "upload_make_room ?q n cls = (ok, q')"
        using "1.prems"(1) no Some by (simp add: upload_make_room.simps [of q n cls])
      note IH = "1.IH" [OF no Some this]
      have "upload_accounted ?q" using upload_accounted_remove [OF "1.prems"(2) i(1)] by simp
      note IH = IH [OF this]
      have items: "u_items ?q = remove_nth i (u_items q)" "u_config ?q = u_config q"
        "u_closed ?q = u_closed q" "u_active ?q = u_active q" by simp_all
      have sub: "subseq (u_items q') (u_items q)"
        using IH subseq_remove_nth [of i "u_items q"] subseq_order.trans unfolding items by blast
      have "filter (\<lambda>x. \<not> upload_replaceable cls x) (remove_nth i (u_items q))
          = filter (\<lambda>x. \<not> upload_replaceable cls x) (u_items q)"
        using filter_remove_nth [OF i(1), of "\<lambda>x. \<not> upload_replaceable cls x"] i(2) by blast
      with IH sub show ?thesis unfolding items by (elim conjE) (intro conjI impI; metis)
    qed
  qed
qed

lemma subseq_upload_bytes: "subseq xs ys \<Longrightarrow> length xs \<le> length ys \<and> upload_bytes xs \<le> upload_bytes ys"
  by (induction rule: list_emb.induct) auto

lemma upload_inv_subseq:
  "upload_inv q \<Longrightarrow> upload_accounted q' \<Longrightarrow> subseq (u_items q') (u_items q) \<Longrightarrow>
    u_config q' = u_config q \<Longrightarrow> u_closed q' = u_closed q \<Longrightarrow> u_active q' = u_active q \<Longrightarrow> upload_inv q'"
  using subseq_upload_bytes [of "u_items q'" "u_items q"] by (auto simp: upload_inv_def upload_accounted_def)

text \<open>Every outcome of \<open>enqueue\<close> on an available queue.\<close>

lemma upload_enqueue_cases:
  assumes "upload_enqueue q packet metadata now = (res, q')" and "upload_inv q" and "u_active q"
  obtains kept where "upload_inv kept" "u_config kept = u_config q"
    "subseq (u_items kept) (filter (upload_alive (u_config q) now) (u_items q))"
    "filter (\<lambda>x. \<not> upload_replaceable (meta_class metadata) x) (u_items kept) =
      filter (\<lambda>x. \<not> upload_replaceable (meta_class metadata) x) (filter (upload_alive (u_config q) now) (u_items q))"
    "res = Ok () \<and> upload_inv q'
        \<and> u_items q' = u_items kept @ [\<lparr>up_data = packet, up_class = meta_class metadata, up_enqueued = now\<rparr>]
      \<or> res = Err (Full packet) \<and> q' = kept"
proof -
  let ?d = "upload_drop_expired q now 0" and ?c = "meta_class metadata"
  have D: "upload_accounted ?d" "u_items ?d = filter (upload_alive (u_config q) now) (u_items q)"
    "u_config ?d = u_config q" "u_closed ?d = u_closed q" "u_active ?d = u_active q"
    using upload_expire [of q now] assms(2) by (simp_all add: upload_inv_def)
  have inv: "upload_inv ?d" using upload_inv_subseq [OF assms(2) D(1)] D by simp
  have opn: "\<not> u_closed q" using assms(2,3) by (auto simp: upload_inv_def)
  show ?thesis
  proof (cases "length packet > up_max_bytes (u_config q) \<or> up_max_packets (u_config q) = 0")
    case True
    then have "res = Err (Full packet)" "q' = record_rejected ?d ?c"
      using assms(1,3) opn D by (simp_all add: upload_enqueue_def Let_def)
    then show ?thesis using inv D by (intro that [of q']) (simp_all add: upload_inv_def)
  next
    case False
    obtain ok kept where m: "upload_make_room ?d (length packet) ?c = (ok, kept)" by fastforce
    note M = upload_make_room [OF m D(1)]
    have kept: "upload_inv kept" using upload_inv_subseq [OF inv] M by simp
    have res: "(res, q') = (if ok then (Ok (), let q = adjust_bytes_locked kept (int (length packet));
          q = q\<lparr>u_items := u_items q @ [\<lparr>up_data = packet, up_class = ?c, up_enqueued = now\<rparr>]\<rparr>
        in if u_items kept = [] then q\<lparr>u_ready := True\<rparr> else q) else (Err (Full packet), kept))"
      using assms(1,3) opn False D m by (auto simp: upload_enqueue_def Let_def)
    show ?thesis
    proof (rule that [of kept])
      show "res = Ok () \<and> upload_inv q'
          \<and> u_items q' = u_items kept @ [\<lparr>up_data = packet, up_class = ?c, up_enqueued = now\<rparr>]
        \<or> res = Err (Full packet) \<and> q' = kept"
        using res M kept D assms(3) opn
        by (auto simp: Let_def upload_inv_def upload_accounted_def fits_locked_def split: if_splits)
    qed (use kept M D in simp_all)
  qed
qed

lemma batch_loop_split:
  "batch_loop items batch used limit byte_limit = (rest, batch', used') \<Longrightarrow>
    \<exists>n. rest = drop n items \<and> batch' = batch @ map up_data (take n items)
      \<and> used' = used + upload_bytes (take n items)
      \<and> (length batch' \<le> limit \<or> batch' = batch)
      \<and> (n = 0 \<longrightarrow> items = [] \<or> \<not> length batch < limit \<or> batch \<noteq> [])
      \<and> (used' \<le> byte_limit \<or> batch' = batch \<or> (batch = [] \<and> length batch' = 1))"
proof (induction items batch used limit byte_limit rule: batch_loop.induct)
  case (2 item items batch used limit byte_limit)
  show ?case
  proof (cases "length batch < limit \<and> \<not> (batch \<noteq> [] \<and> used + length (up_data item) > byte_limit)")
    case False
    with "2.prems" have "rest = item # items" "batch' = batch" "used' = used"
      by (auto split: if_splits)
    with False show ?thesis by (intro exI [of _ 0]) auto
  next
    case True
    then have "batch_loop items (batch @ [up_data item]) (used + length (up_data item)) limit byte_limit = (rest, batch', used')"
      using "2.prems" by (auto split: if_splits)
    from "2.IH" [OF conjunct1 [OF True] conjunct2 [OF True] this] obtain n where
      n: "rest = drop n items" "batch' = (batch @ [up_data item]) @ map up_data (take n items)"
      "used' = used + length (up_data item) + upload_bytes (take n items)"
      "length batch' \<le> limit \<or> batch' = batch @ [up_data item]"
      "used' \<le> byte_limit \<or> batch' = batch @ [up_data item] \<or> (batch @ [up_data item] = [] \<and> length batch' = 1)"
      by blast
    moreover have "length batch' \<le> limit" using n(4) True by auto
    moreover have "used' \<le> byte_limit \<or> batch = [] \<and> length batch' = 1"
    proof (cases "batch' = batch @ [up_data item]")
      case eq: True
      then have "upload_bytes (take n items) = 0"
        using n(2) by (cases "take n items") auto
      then show ?thesis using eq True n(3) by auto
    qed (use n(5) in auto)
    ultimately show ?thesis by (intro exI [of _ "Suc n"]) auto
  qed
qed simp

lemma take_batch_pass_cases:
  assumes "take_batch_pass q now limit byte_limit = (res, q')" and "upload_inv q"
  shows "upload_inv q'"
    "(case res of Batch batch \<Rightarrow> batch | _ \<Rightarrow> []) @ map up_data (u_items q') =
      map up_data (filter (upload_alive (u_config q) now) (u_items q))"
    "case res of Batch batch \<Rightarrow> (0 < limit \<longrightarrow> batch \<noteq> []) \<and> length batch \<le> limit
        \<and> (sum_list (map length batch) \<le> byte_limit \<or> length batch \<le> 1)
      | Ended \<Rightarrow> u_closed q
      | Waiting \<Rightarrow> \<not> u_closed q \<and> filter (upload_alive (u_config q) now) (u_items q) = []"
proof -
  let ?d = "upload_drop_expired q now 0"
  have D: "upload_accounted ?d" "u_items ?d = filter (upload_alive (u_config q) now) (u_items q)"
    "u_config ?d = u_config q" "u_closed ?d = u_closed q" "u_active ?d = u_active q"
    using upload_expire [of q now] assms(2) by (simp_all add: upload_inv_def)
  have inv: "upload_inv ?d" using upload_inv_subseq [OF assms(2) D(1)] D by simp
  have "upload_inv q' \<and>
    (case res of Batch batch \<Rightarrow> batch | _ \<Rightarrow> []) @ map up_data (u_items q') = map up_data (u_items ?d) \<and>
    (case res of Batch batch \<Rightarrow> (0 < limit \<longrightarrow> batch \<noteq> []) \<and> length batch \<le> limit
        \<and> (sum_list (map length batch) \<le> byte_limit \<or> length batch \<le> 1)
      | Ended \<Rightarrow> u_closed q
      | Waiting \<Rightarrow> \<not> u_closed q \<and> u_items ?d = [])"
  proof (cases "u_items ?d = []")
    case True
    then show ?thesis using assms(1) inv D(4) by (auto simp: take_batch_pass_def Let_def split: if_splits)
  next
    case False
    obtain items batch used where b: "batch_loop (u_items ?d) [] 0 limit byte_limit = (items, batch, used)"
      by (metis prod_cases3)
    then obtain n where n: "items = drop n (u_items ?d)" "batch = map up_data (take n (u_items ?d))"
      "used = upload_bytes (take n (u_items ?d))" "length batch \<le> limit" "n = 0 \<longrightarrow> \<not> 0 < limit"
      "used \<le> byte_limit \<or> length batch \<le> 1"
      using batch_loop_split [OF b] False by fastforce
    have r: "res = Batch batch" "q' = adjust_bytes_locked (?d\<lparr>u_items := items\<rparr>) (- int used)"
      using assms(1) False b by (auto simp: take_batch_pass_def Let_def)
    have "upload_bytes (u_items ?d) = used + upload_bytes items"
      using n(1,3) by (simp flip: upload_bytes_simps(3))
    then have "upload_inv q'" using inv n(1) r(2)
      by (auto simp: upload_inv_def upload_accounted_def)
    moreover have "sum_list (map length batch) = used" by (simp add: n(2,3) upload_bytes_def comp_def)
    moreover have "batch @ map up_data items = map up_data (u_items ?d)"
      using n(1,2) by (simp flip: map_append)
    ultimately show ?thesis using r n False by (auto simp: take_eq_Nil)
  qed
  then show "upload_inv q'"
    "(case res of Batch batch \<Rightarrow> batch | _ \<Rightarrow> []) @ map up_data (u_items q') =
      map up_data (filter (upload_alive (u_config q) now) (u_items q))"
    "case res of Batch batch \<Rightarrow> (0 < limit \<longrightarrow> batch \<noteq> []) \<and> length batch \<le> limit
        \<and> (sum_list (map length batch) \<le> byte_limit \<or> length batch \<le> 1)
      | Ended \<Rightarrow> u_closed q
      | Waiting \<Rightarrow> \<not> u_closed q \<and> filter (upload_alive (u_config q) now) (u_items q) = []"
    unfolding D(2) by blast+
qed

subsection \<open>Runs\<close>

datatype upload_op =
    UEnqueue bytes packet_metadata instant
  | UTakeBatch instant nat nat
  | UQueuedBytes instant
  | UActivate
  | UDeactivate
  | UClose

fun upload_do :: "upload_queue \<Rightarrow> upload_op \<Rightarrow> upload_queue" where
  "upload_do q (UEnqueue packet metadata now) = snd (upload_enqueue q packet metadata now)"
| "upload_do q (UTakeBatch now limit byte_limit) = snd (take_batch_pass q now limit byte_limit)"
| "upload_do q (UQueuedBytes now) = snd (queued_bytes_at q now)"
| "upload_do q UActivate = activate q"
| "upload_do q UDeactivate = deactivate_and_clear q"
| "upload_do q UClose = upload_close q"

fun upload_accepts :: "upload_queue \<Rightarrow> upload_op \<Rightarrow> bytes list" where
  "upload_accepts q (UEnqueue packet metadata now) =
    (if fst (upload_enqueue q packet metadata now) = Ok () then [packet] else [])"
| "upload_accepts q _ = []"

fun upload_delivers :: "upload_queue \<Rightarrow> upload_op \<Rightarrow> bytes list" where
  "upload_delivers q (UTakeBatch now limit byte_limit) =
    (case fst (take_batch_pass q now limit byte_limit) of Batch batch \<Rightarrow> batch | _ \<Rightarrow> [])"
| "upload_delivers q _ = []"

lemma upload_enqueue_inv:
  assumes "upload_inv q"
  shows "upload_inv (upload_do q (UEnqueue packet metadata now))"
    "subseq (map up_data (u_items (upload_do q (UEnqueue packet metadata now))))
      (map up_data (u_items q) @ upload_accepts q (UEnqueue packet metadata now))"
proof -
  obtain res q' where e: "upload_enqueue q packet metadata now = (res, q')" by fastforce
  have "upload_inv q' \<and> subseq (map up_data (u_items q')) (map up_data (u_items q) @ (if res = Ok () then [packet] else []))"
  proof (cases "u_active q")
    case False
    then show ?thesis using e assms by (auto simp: upload_enqueue_def)
  next
    case True
    from upload_enqueue_cases [OF e assms this] obtain kept where
      k: "upload_inv kept" "subseq (u_items kept) (filter (upload_alive (u_config q) now) (u_items q))"
        "res = Ok () \<and> upload_inv q'
          \<and> u_items q' = u_items kept @ [\<lparr>up_data = packet, up_class = meta_class metadata, up_enqueued = now\<rparr>]
        \<or> res = Err (Full packet) \<and> q' = kept" by metis
    have "subseq (u_items kept) (u_items q)" using k(2) subseq_filter_left subseq_order.trans by blast
    then show ?thesis using k(1,3) by (auto intro!: subseq_append_mono subseq_map)
  qed
  then show "upload_inv (upload_do q (UEnqueue packet metadata now))"
    "subseq (map up_data (u_items (upload_do q (UEnqueue packet metadata now))))
      (map up_data (u_items q) @ upload_accepts q (UEnqueue packet metadata now))"
    using e by (auto split: if_splits)
qed

lemma upload_other_inv:
  assumes "upload_inv q"
  shows "upload_inv (snd (queued_bytes_at q now))" "upload_inv (activate q)"
    "upload_inv (deactivate_and_clear q)" "upload_inv (upload_close q)"
    "u_items (snd (queued_bytes_at q now)) = filter (upload_alive (u_config q) now) (u_items q)"
  using upload_expire [of q now] upload_inv_subseq [OF assms, of "upload_drop_expired q now 0"] assms
  by (auto simp: queued_bytes_at_def activate_def deactivate_and_clear_def upload_close_def clear_locked_def
        upload_inv_def upload_accounted_def Let_def)

interpretation uplink: packet_fifo upload_do upload_accepts upload_delivers "\<lambda>q. map up_data (u_items q)" upload_inv
proof
  fix q op
  assume inv: "upload_inv q"
  show "upload_inv (upload_do q op)"
  proof (cases op)
    case (UTakeBatch now limit byte_limit)
    then show ?thesis using take_batch_pass_cases(1) [OF prod.collapse [symmetric] inv] by simp
  qed (use upload_enqueue_inv(1) [OF inv] upload_other_inv [OF inv] in simp_all)
  show "subseq (upload_delivers q op @ map up_data (u_items (upload_do q op)))
      (map up_data (u_items q) @ upload_accepts q op)"
  proof (cases op)
    case (UTakeBatch now limit byte_limit)
    have "subseq (map up_data (filter (upload_alive (u_config q) now) (u_items q))) (map up_data (u_items q))"
      by (intro subseq_map subseq_filter_left)
    then show ?thesis
      using UTakeBatch take_batch_pass_cases(2) [OF prod.collapse [symmetric] inv, of now limit byte_limit] by simp
  next
    case (UEnqueue packet metadata now)
    then show ?thesis using upload_enqueue_inv(2) [OF inv, of packet metadata now] by simp
  qed (use upload_other_inv(5) [OF inv] in \<open>auto simp: activate_def deactivate_and_clear_def upload_close_def
        clear_locked_def intro!: subseq_map subseq_filter_left\<close>)
qed

lemma upload_new_inv: "upload_inv (upload_new config)"
  by (simp add: upload_new_def upload_inv_def upload_accounted_def)

subsection \<open>Properties\<close>

text \<open>after any sequence of operations the client's upload queue counts exactly the bytes it
  holds, in its state and in its gauge, keeps both limits, and holds nothing while it is inactive or
  closed.\<close>

theorem upload_accounting:
  "upload_inv (run_steps upload_do (upload_new config) ops)"
  by (rule uplink.run_invar [OF upload_new_inv])

text \<open>the batches taken from the upload queue, put one after the other, contain the accepted
  packets in order, each at most once.\<close>

theorem upload_in_order:
  "subseq (run_outputs upload_do upload_delivers (upload_new config) ops)
    (run_outputs upload_do upload_accepts (upload_new config) ops)"
  by (rule uplink.deliveries_in_order [OF upload_new_inv]) (simp add: upload_new_def)

text \<open>a pass of \<open>take_batch\<close> returns a nonempty batch whenever an unexpired packet is queued;
  the batch respects the packet limit and exceeds the byte limit only as a single packet. It ends
  only on a closed queue.\<close>

theorem take_batch_limits:
  assumes "upload_inv q" and "take_batch_pass q now limit byte_limit = (result, q')"
  shows "case result of
      Batch batch \<Rightarrow> (0 < limit \<longrightarrow> batch \<noteq> []) \<and> length batch \<le> limit
        \<and> (sum_list (map length batch) \<le> byte_limit \<or> length batch \<le> 1)
    | Ended \<Rightarrow> u_closed q
    | Waiting \<Rightarrow> \<not> u_closed q \<and> filter (upload_alive (u_config q) now) (u_items q) = []"
  by (rule take_batch_pass_cases(3) [OF assms(2,1)])

definition sample_upload :: upload_queue where
  "sample_upload = run_steps upload_do (upload_new default_upload_config)
     (map (\<lambda>n. UEnqueue (replicate n 0) default_metadata 0) [3, 4, 5])"

theorem take_batch_limits_witness:
  "take_batch_pass sample_upload 1 8 7 = (Batch [[0, 0, 0], [0, 0, 0, 0]], snd (take_batch_pass sample_upload 1 8 7))
    \<and> sum_list (map length [[0, 0, 0], [0, 0, 0, 0 :: u8]]) \<le> 7"
proof -
  have inv: "upload_inv sample_upload" unfolding sample_upload_def by (rule uplink.run_invar [OF upload_new_inv])
  have "fst (take_batch_pass sample_upload 1 8 7) = Batch [[0, 0, 0], [0, 0, 0, 0]]" by code_simp
  with take_batch_limits [OF inv prod.collapse [symmetric], of 1 8 7] show ?thesis
    by (cases "take_batch_pass sample_upload 1 8 7") simp
qed

end
