(* ===== verification/Flow_Table.thy ===== *)
theory Flow_Table
  imports Wire_Ip "HOL-Library.AList"
begin

text \<open>
  The flow table of \<open>porta-server/src/data/router.rs\<close>: an index of flows (\<open>HashMap<FlowKey, u16>\<close>,
  an association list here) into an arena of entries that are threaded on a doubly linked list from
  the least to the most recently used one, with a free list of arena slots. Slots are \<open>nat\<close>; the
  \<open>u16\<close> sentinel \<open>NO_FLOW_INDEX\<close> is 65535, and \<open>u16::try_from(..).expect(..)\<close> is an option whose
  \<open>None\<close> is the panic. The table refines a plain list of flows with their lanes, oldest first.
\<close>

definition MAX_TRACKED_FLOWS :: nat where "MAX_TRACKED_FLOWS = 4096"
definition NO_FLOW_INDEX :: nat where "NO_FLOW_INDEX = 65535"

record flow_entry =
  fe_flow :: flow_key
  fe_previous :: nat
  fe_next :: nat
  fe_lane :: u8

record flow_table =
  ft_assignments :: "(flow_key \<times> nat) list"
  ft_entries :: "flow_entry list"
  ft_free :: "nat list"
  ft_oldest :: nat
  ft_newest :: nat

definition default_table :: flow_table where
  "default_table = \<lparr>ft_assignments = [], ft_entries = [], ft_free = [],
     ft_oldest = NO_FLOW_INDEX, ft_newest = NO_FLOW_INDEX\<rparr>"

definition ft_assignment :: "flow_table \<Rightarrow> flow_key \<Rightarrow> (nat \<times> nat) option" where
  "ft_assignment t flow =
    (case map_of (ft_assignments t) flow of
       None \<Rightarrow> None
     | Some index \<Rightarrow> Some (index, unat (fe_lane (ft_entries t ! index))))"

definition set_previous :: "flow_table \<Rightarrow> nat \<Rightarrow> nat \<Rightarrow> flow_table" where
  "set_previous t i p = t\<lparr>ft_entries := (ft_entries t)[i := (ft_entries t ! i)\<lparr>fe_previous := p\<rparr>]\<rparr>"

definition set_next :: "flow_table \<Rightarrow> nat \<Rightarrow> nat \<Rightarrow> flow_table" where
  "set_next t i n = t\<lparr>ft_entries := (ft_entries t)[i := (ft_entries t ! i)\<lparr>fe_next := n\<rparr>]\<rparr>"

definition unlink :: "flow_table \<Rightarrow> nat \<Rightarrow> flow_table" where
  "unlink t index =
    (let entry = ft_entries t ! index;
         t = (if fe_previous entry = NO_FLOW_INDEX then t\<lparr>ft_oldest := fe_next entry\<rparr>
              else set_next t (fe_previous entry) (fe_next entry))
     in if fe_next entry = NO_FLOW_INDEX then t\<lparr>ft_newest := fe_previous entry\<rparr>
        else set_previous t (fe_next entry) (fe_previous entry))"

definition link_newest :: "flow_table \<Rightarrow> nat \<Rightarrow> flow_table" where
  "link_newest t index =
    (let previous = ft_newest t;
         t = set_next (set_previous t index previous) index NO_FLOW_INDEX;
         t = (if previous = NO_FLOW_INDEX then t\<lparr>ft_oldest := index\<rparr> else set_next t previous index)
     in t\<lparr>ft_newest := index\<rparr>)"

definition ft_touch :: "flow_table \<Rightarrow> nat \<Rightarrow> flow_table" where
  "ft_touch t index = (if index \<noteq> ft_newest t then link_newest (unlink t index) index else t)"

definition evict_oldest :: "flow_table \<Rightarrow> flow_table" where
  "evict_oldest t =
    (let index = ft_oldest t;
         flow = fe_flow (ft_entries t ! index);
         t = t\<lparr>ft_assignments := AList.delete flow (ft_assignments t)\<rparr>;
         t = unlink t index
     in t\<lparr>ft_free := ft_free t @ [index]\<rparr>)"

definition ft_remove :: "flow_table \<Rightarrow> flow_key \<Rightarrow> flow_table" where
  "ft_remove t flow =
    (case map_of (ft_assignments t) flow of
       None \<Rightarrow> t
     | Some index \<Rightarrow>
         let t = t\<lparr>ft_assignments := AList.delete flow (ft_assignments t)\<rparr>;
             t = unlink t index
         in t\<lparr>ft_free := ft_free t @ [index]\<rparr>)"

text \<open>A slot for a new entry: the last free one, or the next of the arena.\<close>

definition store_entry :: "flow_table \<Rightarrow> flow_entry \<Rightarrow> (nat \<times> flow_table) option" where
  "store_entry t entry =
    (if ft_free t \<noteq> [] then
       let index = last (ft_free t)
       in Some (index, t\<lparr>ft_free := butlast (ft_free t), ft_entries := (ft_entries t)[index := entry]\<rparr>)
     else if length (ft_entries t) \<le> 65535 then
       Some (length (ft_entries t), t\<lparr>ft_entries := ft_entries t @ [entry]\<rparr>)
     else None)"

definition ft_assign :: "flow_table \<Rightarrow> flow_key \<Rightarrow> nat \<Rightarrow> flow_table option" where
  "ft_assign t flow lane =
    (case map_of (ft_assignments t) flow of
       Some index \<Rightarrow>
         let t = t\<lparr>ft_entries := (ft_entries t)[index := (ft_entries t ! index)\<lparr>fe_lane := byte_of lane\<rparr>]\<rparr>
         in Some (ft_touch t index)
     | None \<Rightarrow>
         let t = (if length (ft_assignments t) \<ge> MAX_TRACKED_FLOWS then evict_oldest t else t);
             entry = \<lparr>fe_flow = flow, fe_previous = NO_FLOW_INDEX, fe_next = NO_FLOW_INDEX,
                      fe_lane = byte_of lane\<rparr>
         in (case store_entry t entry of
               None \<Rightarrow> None
             | Some (index, t) \<Rightarrow>
                 Some (link_newest
                   (t\<lparr>ft_assignments := AList.update flow index (ft_assignments t)\<rparr>) index)))"

subsection \<open>The list the table stands for\<close>

text \<open>The specification: flows with their lanes, least recently used first.\<close>

type_synonym lru = "(flow_key \<times> nat) list"

definition lru_touch :: "lru \<Rightarrow> flow_key \<Rightarrow> lru" where
  "lru_touch l flow =
    (case map_of l flow of None \<Rightarrow> l | Some lane \<Rightarrow> filter (\<lambda>(f, _). f \<noteq> flow) l @ [(flow, lane)])"

definition lru_assign :: "lru \<Rightarrow> flow_key \<Rightarrow> nat \<Rightarrow> lru" where
  "lru_assign l flow lane =
    (let rest = filter (\<lambda>(f, _). f \<noteq> flow) l
     in if flow \<in> fst ` set l then rest @ [(flow, lane)]
        else (if length l \<ge> MAX_TRACKED_FLOWS then drop 1 l else l) @ [(flow, lane)])"

definition lru_remove :: "lru \<Rightarrow> flow_key \<Rightarrow> lru" where
  "lru_remove l flow = filter (\<lambda>(f, _). f \<noteq> flow) l"

subsection \<open>Linked segments\<close>

text \<open>\<open>linked es p is n\<close>: the entries at \<open>is\<close> are threaded in this order, between \<open>p\<close> and \<open>n\<close>.\<close>

definition first_or :: "nat \<Rightarrow> nat list \<Rightarrow> nat" where
  "first_or n is = (case is of [] \<Rightarrow> n | i # _ \<Rightarrow> i)"

definition last_or :: "nat \<Rightarrow> nat list \<Rightarrow> nat" where
  "last_or p is = (if is = [] then p else last is)"

lemma first_last_or_simps [simp]:
  "first_or n [] = n" "first_or n (i # is) = i" "last_or p [] = p" "last_or p (is @ [i]) = i"
  "last_or p (i # is) = last_or i is"
  by (simp_all add: first_or_def last_or_def)

lemma first_or_append: "first_or n (xs @ ys) = first_or (first_or n ys) xs"
  by (cases xs) simp_all

lemma last_or_append: "last_or p (xs @ ys) = last_or (last_or p xs) ys"
  by (cases ys rule: rev_cases) (simp_all add: last_or_def)

fun linked :: "flow_entry list \<Rightarrow> nat \<Rightarrow> nat list \<Rightarrow> nat \<Rightarrow> bool" where
  "linked es p [] n \<longleftrightarrow> True"
| "linked es p (i # is) n \<longleftrightarrow>
    fe_previous (es ! i) = p \<and> fe_next (es ! i) = first_or n is \<and> linked es i is n"

lemma linked_append:
  "linked es p (xs @ ys) n \<longleftrightarrow> linked es p xs (first_or n ys) \<and> linked es (last_or p xs) ys n"
  by (induction xs arbitrary: p) (auto simp: first_or_append)

lemma linked_cong:
  "(\<And>i. i \<in> set is \<Longrightarrow> fe_previous (es' ! i) = fe_previous (es ! i) \<and> fe_next (es' ! i) = fe_next (es ! i)) \<Longrightarrow>
    linked es' p is n = linked es p is n"
  by (induction "is" arbitrary: p) auto

lemma linked_update_other: "i \<notin> set is \<Longrightarrow> linked (es[i := e]) p is n = linked es p is n"
  by (induction "is" arbitrary: p) auto

text \<open>Re-threading the end of a segment, and its beginning.\<close>

lemma linked_set_next:
  assumes "linked es p xs n" "distinct xs" "xs \<noteq> []" "\<forall>i \<in> set xs. i < length es"
  shows "linked (es[last xs := (es ! last xs)\<lparr>fe_next := n'\<rparr>]) p xs n'"
proof -
  obtain ys i where xs: "xs = ys @ [i]" using assms(3) by (cases xs rule: rev_cases) auto
  then show ?thesis using assms by (simp add: linked_append linked_update_other)
qed

lemma linked_set_previous:
  assumes "linked es p (i # is) n" "distinct (i # is)" "i < length es"
  shows "linked (es[i := (es ! i)\<lparr>fe_previous := p'\<rparr>]) p' (i # is) n"
  using assms by (simp add: linked_update_other)

text \<open>The whole list of a table.\<close>

definition threaded :: "flow_table \<Rightarrow> nat list \<Rightarrow> bool" where
  "threaded t is \<longleftrightarrow> linked (ft_entries t) NO_FLOW_INDEX is NO_FLOW_INDEX
     \<and> ft_oldest t = first_or NO_FLOW_INDEX is \<and> ft_newest t = last_or NO_FLOW_INDEX is
     \<and> distinct is \<and> (\<forall>i \<in> set is. i < length (ft_entries t) \<and> i < NO_FLOW_INDEX)"

text \<open>What threading leaves alone: everything but the links.\<close>

definition same_data :: "flow_table \<Rightarrow> flow_table \<Rightarrow> bool" where
  "same_data t t' \<longleftrightarrow> ft_assignments t' = ft_assignments t \<and> ft_free t' = ft_free t
     \<and> map fe_flow (ft_entries t') = map fe_flow (ft_entries t)
     \<and> map fe_lane (ft_entries t') = map fe_lane (ft_entries t)"

lemma same_data_trans: "same_data a b \<Longrightarrow> same_data b c \<Longrightarrow> same_data a c"
  by (simp add: same_data_def)

lemma same_data_nth:
  assumes "same_data t t'"
  shows "length (ft_entries t') = length (ft_entries t)"
    "i < length (ft_entries t) \<Longrightarrow> fe_flow (ft_entries t' ! i) = fe_flow (ft_entries t ! i)"
    "i < length (ft_entries t) \<Longrightarrow> fe_lane (ft_entries t' ! i) = fe_lane (ft_entries t ! i)"
proof -
  have m: "map fe_flow (ft_entries t') = map fe_flow (ft_entries t)"
    "map fe_lane (ft_entries t') = map fe_lane (ft_entries t)"
    using assms by (simp_all add: same_data_def)
  then show l: "length (ft_entries t') = length (ft_entries t)" by (metis length_map)
  show "i < length (ft_entries t) \<Longrightarrow> fe_flow (ft_entries t' ! i) = fe_flow (ft_entries t ! i)"
    and "i < length (ft_entries t) \<Longrightarrow> fe_lane (ft_entries t' ! i) = fe_lane (ft_entries t ! i)"
    using m l by (metis nth_map)+
qed

lemma map_update_same: "i < length xs \<Longrightarrow> f x = f (xs ! i) \<Longrightarrow> map f (xs[i := x]) = map f xs"
  by (metis length_map list_update_id map_update nth_map)

lemma same_data_set [simp]:
  "i < length (ft_entries t) \<Longrightarrow> same_data t (set_next t i n)"
  "i < length (ft_entries t) \<Longrightarrow> same_data t (set_previous t i n)"
  "same_data t (t\<lparr>ft_oldest := n\<rparr>)" "same_data t (t\<lparr>ft_newest := n\<rparr>)"
  by (simp_all add: same_data_def set_next_def set_previous_def map_update_same)

lemma set_link_simps [simp]:
  "ft_entries (set_next t i n) = (ft_entries t)[i := (ft_entries t ! i)\<lparr>fe_next := n\<rparr>]"
  "ft_entries (set_previous t i n) = (ft_entries t)[i := (ft_entries t ! i)\<lparr>fe_previous := n\<rparr>]"
  "ft_oldest (set_next t i n) = ft_oldest t" "ft_newest (set_next t i n) = ft_newest t"
  "ft_oldest (set_previous t i n) = ft_oldest t" "ft_newest (set_previous t i n) = ft_newest t"
  by (simp_all add: set_next_def set_previous_def)

lemma last_or_sentinel: "\<forall>j \<in> set xs. j < m \<and> j < n \<Longrightarrow> last_or n xs = n \<longleftrightarrow> xs = []"
  by (cases xs rule: rev_cases) auto

lemma unlink_threaded:
  assumes "threaded t (xs @ i # ys)"
  shows "threaded (unlink t i) (xs @ ys)" "same_data t (unlink t i)"
proof -
  let ?es = "ft_entries t" and ?N = NO_FLOW_INDEX
  let ?p = "last_or ?N xs" and ?n = "first_or ?N ys"
  from assms have l: "linked ?es ?N xs i" "linked ?es i ys ?N" "fe_previous (?es ! i) = ?p" "fe_next (?es ! i) = ?n"
    and d: "distinct xs" "distinct ys" "i \<notin> set xs" "i \<notin> set ys" "set xs \<inter> set ys = {}"
    and b: "\<forall>j \<in> set xs. j < length ?es \<and> j < ?N" "\<forall>j \<in> set ys. j < length ?es \<and> j < ?N"
    by (auto simp: threaded_def linked_append)
  define t1 where "t1 = (if ?p = ?N then t\<lparr>ft_oldest := ?n\<rparr> else set_next t ?p ?n)"
  have u: "unlink t i = (if ?n = ?N then t1\<lparr>ft_newest := ?p\<rparr> else set_previous t1 ?n ?p)"
    by (simp add: unlink_def Let_def l(3,4) t1_def)
  have p: "?p = ?N \<longleftrightarrow> xs = []" using last_or_sentinel [OF b(1)] .
  have n: "?n = ?N \<longleftrightarrow> ys = []" using b(2) by (cases ys) auto
  have t1: "linked (ft_entries t1) ?N xs ?n" "linked (ft_entries t1) i ys ?N" "same_data t t1"
      "ft_oldest t1 = first_or ?N (xs @ ys)" "ft_newest t1 = last_or ?N (xs @ i # ys)"
  proof -
    have "linked (ft_entries t1) ?N xs ?n \<and> linked (ft_entries t1) i ys ?N \<and> same_data t t1
      \<and> ft_oldest t1 = first_or ?N (xs @ ys) \<and> ft_newest t1 = last_or ?N (xs @ i # ys)"
    proof (cases "xs = []")
      case True
      then show ?thesis using l assms by (simp add: t1_def threaded_def)
    next
      case False
      then have "last xs \<in> set xs" by simp
      then have "last xs \<notin> set ys" "last xs < length ?es" using d b by auto
      moreover have "first_or i xs = first_or ?n xs" using False by (cases xs) auto
      ultimately show ?thesis using False p linked_set_next [OF l(1) d(1) False, of ?n] l(2) b(1) assms
        by (simp add: t1_def last_or_def linked_update_other threaded_def first_or_append)
    qed
    then show "linked (ft_entries t1) ?N xs ?n" "linked (ft_entries t1) i ys ?N" "same_data t t1"
      "ft_oldest t1 = first_or ?N (xs @ ys)" "ft_newest t1 = last_or ?N (xs @ i # ys)" by blast+
  qed
  note len = same_data_nth(1) [OF t1(3)]
  have "threaded (unlink t i) (xs @ ys) \<and> same_data t1 (unlink t i)"
  proof (cases ys)
    case Nil
    then show ?thesis using t1 d b u len by (simp add: threaded_def)
  next
    case (Cons j zs)
    then have j: "j < length (ft_entries t1)" "j \<notin> set xs" "j \<noteq> ?N" using b(2) d(5) len by auto
    have "linked ((ft_entries t1)[j := (ft_entries t1 ! j)\<lparr>fe_previous := ?p\<rparr>]) ?p ys ?N"
      using linked_set_previous [of "ft_entries t1" i j zs ?N ?p] t1(2) d(2) j(1) Cons by simp
    then show ?thesis using Cons t1 d b u len j
      by (auto simp: threaded_def linked_append linked_update_other last_or_append)
  qed
  then show "threaded (unlink t i) (xs @ ys)" "same_data t (unlink t i)"
    using t1(3) same_data_trans by blast+
qed

lemma link_newest_threaded:
  assumes "threaded t is" and "i \<notin> set is" and "i < length (ft_entries t)" and "i < NO_FLOW_INDEX"
  shows "threaded (link_newest t i) (is @ [i])" "same_data t (link_newest t i)"
proof -
  let ?N = NO_FLOW_INDEX and ?es = "ft_entries t"
  let ?p = "ft_newest t"
  define t1 where "t1 = set_next (set_previous t i ?p) i ?N"
  have es1: "ft_entries t1 = ?es[i := (?es ! i)\<lparr>fe_previous := ?p, fe_next := ?N\<rparr>]"
    using assms(3) by (simp add: t1_def)
  have sd: "same_data t t1"
    unfolding t1_def using assms(3) by (intro same_data_trans [OF same_data_set(2) same_data_set(1)]) simp_all
  have th: "linked ?es ?N is ?N" "ft_oldest t = first_or ?N is" "?p = last_or ?N is" "distinct is"
    "\<forall>j \<in> set is. j < length ?es \<and> j < ?N" using assms(1) by (auto simp: threaded_def)
  have l1: "linked (ft_entries t1) ?N is ?N" using th(1) assms(2) by (simp add: es1 linked_update_other)
  have N: "?p = ?N \<longleftrightarrow> is = []" using th(3) last_or_sentinel [OF th(5)] by simp
  have lk: "link_newest t i = (if ?p = ?N then t1\<lparr>ft_oldest := i\<rparr> else set_next t1 ?p i)\<lparr>ft_newest := i\<rparr>"
    by (simp add: link_newest_def Let_def t1_def)
  have "threaded (link_newest t i) (is @ [i]) \<and> same_data t1 (link_newest t i)"
  proof (cases "is = []")
    case True
    then show ?thesis using N lk es1 assms(3,4) th(3) by (simp add: threaded_def same_data_def)
  next
    case False
    then have p: "?p = last is" "last is \<in> set is" "last is \<noteq> i" "last is < length ?es"
      using th(3,5) assms(2) by (auto simp: last_or_def)
    have b: "\<forall>j \<in> set is. j < length (ft_entries t1)" using th(5) by (simp add: es1)
    from linked_set_next [OF l1 th(4) False b, of i]
    have "linked (ft_entries (link_newest t i)) ?N (is @ [i]) ?N"
      using False N p assms(3) by (simp add: lk linked_append es1 last_or_def)
    moreover have "same_data t1 (link_newest t i)"
      using False N p same_data_set(1) [of "last is" t1 i] by (simp add: lk es1 same_data_def)
    ultimately show ?thesis
      using False N p th assms by (simp add: threaded_def lk es1 t1_def first_or_append) (cases "is"; simp)
  qed
  then show "threaded (link_newest t i) (is @ [i])" "same_data t (link_newest t i)"
    using sd same_data_trans by blast+
qed

subsection \<open>The table's invariant\<close>

text \<open>Following the links from an entry, for at most \<open>fuel\<close> entries.\<close>

fun follow :: "flow_entry list \<Rightarrow> nat \<Rightarrow> nat \<Rightarrow> nat list" where
  "follow es 0 i = []"
| "follow es (Suc fuel) i = (if i = NO_FLOW_INDEX then [] else i # follow es fuel (fe_next (es ! i)))"

definition ft_chain :: "flow_table \<Rightarrow> nat list" where
  "ft_chain t = follow (ft_entries t) (length (ft_entries t)) (ft_oldest t)"

definition lru_of :: "flow_table \<Rightarrow> lru" where
  "lru_of t = map (\<lambda>i. (fe_flow (ft_entries t ! i), unat (fe_lane (ft_entries t ! i)))) (ft_chain t)"

definition table_rep :: "flow_table \<Rightarrow> nat list \<Rightarrow> bool" where
  "table_rep t is \<longleftrightarrow> threaded t is \<and> distinct (map fst (ft_assignments t))
     \<and> (\<forall>f i. map_of (ft_assignments t) f = Some i \<longleftrightarrow> i \<in> set is \<and> fe_flow (ft_entries t ! i) = f)
     \<and> distinct (is @ ft_free t) \<and> set (is @ ft_free t) = {..<length (ft_entries t)}
     \<and> length (ft_entries t) \<le> MAX_TRACKED_FLOWS"

definition table_inv :: "flow_table \<Rightarrow> bool" where
  "table_inv t \<longleftrightarrow> table_rep t (ft_chain t)"

lemma follow_linked:
  "linked es p is NO_FLOW_INDEX \<Longrightarrow> \<forall>i \<in> set is. i < NO_FLOW_INDEX \<Longrightarrow> length is \<le> fuel \<Longrightarrow>
    follow es fuel (first_or NO_FLOW_INDEX is) = is"
proof (induction "is" arbitrary: p fuel)
  case Nil
  then show ?case by (cases fuel) auto
next
  case (Cons i "is")
  then obtain k where "fuel = Suc k" by (cases fuel) auto
  with Cons show ?case by auto
qed

lemma distinct_bounded: "distinct is \<Longrightarrow> \<forall>i \<in> set is. i < n \<Longrightarrow> length is \<le> n"
  by (metis card_lessThan card_mono distinct_card finite_lessThan lessThan_iff subsetI)

lemma threaded_chain:
  assumes "threaded t is"
  shows "ft_chain t = is"
proof -
  have "length is \<le> length (ft_entries t)"
    using assms by (intro distinct_bounded) (auto simp: threaded_def)
  then show ?thesis using assms follow_linked unfolding threaded_def ft_chain_def by metis
qed

lemma table_repI: "table_rep t is \<Longrightarrow> table_inv t \<and> ft_chain t = is"
  using threaded_chain by (auto simp: table_inv_def table_rep_def)

lemma table_rep_flows:
  assumes "table_rep t is"
  shows "inj_on (\<lambda>i. fe_flow (ft_entries t ! i)) (set is)" "length (ft_assignments t) = length is"
    "\<forall>i \<in> set is. i < length (ft_entries t)"
proof -
  let ?f = "\<lambda>i. fe_flow (ft_entries t ! i)"
  have m: "map_of (ft_assignments t) f = Some i \<longleftrightarrow> i \<in> set is \<and> ?f i = f" for f i
    using assms by (auto simp: table_rep_def)
  show inj: "inj_on ?f (set is)"
  proof (rule inj_onI)
    fix i j
    assume "i \<in> set is" "j \<in> set is" "?f i = ?f j"
    then have "map_of (ft_assignments t) (?f i) = Some i" "map_of (ft_assignments t) (?f i) = Some j"
      by (simp_all add: m)
    then show "i = j" by simp
  qed
  have "fst ` set (ft_assignments t) = ?f ` set is"
    using m by (auto simp: dom_map_of_conv_image_fst [symmetric] dom_def)
  moreover have "card (fst ` set (ft_assignments t)) = length (ft_assignments t)"
    using assms by (metis table_rep_def distinct_card length_map set_map)
  moreover have "card (?f ` set is) = length is"
    using inj assms by (simp add: card_image distinct_card table_rep_def threaded_def)
  ultimately show "length (ft_assignments t) = length is" by simp
  show "\<forall>i \<in> set is. i < length (ft_entries t)" using assms by (auto simp: table_rep_def threaded_def)
qed

lemma lru_of_rep:
  "table_rep t is \<Longrightarrow> lru_of t = map (\<lambda>i. (fe_flow (ft_entries t ! i), unat (fe_lane (ft_entries t ! i)))) is"
  using table_repI by (auto simp: lru_of_def)

lemma rep_same_data:
  assumes "table_rep t is" and "same_data t t'" and "threaded t' is'" and "set is' = set is"
  shows "table_rep t' is'"
proof -
  note S = same_data_nth [OF assms(2)]
  have sd: "ft_assignments t' = ft_assignments t" "ft_free t' = ft_free t" using assms(2) by (simp_all add: same_data_def)
  have "i \<in> set is \<Longrightarrow> fe_flow (ft_entries t' ! i) = fe_flow (ft_entries t ! i)" for i
    using table_rep_flows(3) [OF assms(1)] S(2) by blast
  moreover have "distinct is'" using assms(3) by (simp add: threaded_def)
  ultimately show ?thesis using assms(1,3,4) S(1) by (auto simp: table_rep_def sd)
qed

subsection \<open>The operations refine those of the list\<close>

definition entry_of :: "flow_table \<Rightarrow> nat \<Rightarrow> flow_key \<times> nat" where
  "entry_of t i = (fe_flow (ft_entries t ! i), unat (fe_lane (ft_entries t ! i)))"

lemma lru_of_entries: "table_rep t is \<Longrightarrow> lru_of t = map (entry_of t) is"
  by (simp add: lru_of_rep entry_of_def)

lemma entry_of_same: "same_data t t' \<Longrightarrow> i < length (ft_entries t) \<Longrightarrow> entry_of t' i = entry_of t i"
  by (simp add: entry_of_def same_data_nth)

lemma map_of_rep:
  "table_rep t is \<Longrightarrow> map_of (ft_assignments t) f = Some i \<longleftrightarrow> i \<in> set is \<and> fe_flow (ft_entries t ! i) = f"
  by (simp add: table_rep_def)

lemma lru_lookup:
  assumes "table_rep t is"
  shows "map_of (lru_of t) f = map_option (\<lambda>i. unat (fe_lane (ft_entries t ! i))) (map_of (ft_assignments t) f)"
proof (cases "map_of (ft_assignments t) f")
  case None
  then have "\<forall>i \<in> set is. fe_flow (ft_entries t ! i) \<noteq> f" using map_of_rep [OF assms, of f] by simp
  then have "f \<notin> fst ` set (lru_of t)" by (auto simp: lru_of_entries [OF assms] entry_of_def)
  then have "map_of (lru_of t) f = None" by (simp add: map_of_eq_None_iff)
  then show ?thesis using None by (simp only: option.map)
next
  case (Some i)
  then have i: "i \<in> set is" "fe_flow (ft_entries t ! i) = f" using map_of_rep [OF assms] by auto
  have "distinct (map fst (lru_of t))"
    using table_rep_flows(1) [OF assms] assms
    by (simp add: lru_of_entries [OF assms] entry_of_def comp_def distinct_map table_rep_def threaded_def)
  moreover have "(f, unat (fe_lane (ft_entries t ! i))) \<in> set (lru_of t)"
    using i by (auto simp: lru_of_entries [OF assms] entry_of_def)
  ultimately show ?thesis using Some by simp
qed

text \<open>Leaving one flow out of the list is leaving out its slot.\<close>

lemma lru_without:
  assumes "table_rep t (xs @ i # ys)"
  shows "filter (\<lambda>(f, _). f \<noteq> fe_flow (ft_entries t ! i)) (lru_of t) = map (entry_of t) (xs @ ys)"
proof -
  note inj = table_rep_flows(1) [OF assms]
  have "distinct (xs @ i # ys)" using assms by (simp add: table_rep_def threaded_def)
  then have "fe_flow (ft_entries t ! j) \<noteq> fe_flow (ft_entries t ! i)" if "j \<in> set (xs @ ys)" for j
    using inj that by (auto simp: inj_on_def)
  then have "filter (\<lambda>(f, _). f \<noteq> fe_flow (ft_entries t ! i)) (map (entry_of t) (xs @ ys)) = map (entry_of t) (xs @ ys)"
    by (auto simp: entry_of_def filter_id_conv)
  then show ?thesis by (simp add: lru_of_entries [OF assms]) (simp add: entry_of_def)
qed

lemma touch_rep:
  assumes "table_rep t (xs @ i # ys)"
  shows "table_rep (ft_touch t i) (xs @ ys @ [i])" "same_data t (ft_touch t i)"
proof -
  have th: "threaded t (xs @ i # ys)" using assms by (simp add: table_rep_def)
  then have d: "distinct (xs @ i # ys)" "i < length (ft_entries t)" "i < NO_FLOW_INDEX"
    "ft_newest t = last_or i ys" by (auto simp: threaded_def last_or_append)
  have "threaded (ft_touch t i) (xs @ ys @ [i]) \<and> same_data t (ft_touch t i)"
  proof (cases "i = ft_newest t")
    case True
    then have "ys = []" using d(1,4) by (cases ys rule: rev_cases) auto
    then show ?thesis using True th by (simp add: ft_touch_def same_data_def)
  next
    case False
    note u = unlink_threaded [OF th]
    have "i < length (ft_entries (unlink t i))" using same_data_nth(1) [OF u(2)] d(2) by simp
    note l = link_newest_threaded [OF u(1) _ this d(3)]
    from l d(1) u(2) False show ?thesis by (auto simp: ft_touch_def intro: same_data_trans)
  qed
  then show "table_rep (ft_touch t i) (xs @ ys @ [i])" "same_data t (ft_touch t i)"
    using rep_same_data [OF assms] by auto
qed

text \<open>Taking a slot out of the list and freeing it.\<close>

lemma drop_entry_rep:
  assumes "table_rep t (xs @ i # ys)"
  defines "t' \<equiv> unlink (t\<lparr>ft_assignments := AList.delete (fe_flow (ft_entries t ! i)) (ft_assignments t)\<rparr>) i"
  shows "table_rep (t'\<lparr>ft_free := ft_free t' @ [i]\<rparr>) (xs @ ys)"
    "lru_of (t'\<lparr>ft_free := ft_free t' @ [i]\<rparr>) = map (entry_of t) (xs @ ys)"
proof -
  let ?f = "fe_flow (ft_entries t ! i)"
  let ?t1 = "t\<lparr>ft_assignments := AList.delete ?f (ft_assignments t)\<rparr>" and ?t2 = "t'\<lparr>ft_free := ft_free t' @ [i]\<rparr>"
  have "threaded ?t1 (xs @ i # ys)" using assms(1) by (simp add: table_rep_def threaded_def)
  note u = unlink_threaded [OF this, folded t'_def]
  have es: "length (ft_entries t') = length (ft_entries t)"
    "\<And>j. j < length (ft_entries t) \<Longrightarrow> fe_flow (ft_entries t' ! j) = fe_flow (ft_entries t ! j)"
    "\<And>j. j < length (ft_entries t) \<Longrightarrow> entry_of ?t2 j = entry_of t j"
    using same_data_nth [OF u(2)] by (simp_all add: entry_of_def)
  have al: "ft_assignments t' = AList.delete ?f (ft_assignments t)" "ft_free t' = ft_free t"
    using u(2) by (simp_all add: same_data_def)
  note inj = table_rep_flows(1) [OF assms(1)] and lt = table_rep_flows(3) [OF assms(1)]
  have d: "distinct (xs @ i # ys)" using assms(1) by (simp add: table_rep_def threaded_def)
  have other: "j \<in> set (xs @ ys) \<longleftrightarrow> j \<in> set (xs @ i # ys) \<and> fe_flow (ft_entries t ! j) \<noteq> ?f" for j
    using d inj by (auto simp: inj_on_def)
  have "map_of (AList.delete ?f (ft_assignments t)) f = Some j \<longleftrightarrow>
      j \<in> set (xs @ ys) \<and> fe_flow (ft_entries t' ! j) = f" for f j
    using map_of_rep [OF assms(1), of f j] other [of j] es(2) [of j] lt by (auto simp: delete_conv)
  then show rep: "table_rep ?t2 (xs @ ys)"
    using assms(1) u(1) es(1) al unfolding table_rep_def
    by (auto simp: threaded_def distinct_delete)
  show "lru_of ?t2 = map (entry_of t) (xs @ ys)"
    using es(3) lt by (simp add: lru_of_entries [OF rep])
qed

text \<open>A new flow goes to a free slot, or to a new one while the table is not full.\<close>

lemma store_entry_slot:
  assumes "table_rep t is" and "length is < MAX_TRACKED_FLOWS"
  obtains i t1 where "store_entry t e = Some (i, t1)" "i \<notin> set is"
    "i < length (ft_entries t1)" "ft_entries t1 ! i = e"
    "\<And>j. j \<in> set is \<Longrightarrow> j < length (ft_entries t1) \<and> ft_entries t1 ! j = ft_entries t ! j"
    "length (ft_entries t1) \<le> MAX_TRACKED_FLOWS" "set ((is @ [i]) @ ft_free t1) = {..<length (ft_entries t1)}"
    "distinct ((is @ [i]) @ ft_free t1)" "ft_assignments t1 = ft_assignments t" "threaded t1 is"
proof -
  have R: "threaded t is" "distinct (is @ ft_free t)"
    "set (is @ ft_free t) = {..<length (ft_entries t)}" "length (ft_entries t) \<le> MAX_TRACKED_FLOWS"
    using assms(1) by (simp_all add: table_rep_def)
  have full: "length is + length (ft_free t) = length (ft_entries t)"
    using R(2,3) by (metis card_lessThan distinct_card length_append)
  show ?thesis
  proof (cases "ft_free t" rule: rev_cases)
    case Nil
    let ?t = "t\<lparr>ft_entries := ft_entries t @ [e]\<rparr>" and ?n = "length (ft_entries t)"
    have n: "?n < MAX_TRACKED_FLOWS" using full Nil assms(2) by simp
    have slots: "set is = {..<?n}" using R(3) Nil by simp
    have "linked (ft_entries t @ [e]) p is m = linked (ft_entries t) p is m" for p m
      using slots by (intro linked_cong) (auto simp: nth_append)
    then show ?thesis using n slots R Nil
      by (intro that [of ?n ?t])
        (auto simp: store_entry_def MAX_TRACKED_FLOWS_def threaded_def nth_append)
  next
    case (snoc free i)
    let ?t = "t\<lparr>ft_free := free, ft_entries := (ft_entries t)[i := e]\<rparr>"
    have i: "i < length (ft_entries t)" "i \<notin> set is" using R(2,3) snoc by auto
    show ?thesis
    proof (rule that [of i ?t])
      show "store_entry t e = Some (i, ?t)" using snoc by (simp add: store_entry_def Let_def)
      show "threaded ?t is" using R(1) i by (simp add: threaded_def linked_update_other)
      show "set ((is @ [i]) @ ft_free ?t) = {..<length (ft_entries ?t)}" using R(3) snoc by auto
      show "distinct ((is @ [i]) @ ft_free ?t)" using R(2) snoc by auto
      show "j < length (ft_entries ?t) \<and> ft_entries ?t ! j = ft_entries t ! j" if j: "j \<in> set is" for j
      proof -
        have "j \<noteq> i" "j < length (ft_entries t)" using j i(2) R(1) by (auto simp: threaded_def)
        then show ?thesis by simp
      qed
    qed (use i R(4) in simp_all)
  qed
qed

lemma insert_entry_rep:
  assumes "table_rep t is" and "length is < MAX_TRACKED_FLOWS" and "map_of (ft_assignments t) f = None"
  obtains i t1 where "store_entry t \<lparr>fe_flow = f, fe_previous = p, fe_next = n, fe_lane = lane\<rparr> = Some (i, t1)"
    "table_rep (link_newest (t1\<lparr>ft_assignments := AList.update f i (ft_assignments t1)\<rparr>) i) (is @ [i])"
    "lru_of (link_newest (t1\<lparr>ft_assignments := AList.update f i (ft_assignments t1)\<rparr>) i) = lru_of t @ [(f, unat lane)]"
proof -
  let ?e = "\<lparr>fe_flow = f, fe_previous = p, fe_next = n, fe_lane = lane\<rparr>"
  obtain i t1 where st: "store_entry t ?e = Some (i, t1)"
    and E: "i \<notin> set is" "i < length (ft_entries t1)" "ft_entries t1 ! i = ?e"
    "\<And>j. j \<in> set is \<Longrightarrow> j < length (ft_entries t1) \<and> ft_entries t1 ! j = ft_entries t ! j"
    "length (ft_entries t1) \<le> MAX_TRACKED_FLOWS" "set ((is @ [i]) @ ft_free t1) = {..<length (ft_entries t1)}"
    "distinct ((is @ [i]) @ ft_free t1)" "ft_assignments t1 = ft_assignments t" "threaded t1 is"
    by (rule store_entry_slot [OF assms(1,2), of ?e]) blast
  let ?t2 = "t1\<lparr>ft_assignments := AList.update f i (ft_assignments t1)\<rparr>"
  have "threaded ?t2 is" "i < length (ft_entries ?t2)" "i < NO_FLOW_INDEX"
    using E by (simp_all add: threaded_def NO_FLOW_INDEX_def MAX_TRACKED_FLOWS_def)
  note l = link_newest_threaded [OF this(1) E(1) this(2,3)]
  let ?t3 = "link_newest ?t2 i"
  have sd: "ft_assignments ?t3 = AList.update f i (ft_assignments t)" "ft_free ?t3 = ft_free t1"
    using l(2) E(8) by (simp_all add: same_data_def)
  have es: "length (ft_entries ?t3) = length (ft_entries t1)"
    "\<And>j. j < length (ft_entries t1) \<Longrightarrow> entry_of ?t3 j = entry_of t1 j"
    using same_data_nth [OF l(2)] by (simp_all add: entry_of_def)
  have ent: "entry_of ?t3 i = (f, unat lane)" "\<And>j. j \<in> set is \<Longrightarrow> entry_of ?t3 j = entry_of t j"
    using es(2) E(2-4) by (simp_all add: entry_of_def)
  have fl: "fe_flow (ft_entries ?t3 ! i) = f" "\<And>j. j \<in> set is \<Longrightarrow> fe_flow (ft_entries ?t3 ! j) = fe_flow (ft_entries t ! j)"
    using ent by (simp_all add: entry_of_def)
  have none: "j \<in> set is \<Longrightarrow> fe_flow (ft_entries t ! j) \<noteq> f" for j
    using map_of_rep [OF assms(1), of f j] assms(3) by simp
  have "map_of (ft_assignments ?t3) g = Some j \<longleftrightarrow> j \<in> set (is @ [i]) \<and> fe_flow (ft_entries ?t3 ! j) = g" for g j
    using map_of_rep [OF assms(1), of g j] fl none E(1) by (auto simp: sd update_conv)
  moreover have "distinct (map fst (ft_assignments ?t3))"
    using assms(1) by (simp add: sd table_rep_def distinct_update)
  ultimately have rep: "table_rep ?t3 (is @ [i])"
    unfolding table_rep_def using l(1) E(5-7) es(1) sd(2) by simp
  have "lru_of ?t3 = lru_of t @ [(f, unat lane)]"
    using ent by (simp add: lru_of_entries [OF rep] lru_of_entries [OF assms(1)])
  with that [OF st rep] show ?thesis .
qed

lemma assign_existing:
  fixes lane :: u8
  assumes "table_rep t is" and "map_of (ft_assignments t) f = Some i"
  defines "t2 \<equiv> t\<lparr>ft_entries := (ft_entries t)[i := (ft_entries t ! i)\<lparr>fe_lane := lane\<rparr>]\<rparr>"
  shows "\<exists>is'. table_rep (ft_touch t2 i) is'"
    "lru_of (ft_touch t2 i) = filter (\<lambda>(g, _). g \<noteq> f) (lru_of t) @ [(f, unat lane)]"
proof -
  have i: "i \<in> set is" "fe_flow (ft_entries t ! i) = f" using map_of_rep [OF assms(1)] assms(2) by auto
  then obtain xs ys where "is": "is = xs @ i # ys" by (metis split_list)
  have lt: "i < length (ft_entries t)" using table_rep_flows(3) [OF assms(1)] i(1) by blast
  have links: "linked (ft_entries t2) p js n = linked (ft_entries t) p js n" for p js n
    by (rule linked_cong) (use lt in \<open>auto simp: t2_def nth_list_update\<close>)
  have fl: "fe_flow (ft_entries t2 ! j) = fe_flow (ft_entries t ! j)" for j
    using lt by (cases "j = i") (auto simp: t2_def)
  have rep: "table_rep t2 (xs @ i # ys)"
    using assms(1) links fl unfolding "is" by (simp add: table_rep_def threaded_def) (simp add: t2_def)
  note T = touch_rep [OF rep]
  show "\<exists>is'. table_rep (ft_touch t2 i) is'" using T(1) by blast
  have d: "distinct (xs @ i # ys)" using rep by (simp add: table_rep_def threaded_def)
  have same: "entry_of (ft_touch t2 i) j = entry_of t2 j" if "j \<in> set (xs @ i # ys)" for j
    using entry_of_same [OF T(2)] table_rep_flows(3) [OF rep] that by blast
  have "entry_of (ft_touch t2 i) j = entry_of t j" if "j \<in> set (xs @ ys)" for j
  proof -
    have "j \<noteq> i" using that d by auto
    then show ?thesis using same [of j] that by (simp add: entry_of_def t2_def)
  qed
  moreover have "entry_of (ft_touch t2 i) i = (f, unat lane)"
    using same [of i] lt i(2) by (simp add: entry_of_def t2_def)
  ultimately have "map (entry_of (ft_touch t2 i)) (xs @ ys @ [i]) = map (entry_of t) (xs @ ys) @ [(f, unat lane)]"
    by simp
  then show "lru_of (ft_touch t2 i) = filter (\<lambda>(g, _). g \<noteq> f) (lru_of t) @ [(f, unat lane)]"
    using lru_without [OF assms(1) [unfolded "is"]] i(2) by (simp add: lru_of_entries [OF T(1)])
qed

lemma lru_mem: "table_rep t is \<Longrightarrow> f \<in> fst ` set (lru_of t) \<longleftrightarrow> map_of (ft_assignments t) f \<noteq> None"
  by (metis lru_lookup map_of_eq_None_iff option.map_disc_iff)

lemma evict_oldest_rep:
  assumes "table_rep t is" and "is \<noteq> []"
  shows "table_rep (evict_oldest t) (drop 1 is)" "lru_of (evict_oldest t) = drop 1 (lru_of t)"
proof -
  obtain i ys where "is": "is = i # ys" using assms(2) by (cases "is") auto
  have "ft_oldest t = i" using assms(1) by (simp add: "is" table_rep_def threaded_def)
  then show "table_rep (evict_oldest t) (drop 1 is)" "lru_of (evict_oldest t) = drop 1 (lru_of t)"
    using drop_entry_rep [of t "[]" i ys] assms(1)
    by (simp_all add: evict_oldest_def Let_def "is" lru_of_entries [OF assms(1), unfolded "is"])
qed

lemma assign_refines:
  assumes "table_inv t"
  shows "\<exists>t'. ft_assign t f lane = Some t' \<and> table_inv t' \<and> lru_of t' = lru_assign (lru_of t) f (lane mod 256)"
proof -
  obtain "is" where rep: "table_rep t is" using assms by (auto simp: table_inv_def)
  show ?thesis
  proof (cases "map_of (ft_assignments t) f")
    case (Some i)
    then show ?thesis
      using assign_existing [OF rep Some, of "byte_of lane"] lru_mem [OF rep, of f] table_repI
      by (auto simp: ft_assign_def Let_def lru_assign_def)
  next
    case None
    let ?t = "if length (ft_assignments t) \<ge> MAX_TRACKED_FLOWS then evict_oldest t else t"
    let ?l = "if length (lru_of t) \<ge> MAX_TRACKED_FLOWS then drop 1 (lru_of t) else lru_of t"
    have len: "length (ft_assignments t) = length is" "length (lru_of t) = length is"
      using table_rep_flows(2) [OF rep] by (simp_all add: lru_of_entries [OF rep])
    have max: "length is \<le> MAX_TRACKED_FLOWS"
      using distinct_bounded [of "is" "length (ft_entries t)"] rep by (auto simp: table_rep_def threaded_def)
    have "\<exists>is'. table_rep ?t is' \<and> length is' < MAX_TRACKED_FLOWS \<and> lru_of ?t = ?l
        \<and> map_of (ft_assignments ?t) f = None"
    proof (cases "length is \<ge> MAX_TRACKED_FLOWS")
      case True
      then have ne: "is \<noteq> []" by (auto simp: MAX_TRACKED_FLOWS_def)
      have "map_of (ft_assignments (evict_oldest t)) f = None"
        using lru_mem [OF evict_oldest_rep(1) [OF rep ne], of f] lru_mem [OF rep, of f] None
        unfolding evict_oldest_rep(2) [OF rep ne] by (auto dest: in_set_dropD)
      then show ?thesis using True evict_oldest_rep [OF rep ne] len max ne
        by (intro exI [of _ "drop 1 is"]) (auto simp: MAX_TRACKED_FLOWS_def)
    next
      case False
      then show ?thesis using rep len None by (intro exI [of _ "is"]) auto
    qed
    then obtain is' where t: "table_rep ?t is'" "length is' < MAX_TRACKED_FLOWS" "lru_of ?t = ?l"
      "map_of (ft_assignments ?t) f = None" by blast
    obtain i t1 where st: "store_entry ?t \<lparr>fe_flow = f, fe_previous = NO_FLOW_INDEX, fe_next = NO_FLOW_INDEX,
        fe_lane = byte_of lane\<rparr> = Some (i, t1)"
      and new: "table_rep (link_newest (t1\<lparr>ft_assignments := AList.update f i (ft_assignments t1)\<rparr>) i) (is' @ [i])"
        "lru_of (link_newest (t1\<lparr>ft_assignments := AList.update f i (ft_assignments t1)\<rparr>) i) = lru_of ?t @ [(f, unat (byte_of lane))]"
      by (rule insert_entry_rep [OF t(1,2,4)])
    have "ft_assign t f lane = Some (link_newest (t1\<lparr>ft_assignments := AList.update f i (ft_assignments t1)\<rparr>) i)"
      using None st by (simp add: ft_assign_def Let_def)
    moreover have "f \<notin> fst ` set (lru_of t)" using lru_mem [OF rep, of f] None by simp
    ultimately show ?thesis using new t(3) table_repI [OF new(1)] by (auto simp: lru_assign_def)
  qed
qed

lemma touch_refines:
  assumes "table_inv t" and "ft_assignment t f = Some (i, lane)"
  shows "table_inv (ft_touch t i)" "lru_of (ft_touch t i) = lru_touch (lru_of t) f"
proof -
  obtain "is" where rep: "table_rep t is" using assms(1) by (auto simp: table_inv_def)
  have m: "map_of (ft_assignments t) f = Some i" using assms(2) by (auto simp: ft_assignment_def split: option.splits)
  then have i: "i \<in> set is" "fe_flow (ft_entries t ! i) = f" using map_of_rep [OF rep] by auto
  then obtain xs ys where "is": "is = xs @ i # ys" by (metis split_list)
  note T = touch_rep [OF rep [unfolded "is"]]
  show "table_inv (ft_touch t i)" using table_repI [OF T(1)] by blast
  have "map (entry_of (ft_touch t i)) (xs @ ys @ [i]) = map (entry_of t) (xs @ ys @ [i])"
    using entry_of_same [OF T(2)] table_rep_flows(3) [OF rep [unfolded "is"]] by auto
  then show "lru_of (ft_touch t i) = lru_touch (lru_of t) f"
    using lru_without [OF rep [unfolded "is"]] lru_lookup [OF rep, of f] m i(2)
    by (simp add: lru_of_entries [OF T(1)] lru_touch_def) (simp add: entry_of_def)
qed

lemma remove_refines:
  assumes "table_inv t"
  shows "table_inv (ft_remove t f)" "lru_of (ft_remove t f) = lru_remove (lru_of t) f"
proof -
  obtain "is" where rep: "table_rep t is" using assms by (auto simp: table_inv_def)
  have "table_inv (ft_remove t f) \<and> lru_of (ft_remove t f) = lru_remove (lru_of t) f"
  proof (cases "map_of (ft_assignments t) f")
    case None
    then have "f \<notin> fst ` set (lru_of t)" using lru_mem [OF rep, of f] by simp
    then have "lru_remove (lru_of t) f = lru_of t" by (force simp: lru_remove_def filter_id_conv)
    then show ?thesis using None assms by (simp add: ft_remove_def)
  next
    case (Some i)
    then have i: "i \<in> set is" "fe_flow (ft_entries t ! i) = f" using map_of_rep [OF rep] by auto
    then obtain xs ys where "is": "is = xs @ i # ys" by (metis split_list)
    note D = drop_entry_rep [OF rep [unfolded "is"], unfolded i(2)]
    show ?thesis
      using Some D table_repI [OF D(1)] lru_without [OF rep [unfolded "is"]] i(2)
      by (simp add: ft_remove_def Let_def lru_remove_def)
  qed
  then show "table_inv (ft_remove t f)" "lru_of (ft_remove t f) = lru_remove (lru_of t) f" by blast+
qed

lemma lookup_refines:
  "table_inv t \<Longrightarrow> map_option snd (ft_assignment t f) = map_of (lru_of t) f"
  using lru_lookup [of t "ft_chain t" f] by (auto simp: table_inv_def ft_assignment_def split: option.splits)

lemma default_table_rep: "table_inv default_table" "lru_of default_table = []"
  by (simp_all add: table_inv_def table_rep_def default_table_def threaded_def ft_chain_def lru_of_def)

subsection \<open>What a client relies on\<close>

text \<open>The contract of a bounded memory of lanes, over the list it stands for.\<close>

locale lane_memory =
  fixes invar :: "'t \<Rightarrow> bool"
    and lookup :: "'t \<Rightarrow> flow_key \<Rightarrow> nat option"
    and assign_lane :: "'t \<Rightarrow> flow_key \<Rightarrow> nat \<Rightarrow> 't option"
    and refresh :: "'t \<Rightarrow> flow_key \<Rightarrow> 't"
    and forget :: "'t \<Rightarrow> flow_key \<Rightarrow> 't"
    and recency :: "'t \<Rightarrow> lru"
  assumes lookup_law: "invar t \<Longrightarrow> lookup t f = map_of (recency t) f"
    and assign_law: "invar t \<Longrightarrow>
      \<exists>t'. assign_lane t f lane = Some t' \<and> invar t' \<and> recency t' = lru_assign (recency t) f (lane mod 256)"
    and refresh_law: "invar t \<Longrightarrow> invar (refresh t f) \<and> recency (refresh t f) = lru_touch (recency t) f"
    and forget_law: "invar t \<Longrightarrow> invar (forget t f) \<and> recency (forget t f) = lru_remove (recency t) f"
begin

lemma lookup_assigned:
  assumes "invar t" and "assign_lane t f lane = Some t'"
  shows "invar t'" "lookup t' f = Some (lane mod 256)"
proof -
  from assign_law [OF assms(1), of f lane] assms(2)
  have t': "invar t'" "recency t' = lru_assign (recency t) f (lane mod 256)" by auto
  then show "invar t'" by simp
  have "map_of (filter (\<lambda>(g, _). g \<noteq> f) l) f = None" for l :: lru by (induction l) auto
  moreover have "f \<notin> fst ` set l \<Longrightarrow> map_of (drop n l) f = None" for l :: lru and n
    by (auto simp: map_of_eq_None_iff dest: in_set_dropD)
  moreover have "f \<notin> fst ` set l \<Longrightarrow> map_of l f = None" for l :: lru by (simp add: map_of_eq_None_iff)
  ultimately show "lookup t' f = Some (lane mod 256)"
    using t' lookup_law [OF t'(1), of f] by (auto simp: lru_assign_def Let_def map_add_def split: if_splits)
qed

lemma lookup_refreshed:
  assumes "invar t"
  shows "lookup (refresh t f) f = lookup t f"
proof -
  have "map_of (filter (\<lambda>(g, _). g \<noteq> f) l @ [(f, lane)]) f = Some lane" for l :: lru and lane by (induction l) auto
  then have "map_of (lru_touch l f) f = map_of l f" for l :: lru
    by (simp add: lru_touch_def split: option.split)
  then show ?thesis using refresh_law [OF assms, of f] lookup_law [OF assms] lookup_law [of "refresh t f" f] by simp
qed

lemma lookup_forgotten: "invar t \<Longrightarrow> lookup (forget t f) f = None"
  using forget_law [of t f] lookup_law [of "forget t f" f] by (auto simp: lru_remove_def map_of_eq_None_iff)

end

definition table_lookup :: "flow_table \<Rightarrow> flow_key \<Rightarrow> nat option" where
  "table_lookup t f = map_option snd (ft_assignment t f)"

definition table_refresh :: "flow_table \<Rightarrow> flow_key \<Rightarrow> flow_table" where
  "table_refresh t f = (case ft_assignment t f of None \<Rightarrow> t | Some (i, _) \<Rightarrow> ft_touch t i)"

interpretation flow_memory: lane_memory table_inv table_lookup ft_assign table_refresh ft_remove lru_of
proof
  fix t f lane
  assume inv: "table_inv t"
  show "table_lookup t f = map_of (lru_of t) f" using lookup_refines [OF inv] by (simp add: table_lookup_def)
  show "\<exists>t'. ft_assign t f lane = Some t' \<and> table_inv t' \<and> lru_of t' = lru_assign (lru_of t) f (lane mod 256)"
    by (rule assign_refines [OF inv])
  show "table_inv (table_refresh t f) \<and> lru_of (table_refresh t f) = lru_touch (lru_of t) f"
  proof (cases "ft_assignment t f")
    case None
    then have "map_of (lru_of t) f = None" using lookup_refines [OF inv, of f] by simp
    then show ?thesis using None inv by (simp add: table_refresh_def lru_touch_def)
  next
    case (Some x)
    then show ?thesis using touch_refines [OF inv, of f] by (cases x) (simp add: table_refresh_def)
  qed
  show "table_inv (ft_remove t f) \<and> lru_of (ft_remove t f) = lru_remove (lru_of t) f"
    using remove_refines [OF inv] by blast
qed

subsection \<open>Properties\<close>

datatype flow_op = AssignLane flow_key nat | Refresh flow_key | Forget flow_key

fun table_run :: "flow_table \<Rightarrow> flow_op list \<Rightarrow> flow_table option" where
  "table_run t [] = Some t"
| "table_run t (AssignLane f lane # ops) = (case ft_assign t f lane of None \<Rightarrow> None | Some t' \<Rightarrow> table_run t' ops)"
| "table_run t (Refresh f # ops) = table_run (table_refresh t f) ops"
| "table_run t (Forget f # ops) = table_run (ft_remove t f) ops"

fun lru_run :: "lru \<Rightarrow> flow_op list \<Rightarrow> lru" where
  "lru_run l [] = l"
| "lru_run l (AssignLane f lane # ops) = lru_run (lru_assign l f (lane mod 256)) ops"
| "lru_run l (Refresh f # ops) = lru_run (lru_touch l f) ops"
| "lru_run l (Forget f # ops) = lru_run (lru_remove l f) ops"

lemma table_run_refines:
  "table_inv t \<Longrightarrow> \<exists>t'. table_run t ops = Some t' \<and> table_inv t' \<and> lru_of t' = lru_run (lru_of t) ops"
proof (induction ops arbitrary: t)
  case (Cons op ops)
  show ?case
  proof (cases op)
    case (AssignLane f lane)
    obtain t' where "ft_assign t f lane = Some t'" "table_inv t'" "lru_of t' = lru_assign (lru_of t) f (lane mod 256)"
      using assign_refines [OF Cons.prems] by blast
    then show ?thesis using Cons.IH [of t'] AssignLane by simp
  next
    case (Refresh f)
    then show ?thesis using Cons.IH [of "table_refresh t f"] flow_memory.refresh_law [OF Cons.prems, of f] by simp
  next
    case (Forget f)
    then show ?thesis using Cons.IH [of "ft_remove t f"] flow_memory.forget_law [OF Cons.prems, of f] by simp
  qed
qed simp

text \<open>C34: the doubly linked arena of the flow table implements the recency list: every sequence of
  assignments, touches and removals runs without a panic, keeps the links, the index and the free
  list consistent, and leaves the flows in the order of the list specification.\<close>

theorem flow_table_refines_lru:
  "\<exists>t. table_run default_table ops = Some t \<and> table_inv t \<and> lru_of t = lru_run [] ops"
  using table_run_refines [OF default_table_rep(1), of ops] default_table_rep(2) by simp

text \<open>the flow table tracks at most 4096 flows at any time, each flow once.\<close>

theorem flow_table_bounded:
  assumes "table_run default_table ops = Some t"
  shows "length (ft_entries t) \<le> MAX_TRACKED_FLOWS \<and> length (lru_of t) \<le> MAX_TRACKED_FLOWS
    \<and> distinct (map fst (lru_of t))"
proof -
  have inv: "table_inv t" using table_run_refines [OF default_table_rep(1), of ops] assms by simp
  then have rep: "table_rep t (ft_chain t)" by (simp add: table_inv_def)
  have "length (ft_chain t) \<le> length (ft_entries t)"
    using rep by (intro distinct_bounded) (auto simp: table_rep_def threaded_def)
  moreover have "distinct (map fst (lru_of t))"
    using table_rep_flows(1) [OF rep] rep
    by (simp add: lru_of_entries [OF rep] entry_of_def comp_def distinct_map table_rep_def threaded_def)
  ultimately show ?thesis using rep by (auto simp: table_rep_def lru_of_entries [OF rep])
qed

theorem flow_table_bounded_witness:
  "\<exists>t. table_run default_table [AssignLane default_flow 1, AssignLane (default_flow\<lparr>protocol := 6\<rparr>) 2,
      Refresh default_flow] = Some t
    \<and> lru_of t = [(default_flow\<lparr>protocol := 6\<rparr>, 2), (default_flow, 1)]
    \<and> length (lru_of t) \<le> MAX_TRACKED_FLOWS \<and> distinct (map fst (lru_of t))"
proof -
  let ?ops = "[AssignLane default_flow 1, AssignLane (default_flow\<lparr>protocol := 6\<rparr>) 2, Refresh default_flow]"
  have "map_option lru_of (table_run default_table ?ops) = Some [(default_flow\<lparr>protocol := 6\<rparr>, 2), (default_flow, 1)]"
    by code_simp
  then obtain t where t: "table_run default_table ?ops = Some t"
    "lru_of t = [(default_flow\<lparr>protocol := 6\<rparr>, 2), (default_flow, 1)]" by (auto simp del: table_run.simps)
  from flow_table_bounded [OF t(1)] t show ?thesis by blast
qed

end
