(* ===== verification/Packet_Queue.thy ===== *)
theory Packet_Queue
  imports Fifo_Spec Wire_Ip
begin

text \<open>
  The downlink packet queue of the server, \<open>porta-server/src/data/queue.rs\<close>. One record holds
  the state behind the mutex, the two published counters, the configuration, and what the queue
  reports: the calls on its \<open>DataMetrics\<close> in order, and whether a wake-up permit of \<open>ready\<close> has been
  left for the receiver. Times are arguments, as in \<open>enqueue_at\<close> and \<open>dequeue_at\<close>. The server keeps
  its own copy of the classifier of \<open>porta-wire\<close>; it is modelled from the server's source and shown
  to agree.
\<close>

datatype queue_policy = ClassAware | DropOldest

datatype drop_reason =
    QueueOldest | QueueFull | QueueTail | QueueExpired | SessionClosed | InvalidTunPacket | NoSession

datatype metric_call = Dropped drop_reason | AdjustQueueBytes nat int

record queue_config =
  max_packets :: nat
  max_bytes :: nat
  tcp_max_age :: duration
  datagram_max_age :: duration
  control_max_age :: duration
  policy :: queue_policy

definition default_config :: queue_config where
  "default_config = \<lparr>max_packets = 96, max_bytes = 131072, tcp_max_age = millis 500,
     datagram_max_age = millis 150, control_max_age = millis 250, policy = ClassAware\<rparr>"

definition masque_config :: queue_config where
  "masque_config = \<lparr>max_packets = 256, max_bytes = 256 * 9000, tcp_max_age = 0,
     datagram_max_age = 0, control_max_age = 0, policy = DropOldest\<rparr>"

datatype enqueue_result = Accepted | DroppedFull | DroppedTail | Closed

record queued_packet =
  qp_data :: bytes
  qp_class :: packet_class
  qp_enqueued :: instant

record packet_queue =
  q_items :: "queued_packet list"
  q_bytes :: nat
  q_closed :: bool
  q_config :: queue_config
  q_metrics :: bool
  q_lane :: "nat option"
  queued_bytes :: nat
  queued_packets :: nat
  q_calls :: "metric_call list"
  q_ready :: bool

subsection \<open>Classification\<close>

definition server_hash_flow :: "flow_key \<Rightarrow> u32" where
  "server_hash_flow flow =
    foldl (\<lambda>hash value. (hash XOR ucast value) * 16777619) 2166136261
      (flow_source flow @ flow_destination flow @ u16_to_be_bytes (source_port flow)
        @ u16_to_be_bytes (destination_port flow) @ u16_to_be_bytes (fragment_id flow)
        @ [protocol flow, if fragmented flow then 1 else 0])"

definition server_tcp_ack_only :: "bytes \<Rightarrow> nat \<Rightarrow> bool" where
  "server_tcp_ack_only packet ip_header_length =
    (if length packet < ip_header_length + 20 then False
     else
       let tcp_header_length = unat (drop_bit 4 (packet ! (ip_header_length + 12))) * 4
       in if tcp_header_length < 20 \<or> length packet < ip_header_length + tcp_header_length then False
       else
         let flags = packet ! (ip_header_length + 13)
         in flags AND 0x10 \<noteq> 0 \<and> flags AND (0x01 OR 0x02 OR 0x04) = 0
            \<and> length packet = ip_header_length + tcp_header_length)"

definition server_classify_ipv4 :: "bytes \<Rightarrow> packet_metadata" where
  "server_classify_ipv4 packet =
    (let flow = \<lparr>flow_source = [0, 0, 0, 0], flow_destination = [0, 0, 0, 0], source_port = 0,
           destination_port = 0, fragment_id = 0, protocol = 0, fragmented = False\<rparr>;
         metadata = \<lparr>meta_class = Datagram, meta_flow = flow, meta_hash = 0\<rparr>
     in if length packet < 20 \<or> drop_bit 4 (packet ! 0) \<noteq> 4 then metadata
     else
       let header_len = unat (packet ! 0 AND 15) * 4
       in if header_len < 20 \<or> header_len > length packet then metadata
       else
         let flow = flow\<lparr>flow_source := range_of 12 16 packet\<rparr>;
             flow = flow\<lparr>flow_destination := range_of 16 20 packet\<rparr>;
             flow = flow\<lparr>protocol := packet ! 9\<rparr>;
             flags_and_offset = u16_from_be_bytes (packet ! 6) (packet ! 7);
             flow = flow\<lparr>fragmented := (flags_and_offset AND 0x3fff \<noteq> 0)\<rparr>;
             flow = (if fragmented flow
               then flow\<lparr>fragment_id := u16_from_be_bytes (packet ! 4) (packet ! 5)\<rparr> else flow);
             has_ports = (\<not> fragmented flow \<and> protocol flow \<in> {6, 17} \<and> length packet \<ge> header_len + 4);
             flow = (if has_ports
               then flow
                 \<lparr>source_port := u16_from_be_bytes (packet ! header_len) (packet ! (header_len + 1)),
                  destination_port :=
                    u16_from_be_bytes (packet ! (header_len + 2)) (packet ! (header_len + 3))\<rparr>
               else flow);
             dns = (source_port flow = 53 \<or> destination_port flow = 53);
             cls =
               (if protocol flow = 1 then Control
                else if protocol flow = 6 \<and> has_ports \<and> (dns \<or> server_tcp_ack_only packet header_len)
                  then Control
                else if protocol flow = 6 then Tcp
                else if protocol flow = 17 \<and> has_ports \<and> (dns \<or> length packet \<le> 256) then Control
                else Datagram)
         in \<lparr>meta_class = cls, meta_flow = flow, meta_hash = server_hash_flow flow\<rparr>)"

subsection \<open>Reports\<close>

definition publish_load :: "packet_queue \<Rightarrow> packet_queue" where
  "publish_load q = q\<lparr>queued_bytes := q_bytes q, queued_packets := length (q_items q)\<rparr>"

definition adjust_bytes :: "packet_queue \<Rightarrow> int \<Rightarrow> packet_queue" where
  "adjust_bytes q delta =
    (if delta \<noteq> 0 then
       (case (q_metrics q, q_lane q) of
          (True, Some lane) \<Rightarrow> q\<lparr>q_calls := q_calls q @ [AdjustQueueBytes lane delta]\<rparr>
        | _ \<Rightarrow> q)
     else q)"

definition record_drop :: "packet_queue \<Rightarrow> drop_reason \<Rightarrow> packet_queue" where
  "record_drop q reason =
    (if q_metrics q then q\<lparr>q_calls := q_calls q @ [Dropped reason]\<rparr> else q)"

subsection \<open>Operations\<close>

definition queue_new :: "queue_config \<Rightarrow> bool \<Rightarrow> nat option \<Rightarrow> packet_queue" where
  "queue_new config metrics lane =
    \<lparr>q_items = [], q_bytes = 0, q_closed = False, q_config = config, q_metrics = metrics,
     q_lane = lane, queued_bytes = 0, queued_packets = 0, q_calls = [], q_ready = False\<rparr>"

definition fits :: "packet_queue \<Rightarrow> nat \<Rightarrow> bool" where
  "fits q packet_bytes \<longleftrightarrow> length (q_items q) < max_packets (q_config q)
     \<and> q_bytes q + packet_bytes \<le> max_bytes (q_config q)"

definition append_locked :: "packet_queue \<Rightarrow> bytes \<Rightarrow> packet_class \<Rightarrow> instant \<Rightarrow> packet_queue" where
  "append_locked q data cls now =
    (let was_empty = (q_items q = []);
         q = q\<lparr>q_items := q_items q @ [\<lparr>qp_data = data, qp_class = cls, qp_enqueued = now\<rparr>]\<rparr>;
         q = publish_load (q\<lparr>q_bytes := q_bytes q + length data\<rparr>);
         q = adjust_bytes q (int (length data))
     in if was_empty then q\<lparr>q_ready := True\<rparr> else q)"

definition remove_locked :: "packet_queue \<Rightarrow> nat \<Rightarrow> packet_queue" where
  "remove_locked q index =
    (if index < length (q_items q) then
       let item = q_items q ! index;
           q = q\<lparr>q_items := remove_nth index (q_items q)\<rparr>;
           q = publish_load (q\<lparr>q_bytes := q_bytes q - length (qp_data item)\<rparr>)
       in adjust_bytes q (- int (length (qp_data item)))
     else q)"

definition max_age_of :: "queue_config \<Rightarrow> packet_class \<Rightarrow> duration" where
  "max_age_of config cls =
    (case cls of Tcp \<Rightarrow> tcp_max_age config | Datagram \<Rightarrow> datagram_max_age config
       | Control \<Rightarrow> control_max_age config)"

text \<open>The test of \<open>drop_expired_locked\<close> that keeps an item.\<close>

definition alive :: "queue_config \<Rightarrow> instant \<Rightarrow> queued_packet \<Rightarrow> bool" where
  "alive config now item \<longleftrightarrow>
    (let max_age = max_age_of config (qp_class item)
     in max_age = 0 \<or> now - qp_enqueued item < max_age)"

lemma publish_load_simps [simp]:
  "q_items (publish_load q) = q_items q" "q_bytes (publish_load q) = q_bytes q"
  "q_closed (publish_load q) = q_closed q" "q_config (publish_load q) = q_config q"
  "q_metrics (publish_load q) = q_metrics q" "q_lane (publish_load q) = q_lane q"
  "queued_bytes (publish_load q) = q_bytes q" "queued_packets (publish_load q) = length (q_items q)"
  "q_calls (publish_load q) = q_calls q" "q_ready (publish_load q) = q_ready q"
  by (simp_all add: publish_load_def)

lemma adjust_bytes_simps [simp]:
  "q_items (adjust_bytes q d) = q_items q" "q_bytes (adjust_bytes q d) = q_bytes q"
  "q_closed (adjust_bytes q d) = q_closed q" "q_config (adjust_bytes q d) = q_config q"
  "q_metrics (adjust_bytes q d) = q_metrics q" "q_lane (adjust_bytes q d) = q_lane q"
  "queued_bytes (adjust_bytes q d) = queued_bytes q" "queued_packets (adjust_bytes q d) = queued_packets q"
  "q_ready (adjust_bytes q d) = q_ready q"
  by (simp_all add: adjust_bytes_def split: bool.split option.split)

lemma record_drop_simps [simp]:
  "q_items (record_drop q r) = q_items q" "q_bytes (record_drop q r) = q_bytes q"
  "q_closed (record_drop q r) = q_closed q" "q_config (record_drop q r) = q_config q"
  "q_metrics (record_drop q r) = q_metrics q" "q_lane (record_drop q r) = q_lane q"
  "queued_bytes (record_drop q r) = queued_bytes q" "queued_packets (record_drop q r) = queued_packets q"
  "q_ready (record_drop q r) = q_ready q"
  by (simp_all add: record_drop_def)

lemma remove_locked_items [simp]:
  "q_items (remove_locked q i) = (if i < length (q_items q) then remove_nth i (q_items q) else q_items q)"
  "q_closed (remove_locked q i) = q_closed q" "q_config (remove_locked q i) = q_config q"
  "q_metrics (remove_locked q i) = q_metrics q" "q_lane (remove_locked q i) = q_lane q"
  by (simp_all add: remove_locked_def Let_def)

function drop_expired_from :: "packet_queue \<Rightarrow> instant \<Rightarrow> nat \<Rightarrow> packet_queue" where
  "drop_expired_from q now index =
    (if index < length (q_items q) then
       if alive (q_config q) now (q_items q ! index) then drop_expired_from q now (index + 1)
       else drop_expired_from (record_drop (remove_locked q index) QueueExpired) now index
     else q)"
  by pat_completeness auto
termination
  by (relation "measure (\<lambda>(q, _, index). length (q_items q) - index)") (auto simp: length_remove_nth)

declare drop_expired_from.simps [simp del]

definition drop_expired_locked :: "packet_queue \<Rightarrow> instant \<Rightarrow> packet_queue" where
  "drop_expired_locked q now = drop_expired_from q now 0"

definition oldest_replaceable :: "queued_packet list \<Rightarrow> packet_class \<Rightarrow> nat option" where
  "oldest_replaceable items incoming =
    (case position (\<lambda>item. qp_class item = Datagram) items of
       Some i \<Rightarrow> Some i
     | None \<Rightarrow>
         if incoming = Control then position (\<lambda>item. qp_class item = Control) items else None)"

definition select_victim :: "packet_queue \<Rightarrow> packet_class \<Rightarrow> nat option" where
  "select_victim q incoming =
    (case policy (q_config q) of
       DropOldest \<Rightarrow> if q_items q \<noteq> [] then Some 0 else None
     | ClassAware \<Rightarrow> oldest_replaceable (q_items q) incoming)"

lemma oldest_replaceable_Some:
  "oldest_replaceable items c = Some i \<Longrightarrow>
    i < length items \<and> (qp_class (items ! i) = Datagram \<or> c = Control \<and> qp_class (items ! i) = Control)"
  by (auto simp: oldest_replaceable_def dest!: position_Some split: option.splits if_splits)

lemma select_victim_less: "select_victim q c = Some i \<Longrightarrow> i < length (q_items q)"
  by (auto simp: select_victim_def dest: oldest_replaceable_Some split: queue_policy.splits if_splits)

text \<open>The \<open>while !fits\<close> loop of \<open>enqueue_at\<close>: the error result when no victim is left, and the
  queue.\<close>

function make_room :: "packet_queue \<Rightarrow> nat \<Rightarrow> packet_class \<Rightarrow> enqueue_result option \<times> packet_queue" where
  "make_room q packet_bytes cls =
    (if fits q packet_bytes then (None, q)
     else (case select_victim q cls of
             None \<Rightarrow>
               if cls = Tcp then (Some DroppedTail, record_drop q QueueTail)
               else (Some DroppedFull, record_drop q QueueFull)
           | Some victim \<Rightarrow>
               make_room (record_drop (remove_locked q victim) QueueOldest) packet_bytes cls))"
  by pat_completeness auto
termination
  by (relation "measure (\<lambda>(q, _, _). length (q_items q))")
    (auto dest!: select_victim_less simp: length_remove_nth)

declare make_room.simps [simp del]

definition enqueue_at :: "packet_queue \<Rightarrow> bytes \<Rightarrow> instant \<Rightarrow> enqueue_result \<times> packet_queue" where
  "enqueue_at q packet now =
    (let metadata = server_classify_ipv4 packet
     in if q_closed q then (Closed, q)
     else
       let q = drop_expired_locked q now
       in if fits q (length packet) then (Accepted, append_locked q packet (meta_class metadata) now)
       else (case make_room q (length packet) (meta_class metadata) of
               (Some result, q) \<Rightarrow> (result, q)
             | (None, q) \<Rightarrow> (Accepted, append_locked q packet (meta_class metadata) now)))"

definition dequeue_at :: "packet_queue \<Rightarrow> instant \<Rightarrow> bytes option \<times> packet_queue" where
  "dequeue_at q now =
    (if q_closed q then (None, q)
     else
       let q = drop_expired_locked q now
       in (case q_items q of
             [] \<Rightarrow> (None, q)
           | item # items \<Rightarrow>
               let q = q\<lparr>q_items := items, q_bytes := q_bytes q - length (qp_data item)\<rparr>;
                   q = adjust_bytes (publish_load q) (- int (length (qp_data item)))
               in (Some (qp_data item), q)))"

definition close_queue :: "packet_queue \<Rightarrow> packet_queue" where
  "close_queue q =
    (if q_closed q then q
     else
       let removed = q_bytes q;
           q = q\<lparr>q_closed := True, q_items := [], q_bytes := 0\<rparr>;
           q = q\<lparr>queued_bytes := 0, queued_packets := 0\<rparr>;
           q = adjust_bytes q (- int removed)
       in q\<lparr>q_ready := True\<rparr>)"

subsection \<open>The accounting invariant\<close>

definition bytes_of :: "queued_packet list \<Rightarrow> nat" where
  "bytes_of items = sum_list (map (length \<circ> qp_data) items)"

text \<open>The sum of the adjustments reported to the gauge of the queue's lane.\<close>

fun adjustment :: "metric_call \<Rightarrow> int" where
  "adjustment (AdjustQueueBytes _ delta) = delta"
| "adjustment (Dropped _) = 0"

definition gauge :: "packet_queue \<Rightarrow> int" where
  "gauge q = sum_list (map adjustment (q_calls q))"

definition accounted :: "packet_queue \<Rightarrow> bool" where
  "accounted q \<longleftrightarrow> q_bytes q = bytes_of (q_items q) \<and> queued_bytes q = q_bytes q
     \<and> queued_packets q = length (q_items q)
     \<and> (q_metrics q \<and> q_lane q \<noteq> None \<longrightarrow> gauge q = int (q_bytes q))"

definition bounded :: "packet_queue \<Rightarrow> bool" where
  "bounded q \<longleftrightarrow> length (q_items q) \<le> max_packets (q_config q) \<and> q_bytes q \<le> max_bytes (q_config q)
     \<and> (q_closed q \<longrightarrow> q_items q = [])"

lemma bytes_of_simps [simp]:
  "bytes_of [] = 0" "bytes_of (x # xs) = length (qp_data x) + bytes_of xs"
  "bytes_of (xs @ ys) = bytes_of xs + bytes_of ys"
  by (simp_all add: bytes_of_def)

lemma bytes_of_remove_nth:
  "i < length xs \<Longrightarrow> bytes_of (remove_nth i xs) + length (qp_data (xs ! i)) = bytes_of xs"
proof -
  assume "i < length xs"
  then have "xs = take i xs @ xs ! i # drop (Suc i) xs" by (rule id_take_nth_drop)
  then have "bytes_of xs = bytes_of (take i xs @ xs ! i # drop (Suc i) xs)" by simp
  then show ?thesis by (simp add: remove_nth_def)
qed

lemma bytes_of_filter: "bytes_of (filter P xs) \<le> bytes_of xs"
  by (induction xs) auto

lemma gauge_adjust [simp]:
  "gauge (adjust_bytes q d) = (if q_metrics q \<and> q_lane q \<noteq> None then gauge q + d else gauge q)"
  by (auto simp: gauge_def adjust_bytes_def split: bool.splits option.splits)

lemma gauge_simps [simp]:
  "gauge (publish_load q) = gauge q" "gauge (record_drop q r) = gauge q"
  "gauge (q\<lparr>q_items := xs\<rparr>) = gauge q" "gauge (q\<lparr>q_bytes := n\<rparr>) = gauge q"
  "gauge (q\<lparr>q_closed := c\<rparr>) = gauge q" "gauge (q\<lparr>q_ready := c\<rparr>) = gauge q"
  "gauge (q\<lparr>queued_bytes := n\<rparr>) = gauge q" "gauge (q\<lparr>queued_packets := n\<rparr>) = gauge q"
  by (simp_all add: gauge_def record_drop_def)

lemma accounted_remove: "accounted q \<Longrightarrow> accounted (remove_locked q i)"
  using bytes_of_remove_nth [of i "q_items q"]
  by (auto simp: accounted_def remove_locked_def Let_def)

lemma accounted_record_drop [simp]: "accounted (record_drop q r) = accounted q"
  by (simp add: accounted_def)

lemma accounted_append: "accounted q \<Longrightarrow> accounted (append_locked q data cls now)"
  by (auto simp: accounted_def append_locked_def Let_def)

lemma drop_expired_from:
  "accounted q \<Longrightarrow> accounted (drop_expired_from q now i)
    \<and> q_items (drop_expired_from q now i) = take i (q_items q) @ filter (alive (q_config q) now) (drop i (q_items q))
    \<and> q_config (drop_expired_from q now i) = q_config q \<and> q_closed (drop_expired_from q now i) = q_closed q"
proof (induction q now i rule: drop_expired_from.induct)
  case (1 q now i)
  let ?item = "q_items q ! i"
  consider "\<not> i < length (q_items q)" | "i < length (q_items q)" "alive (q_config q) now ?item"
    | "i < length (q_items q)" "\<not> alive (q_config q) now ?item" by blast
  then show ?case
  proof cases
    case 2
    then have d: "drop i (q_items q) = ?item # drop (Suc i) (q_items q)" by (simp add: Cons_nth_drop_Suc)
    from 2 "1.IH"(1) [OF 2] "1.prems" show ?thesis
      by (simp add: drop_expired_from.simps [of q now i] d take_Suc_conv_app_nth)
  next
    case 3
    then have d: "drop i (q_items q) = ?item # drop (Suc i) (q_items q)" by (simp add: Cons_nth_drop_Suc)
    from 3 "1.IH"(2) [OF 3] accounted_remove [OF "1.prems"] show ?thesis
      by (simp add: drop_expired_from.simps [of q now i] d remove_nth_def)
  qed (use "1.prems" in \<open>simp add: drop_expired_from.simps [of q now i]\<close>)
qed

lemma drop_expired:
  assumes "accounted q"
  shows "accounted (drop_expired_locked q now)"
    "q_items (drop_expired_locked q now) = filter (alive (q_config q) now) (q_items q)"
    "q_config (drop_expired_locked q now) = q_config q" "q_closed (drop_expired_locked q now) = q_closed q"
  using drop_expired_from [OF assms, of now 0] by (simp_all add: drop_expired_locked_def)

text \<open>What \<open>make_room\<close> may remove under the class-aware policy.\<close>

definition replaceable :: "packet_class \<Rightarrow> queued_packet \<Rightarrow> bool" where
  "replaceable incoming item \<longleftrightarrow>
    qp_class item = Datagram \<or> incoming = Control \<and> qp_class item = Control"

lemma oldest_replaceable_None:
  "oldest_replaceable items cls = None \<longleftrightarrow> (\<forall>x \<in> set items. \<not> replaceable cls x)"
proof (cases "position (\<lambda>item. qp_class item = Datagram) items")
  case None
  then have "\<forall>x \<in> set items. qp_class x \<noteq> Datagram" by (simp add: position_None)
  then show ?thesis unfolding oldest_replaceable_def None by (auto simp: replaceable_def position_None)
next
  case (Some i)
  then have "items ! i \<in> set items" "replaceable cls (items ! i)"
    using position_Some [OF Some] by (auto simp: replaceable_def)
  then show ?thesis using Some by (auto simp: oldest_replaceable_def)
qed

lemma make_room:
  assumes "make_room q n cls = (res, q')" and "accounted q"
  shows "accounted q' \<and> q_config q' = q_config q \<and> q_closed q' = q_closed q
    \<and> subseq (q_items q') (q_items q) \<and> (res = None \<longleftrightarrow> fits q' n)
    \<and> res \<in> {None, Some (if cls = Tcp then DroppedTail else DroppedFull)}
    \<and> (policy (q_config q) = ClassAware \<longrightarrow>
        filter (\<lambda>x. \<not> replaceable cls x) (q_items q') = filter (\<lambda>x. \<not> replaceable cls x) (q_items q)
        \<and> (res \<noteq> None \<longrightarrow> (\<forall>x \<in> set (q_items q'). \<not> replaceable cls x)))"
  using assms
proof (induction q n cls rule: make_room.induct)
  case (1 q n cls)
  show ?case
  proof (cases "fits q n")
    case True
    with "1.prems" show ?thesis by (simp add: make_room.simps [of q n cls])
  next
    case no: False
    show ?thesis
    proof (cases "select_victim q cls")
      case None
      then have "policy (q_config q) = ClassAware \<longrightarrow> (\<forall>x \<in> set (q_items q). \<not> replaceable cls x)"
        by (auto simp: select_victim_def oldest_replaceable_None)
      moreover have "q' = record_drop q (if cls = Tcp then QueueTail else QueueFull)"
          "res = Some (if cls = Tcp then DroppedTail else DroppedFull)"
        using "1.prems"(1) no None by (auto simp: make_room.simps [of q n cls] split: if_splits)
      ultimately show ?thesis using "1.prems"(2) no by (simp add: fits_def)
    next
      case (Some i)
      let ?q = "record_drop (remove_locked q i) QueueOldest"
      have i: "i < length (q_items q)" using select_victim_less [OF Some] .
      have "make_room ?q n cls = (res, q')"
        using "1.prems"(1) no Some by (simp add: make_room.simps [of q n cls])
      note IH = "1.IH" [OF no Some this] 
      have "accounted ?q" using accounted_remove [OF "1.prems"(2)] by simp
      note IH = IH [OF this]
      have items: "q_items ?q = remove_nth i (q_items q)" "q_config ?q = q_config q" "q_closed ?q = q_closed q"
        using i by simp_all
      have sub: "subseq (q_items q') (q_items q)"
        using IH subseq_remove_nth [of i "q_items q"] subseq_order.trans unfolding items by blast
      have "policy (q_config q) = ClassAware \<longrightarrow> replaceable cls (q_items q ! i)"
        using Some oldest_replaceable_Some [of "q_items q" cls i] by (auto simp: select_victim_def replaceable_def)
      then have "policy (q_config q) = ClassAware \<longrightarrow>
          filter (\<lambda>x. \<not> replaceable cls x) (remove_nth i (q_items q)) = filter (\<lambda>x. \<not> replaceable cls x) (q_items q)"
        using filter_remove_nth [OF i, of "\<lambda>x. \<not> replaceable cls x"] by blast
      with IH sub show ?thesis unfolding items by (elim conjE) (intro conjI impI; metis)
    qed
  qed
qed

subsection \<open>Operations and runs\<close>

lemma append_locked_simps [simp]:
  "q_items (append_locked q data cls now) = q_items q @ [\<lparr>qp_data = data, qp_class = cls, qp_enqueued = now\<rparr>]"
  "q_bytes (append_locked q data cls now) = q_bytes q + length data"
  "q_config (append_locked q data cls now) = q_config q" "q_closed (append_locked q data cls now) = q_closed q"
  by (simp_all add: append_locked_def Let_def)

lemma bounded_append: "fits q (length data) \<Longrightarrow> \<not> q_closed q \<Longrightarrow> bounded (append_locked q data cls now)"
  by (auto simp: bounded_def fits_def)

lemma subseq_bytes: "subseq xs ys \<Longrightarrow> length xs \<le> length ys \<and> bytes_of xs \<le> bytes_of ys"
  by (induction rule: list_emb.induct) auto

lemma bounded_subseq:
  "bounded q \<Longrightarrow> accounted q \<Longrightarrow> accounted q' \<Longrightarrow> subseq (q_items q') (q_items q) \<Longrightarrow>
    q_config q' = q_config q \<Longrightarrow> q_closed q' = q_closed q \<Longrightarrow> bounded q'"
  using subseq_bytes [of "q_items q'" "q_items q"] by (auto simp: bounded_def accounted_def)

text \<open>Every outcome of \<open>enqueue_at\<close> on an open queue.\<close>

lemma enqueue_at_cases:
  assumes "enqueue_at q packet now = (res, q')" and "accounted q" and "\<not> q_closed q"
  obtains kept where "accounted kept" "q_config kept = q_config q" "\<not> q_closed kept"
    "subseq (q_items kept) (filter (alive (q_config q) now) (q_items q))"
    "policy (q_config q) = ClassAware \<Longrightarrow>
      filter (\<lambda>x. \<not> replaceable (meta_class (server_classify_ipv4 packet)) x) (q_items kept) =
      filter (\<lambda>x. \<not> replaceable (meta_class (server_classify_ipv4 packet)) x)
        (filter (alive (q_config q) now) (q_items q))"
    "res = Accepted \<and> fits kept (length packet)
        \<and> q' = append_locked kept packet (meta_class (server_classify_ipv4 packet)) now
      \<or> res = (if meta_class (server_classify_ipv4 packet) = Tcp then DroppedTail else DroppedFull)
        \<and> \<not> fits kept (length packet) \<and> q' = kept
        \<and> (policy (q_config q) = ClassAware \<longrightarrow>
            (\<forall>x \<in> set (q_items kept). \<not> replaceable (meta_class (server_classify_ipv4 packet)) x))"
proof -
  let ?d = "drop_expired_locked q now" and ?cls = "meta_class (server_classify_ipv4 packet)"
  note D = drop_expired [OF assms(2), of now]
  show ?thesis
  proof (cases "fits ?d (length packet)")
    case True
    then have "res = Accepted" "q' = append_locked ?d packet ?cls now"
      using assms(1,3) by (simp_all add: enqueue_at_def Let_def)
    then show ?thesis using True D assms(3) by (intro that [of ?d]) simp_all
  next
    case False
    obtain r kept where m: "make_room ?d (length packet) ?cls = (r, kept)" by fastforce
    have "(res, q') = (case (r, kept) of (Some result, q) \<Rightarrow> (result, q)
        | (None, q) \<Rightarrow> (Accepted, append_locked q packet ?cls now))"
      using assms(1,3) False m by (simp add: enqueue_at_def Let_def)
    with make_room [OF m D(1)] D assms(3) show ?thesis
      by (intro that [of kept]) (auto split: option.splits)
  qed
qed

datatype queue_op = Enqueue bytes instant | Dequeue instant | CloseQueue

fun queue_do :: "packet_queue \<Rightarrow> queue_op \<Rightarrow> packet_queue" where
  "queue_do q (Enqueue packet now) = snd (enqueue_at q packet now)"
| "queue_do q (Dequeue now) = snd (dequeue_at q now)"
| "queue_do q CloseQueue = close_queue q"

fun queue_accepts :: "packet_queue \<Rightarrow> queue_op \<Rightarrow> bytes list" where
  "queue_accepts q (Enqueue packet now) = (if fst (enqueue_at q packet now) = Accepted then [packet] else [])"
| "queue_accepts q _ = []"

fun queue_delivers :: "packet_queue \<Rightarrow> queue_op \<Rightarrow> bytes list" where
  "queue_delivers q (Dequeue now) = (case fst (dequeue_at q now) of None \<Rightarrow> [] | Some packet \<Rightarrow> [packet])"
| "queue_delivers q _ = []"

lemma close_queue_simps:
  "accounted q \<Longrightarrow> accounted (close_queue q)" "bounded q \<Longrightarrow> bounded (close_queue q)"
  "q_config (close_queue q) = q_config q"
  by (auto simp: close_queue_def accounted_def bounded_def Let_def)

lemma dequeue_at_cases:
  assumes "dequeue_at q now = (res, q')" and "accounted q" and "bounded q"
  shows "accounted q'" "bounded q'" "q_config q' = q_config q"
    "(case res of None \<Rightarrow> [] | Some p \<Rightarrow> [p]) @ map qp_data (q_items q') =
      map qp_data (filter (alive (q_config q) now) (q_items q))"
proof -
  let ?d = "drop_expired_locked q now"
  note D = drop_expired [OF assms(2), of now]
  have bd: "bounded ?d" using bounded_subseq [OF assms(3,2) D(1)] D by simp
  have "q_closed q \<longrightarrow> q_items q = []" using assms(3) by (simp add: bounded_def)
  then show "accounted q'" "bounded q'" "q_config q' = q_config q"
    "(case res of None \<Rightarrow> [] | Some p \<Rightarrow> [p]) @ map qp_data (q_items q') =
      map qp_data (filter (alive (q_config q) now) (q_items q))"
    using assms D bd
    by (auto simp: dequeue_at_def Let_def accounted_def bounded_def split: if_splits list.splits)
qed

definition queue_inv :: "packet_queue \<Rightarrow> bool" where
  "queue_inv q \<longleftrightarrow> accounted q \<and> bounded q"

lemma enqueue_at_inv:
  assumes "queue_inv q"
  shows "queue_inv (snd (enqueue_at q packet now))"
    "subseq (map qp_data (q_items (snd (enqueue_at q packet now))))
      (map qp_data (q_items q) @ queue_accepts q (Enqueue packet now))"
proof -
  let ?alive = "filter (alive (q_config q) now) (q_items q)"
  obtain res q' where e: "enqueue_at q packet now = (res, q')" by fastforce
  have "queue_inv q' \<and> subseq (map qp_data (q_items q')) (map qp_data (q_items q) @ (if res = Accepted then [packet] else []))"
  proof (cases "q_closed q")
    case True
    then show ?thesis using e assms by (auto simp: enqueue_at_def)
  next
    case False
    have a: "accounted q" "bounded q" using assms by (simp_all add: queue_inv_def)
    obtain kept where k: "accounted kept" "q_config kept = q_config q" "\<not> q_closed kept" "subseq (q_items kept) ?alive"
      and r: "res = Accepted \<and> fits kept (length packet)
          \<and> q' = append_locked kept packet (meta_class (server_classify_ipv4 packet)) now
        \<or> res \<noteq> Accepted \<and> q' = kept"
      using enqueue_at_cases [OF e a(1) False] by (metis enqueue_result.distinct(1,3))
    have "subseq (q_items kept) (q_items q)" using k(4) subseq_filter_left subseq_order.trans by blast
    moreover from this have "bounded kept" using bounded_subseq [OF a(2,1) k(1)] k False by simp
    ultimately show ?thesis using r k accounted_append bounded_append
      by (auto simp: queue_inv_def intro!: subseq_append_mono subseq_map)
  qed
  then show "queue_inv (snd (enqueue_at q packet now))"
    "subseq (map qp_data (q_items (snd (enqueue_at q packet now))))
      (map qp_data (q_items q) @ queue_accepts q (Enqueue packet now))"
    using e by (auto split: if_splits)
qed

interpretation downlink: packet_fifo queue_do queue_accepts queue_delivers "\<lambda>q. map qp_data (q_items q)" queue_inv
proof
  fix q op
  assume inv: "queue_inv q"
  then have a: "accounted q" "bounded q" by (simp_all add: queue_inv_def)
  show "queue_inv (queue_do q op)"
  proof (cases op)
    case (Dequeue now)
    then show ?thesis using dequeue_at_cases(1,2) [OF _ a] by (metis queue_do.simps(2) queue_inv_def prod.collapse)
  qed (use enqueue_at_inv(1) [OF inv] a close_queue_simps in \<open>auto simp: queue_inv_def\<close>)
  show "subseq (queue_delivers q op @ map qp_data (q_items (queue_do q op)))
      (map qp_data (q_items q) @ queue_accepts q op)"
  proof (cases op)
    case (Dequeue now)
    have "subseq (map qp_data (filter (alive (q_config q) now) (q_items q))) (map qp_data (q_items q))"
      by (intro subseq_map subseq_filter_left)
    then show ?thesis using Dequeue dequeue_at_cases(4) [OF _ a] by (metis queue_do.simps(2) queue_delivers.simps(1)
        queue_accepts.simps(2) append_Nil2 prod.collapse)
  qed (use enqueue_at_inv(2) [OF inv] in \<open>auto simp: close_queue_def Let_def\<close>)
qed

lemma queue_new_inv: "queue_inv (queue_new config metrics lane)"
  by (simp add: queue_inv_def queue_new_def accounted_def bounded_def gauge_def)

subsection \<open>Properties\<close>

text \<open>the server's copy of the classifier agrees with the one of the wire crate on every
  packet: class, flow key and hash.\<close>

theorem server_classifier_agrees: "server_classify_ipv4 packet = classify_ipv4 packet"
proof -
  have ack: "server_tcp_ack_only p n = tcp_ack_only p n" for p n
    by (simp add: server_tcp_ack_only_def tcp_ack_only_def)
  have hash: "server_hash_flow f = hash_flow f" for f
    by (simp add: server_hash_flow_def hash_flow_def)
  note defs = server_classify_ipv4_def classify_ipv4_def default_metadata_def default_flow_def ack hash Let_def
  let ?n = "unat (packet ! 0 AND 15) * 4"
  let ?frag = "u16_from_be_bytes (packet ! 6) (packet ! 7) AND 0x3fff \<noteq> 0"
  consider "length packet < 20 \<or> drop_bit 4 (packet ! 0) \<noteq> 4"
    | "\<not> (length packet < 20 \<or> drop_bit 4 (packet ! 0) \<noteq> 4)" "?n < 20 \<or> ?n > length packet"
    | "\<not> (length packet < 20 \<or> drop_bit 4 (packet ! 0) \<noteq> 4)" "\<not> (?n < 20 \<or> ?n > length packet)" ?frag
    | "\<not> (length packet < 20 \<or> drop_bit 4 (packet ! 0) \<noteq> 4)" "\<not> (?n < 20 \<or> ?n > length packet)" "\<not> ?frag"
      "length packet < ?n + 4"
    | "\<not> (length packet < 20 \<or> drop_bit 4 (packet ! 0) \<noteq> 4)" "\<not> (?n < 20 \<or> ?n > length packet)" "\<not> ?frag"
      "\<not> length packet < ?n + 4"
    by blast
  then show ?thesis
    by cases (simp_all add: defs)
qed

text \<open>C36: after any sequence of enqueues, dequeues and closes at any times, the byte counter is the
  size of the queued packets, the published counters and (with metrics on a lane) the gauge agree
  with it, both limits hold, and a closed queue is empty.\<close>

theorem queue_accounting:
  "queue_inv (run_steps queue_do (queue_new config metrics lane) ops)"
  by (rule downlink.run_invar [OF queue_new_inv])


lemma filter_class_kept:
  assumes "filter (\<lambda>x. \<not> replaceable cls x) xs = filter (\<lambda>x. \<not> replaceable cls x) ys"
  shows "filter (\<lambda>x. qp_class x = Tcp) xs = filter (\<lambda>x. qp_class x = Tcp) ys"
proof -
  have "filter (\<lambda>x. qp_class x = Tcp) zs = filter (\<lambda>x. qp_class x = Tcp) (filter (\<lambda>x. \<not> replaceable cls x) zs)" for zs
    by (auto simp: replaceable_def intro!: filter_cong)
  then show ?thesis using assms by metis
qed

text \<open>C37: under the class-aware policy an enqueue never evicts a TCP packet: the TCP packets of the
  queue afterwards are the unexpired ones from before, in order, with the new packet behind them if
  it is TCP and was accepted.\<close>

theorem tcp_never_evicted:
  assumes "queue_inv q" and "\<not> q_closed q" and "policy (q_config q) = ClassAware"
    and "enqueue_at q packet now = (result, q')"
  shows "filter (\<lambda>x. qp_class x = Tcp) (q_items q') =
    filter (\<lambda>x. qp_class x = Tcp) (filter (alive (q_config q) now) (q_items q))
      @ (if result = Accepted \<and> meta_class (server_classify_ipv4 packet) = Tcp
         then [\<lparr>qp_data = packet, qp_class = Tcp, qp_enqueued = now\<rparr>] else [])"
proof -
  let ?cls = "meta_class (server_classify_ipv4 packet)"
  have "accounted q" using assms(1) by (simp add: queue_inv_def)
  from enqueue_at_cases [OF assms(4) this assms(2)] assms(3) obtain kept where
    k: "filter (\<lambda>x. \<not> replaceable ?cls x) (q_items kept) =
        filter (\<lambda>x. \<not> replaceable ?cls x) (filter (alive (q_config q) now) (q_items q))"
    and r: "result = Accepted \<and> q' = append_locked kept packet ?cls now
      \<or> result \<noteq> Accepted \<and> q' = kept"
    by (metis enqueue_result.distinct(1,3))
  from filter_class_kept [OF k] r show ?thesis by auto
qed

definition small_queue :: packet_queue where
  "small_queue = (queue_new default_config True (Some 3))\<lparr>q_config := default_config\<lparr>max_packets := 2\<rparr>\<rparr>"

definition tcp_packet :: bytes where
  "tcp_packet = [0x45, 0, 0, 24, 0, 0, 0, 0, 64, 6, 0, 0, 10, 66, 0, 2, 1, 1, 1, 1, 4, 210, 1, 187]"

theorem tcp_never_evicted_witness:
  "let q = queue_do (queue_do small_queue (Enqueue [0] 0)) (Enqueue tcp_packet 1)
   in q_items (queue_do q (Enqueue tcp_packet 2)) =
      [\<lparr>qp_data = tcp_packet, qp_class = Tcp, qp_enqueued = 1\<rparr>,
       \<lparr>qp_data = tcp_packet, qp_class = Tcp, qp_enqueued = 2\<rparr>]
    \<and> filter (\<lambda>x. qp_class x = Tcp) (q_items (queue_do q (Enqueue tcp_packet 2))) =
      filter (\<lambda>x. qp_class x = Tcp) (filter (alive (q_config q) 2) (q_items q))
        @ [\<lparr>qp_data = tcp_packet, qp_class = Tcp, qp_enqueued = 2\<rparr>]"
proof -
  define q where "q = queue_do (queue_do small_queue (Enqueue [0] 0)) (Enqueue tcp_packet 1)"
  have "queue_inv small_queue"
    by (simp add: small_queue_def queue_new_def queue_inv_def accounted_def bounded_def gauge_def)
  then have inv: "queue_inv q" unfolding q_def by (intro downlink.step_invar)
  have "\<not> q_closed q \<and> policy (q_config q) = ClassAware
      \<and> q_items (snd (enqueue_at q tcp_packet 2)) =
        [\<lparr>qp_data = tcp_packet, qp_class = Tcp, qp_enqueued = 1\<rparr>,
         \<lparr>qp_data = tcp_packet, qp_class = Tcp, qp_enqueued = 2\<rparr>]
      \<and> fst (enqueue_at q tcp_packet 2) = Accepted \<and> meta_class (server_classify_ipv4 tcp_packet) = Tcp"
    unfolding q_def by code_simp
  with tcp_never_evicted [OF inv, of tcp_packet 2 Accepted "snd (enqueue_at q tcp_packet 2)"]
  show ?thesis unfolding q_def [symmetric] Let_def by (cases "enqueue_at q tcp_packet 2") simp
qed

text \<open>a dequeue never returns a packet that has been queued for longer than its class allows,
  and returns nothing only if the queue is closed or every queued packet has expired.\<close>

theorem dequeue_fresh:
  assumes "queue_inv q" and "dequeue_at q now = (result, q')"
  shows "case result of
      Some packet \<Rightarrow> \<exists>item \<in> set (q_items q). qp_data item = packet \<and> alive (q_config q) now item
    | None \<Rightarrow> q_closed q \<or> (\<forall>item \<in> set (q_items q). \<not> alive (q_config q) now item)"
proof -
  have "accounted q" "bounded q" using assms(1) by (simp_all add: queue_inv_def)
  note d = dequeue_at_cases(4) [OF assms(2) this]
  show ?thesis
  proof (cases result)
    case None
    have "q_items (drop_expired_locked q now) = [] \<or> q_closed q"
      using assms(2) None by (auto simp: dequeue_at_def Let_def split: if_splits list.splits)
    then show ?thesis using None drop_expired(2) [OF \<open>accounted q\<close>] by (auto simp: filter_empty_conv)
  next
    case (Some packet)
    then have "packet \<in> set (map qp_data (filter (alive (q_config q) now) (q_items q)))"
      using d [symmetric] by simp
    then show ?thesis using Some by auto
  qed
qed

theorem dequeue_fresh_witness:
  "\<exists>item \<in> set (q_items (queue_do small_queue (Enqueue tcp_packet 0))).
    qp_data item = tcp_packet \<and> alive (q_config small_queue) (millis 499) item"
proof -
  have "queue_inv small_queue"
    by (simp add: small_queue_def queue_new_def queue_inv_def accounted_def bounded_def gauge_def)
  then have inv: "queue_inv (queue_do small_queue (Enqueue tcp_packet 0))" by (rule downlink.step_invar)
  have "fst (dequeue_at (queue_do small_queue (Enqueue tcp_packet 0)) (millis 499)) = Some tcp_packet
      \<and> q_config (queue_do small_queue (Enqueue tcp_packet 0)) = q_config small_queue"
    by code_simp
  with dequeue_fresh [OF inv prod.collapse [symmetric], of "millis 499"] show ?thesis by simp
qed

end
