(* ===== verification/Router.thy ===== *)
theory Router
  imports Flow_Table Packet_Queue Byte_Io
begin

text \<open>
  The packet router of \<open>porta-server/src/data/router.rs\<close>. Sessions live in a store; a session is
  named by its position in it, so that the \<open>Weak\<close> references of a lane table are positions, an upgrade
  succeeds while the session's handle is held (\<open>s_live\<close>), and \<open>Weak::ptr_eq\<close> compares positions.
  Hash maps are association lists with distinct keys. What the background tasks and the owners of
  handles do (cancelling a token, dropping a handle, the watcher of a session) are operations of
  their own, so that they can happen at any point between the others. Identifiers of groups and
  connections are strings.
\<close>

definition MIN_TUNNEL_LANES :: nat where "MIN_TUNNEL_LANES = 2"
definition MAX_TUNNEL_LANES :: nat where "MAX_TUNNEL_LANES = 4"

text \<open>\<open>InjectionCanceled\<close> is the device error of kind \<open>Interrupted\<close> that a cancelled injection returns.\<close>

datatype router_error =
    MissingGroupId
  | InvalidLaneConfiguration
  | LaneCountMismatch
  | RouterInvalidPacket string
  | SourceSpoofed ipv4_addr ipv4_addr
  | Device io_error
  | InjectionCanceled

record session =
  s_address :: ipv4_addr
  s_queue :: packet_queue
  s_cancelled :: bool
  s_closed :: bool
  s_live :: bool

record session_group =
  g_id :: string
  g_lane_count :: nat
  g_lanes :: "(nat \<times> nat) list"
  g_connections :: "(nat \<times> string) list"
  g_flows :: flow_table
  g_collapse_warned :: bool

datatype router_call = RDropped drop_reason | LaneCollapsed

record router =
  r_store :: "session list"
  r_sessions :: "(ipv4_addr \<times> session_group) list"
  r_metrics :: bool
  r_calls :: "router_call list"

definition router_new :: "bool \<Rightarrow> router" where
  "router_new metrics = \<lparr>r_store = [], r_sessions = [], r_metrics = metrics, r_calls = []\<rparr>"

definition router_report :: "router \<Rightarrow> router_call \<Rightarrow> router" where
  "router_report r c = (if r_metrics r then r\<lparr>r_calls := r_calls r @ [c]\<rparr> else r)"

definition on_session :: "router \<Rightarrow> nat \<Rightarrow> (session \<Rightarrow> session) \<Rightarrow> router" where
  "on_session r i f = r\<lparr>r_store := (r_store r)[i := f (r_store r ! i)]\<rparr>"

subsection \<open>Sessions\<close>

definition close_inner :: "session \<Rightarrow> session" where
  "close_inner s =
    (if s_closed s then s
     else s\<lparr>s_closed := True, s_cancelled := True, s_queue := close_queue (s_queue s)\<rparr>)"

definition session_close :: "router \<Rightarrow> nat \<Rightarrow> router" where
  "session_close r i = on_session r i close_inner"

text \<open>Dropping the last handle closes the session, after which no reference upgrades.\<close>

definition session_drop :: "router \<Rightarrow> nat \<Rightarrow> router" where
  "session_drop r i = on_session r i (\<lambda>s. (close_inner s)\<lparr>s_live := False\<rparr>)"

definition session_cancel :: "router \<Rightarrow> nat \<Rightarrow> router" where
  "session_cancel r i = on_session r i (\<lambda>s. s\<lparr>s_cancelled := True\<rparr>)"

definition session_try_recv :: "router \<Rightarrow> nat \<Rightarrow> instant \<Rightarrow> bytes option \<times> router" where
  "session_try_recv r i now =
    (let (packet, q) = dequeue_at (s_queue (r_store r ! i)) now
     in (packet, on_session r i (\<lambda>s. s\<lparr>s_queue := q\<rparr>)))"

definition session_enqueue :: "router \<Rightarrow> nat \<Rightarrow> bytes \<Rightarrow> instant \<Rightarrow> router" where
  "session_enqueue r i packet now =
    (let s = r_store r ! i
     in if s_cancelled s then router_report r (RDropped SessionClosed)
     else
       (case enqueue_at (s_queue s) packet now of
          (result, q) \<Rightarrow>
            let r = on_session r i (\<lambda>s. s\<lparr>s_queue := q\<rparr>)
            in if result = Closed then router_report r (RDropped SessionClosed) else r))"

definition new_session :: "router \<Rightarrow> ipv4_addr \<Rightarrow> nat option \<Rightarrow> queue_config \<Rightarrow> nat \<times> router" where
  "new_session r address lane config =
    (length (r_store r),
     r\<lparr>r_store := r_store r @ [\<lparr>s_address = address, s_queue = queue_new config (r_metrics r) lane,
                                s_cancelled = False, s_closed = False, s_live = True\<rparr>]\<rparr>)"

subsection \<open>Groups\<close>

definition upgrade :: "router \<Rightarrow> nat \<Rightarrow> bool" where
  "upgrade r i = s_live (r_store r ! i)"

definition close_if_live :: "router \<Rightarrow> nat \<Rightarrow> router" where
  "close_if_live r i = (if upgrade r i then session_close r i else r)"

definition close_group :: "router \<Rightarrow> session_group option \<Rightarrow> router" where
  "close_group r grp =
    (case grp of None \<Rightarrow> r | Some g \<Rightarrow> foldl close_if_live r (map snd (g_lanes g)))"

definition collapsed_lane_group :: "session_group \<Rightarrow> bool" where
  "collapsed_lane_group g =
    (if length (g_lanes g) < 2 then False
     else
       let connections = remdups (filter (\<lambda>c. c \<noteq> '''')
             (List.map_filter (\<lambda>(lane, _). map_of (g_connections g) lane) (g_lanes g)))
       in connections \<noteq> [] \<and> length connections < length (g_lanes g))"

definition register :: "router \<Rightarrow> ipv4_addr \<Rightarrow> nat \<times> router" where
  "register r address =
    (let (session, r) = new_session r address None masque_config;
         previous = map_of (r_sessions r) address;
         r = r\<lparr>r_sessions := AList.update address
           \<lparr>g_id = '''', g_lane_count = 1, g_lanes = [(0, session)], g_connections = [],
            g_flows = default_table, g_collapse_warned = False\<rparr> (r_sessions r)\<rparr>
     in (session, close_group r previous))"

definition empty_group :: "string \<Rightarrow> nat \<Rightarrow> session_group" where
  "empty_group gid lane_count =
    \<lparr>g_id = gid, g_lane_count = lane_count, g_lanes = [], g_connections = [],
     g_flows = default_table, g_collapse_warned = False\<rparr>"

text \<open>The rest of \<open>register_group\<close> once the group is known: enter the lane in it, store it, and close
  what it replaces.\<close>

definition place_session ::
  "router \<Rightarrow> ipv4_addr \<Rightarrow> session_group \<Rightarrow> nat \<Rightarrow> string \<Rightarrow> nat \<Rightarrow> session_group option \<Rightarrow> bool \<times> router" where
  "place_session r address grp lane_index connection session replaced_group =
    (let replaced_lane = map_of (g_lanes grp) lane_index;
         grp = grp\<lparr>g_lanes := AList.update lane_index session (g_lanes grp),
                       g_connections := AList.update lane_index connection (g_connections grp)\<rparr>;
         collapsed = collapsed_lane_group grp;
         warn = (collapsed \<and> \<not> g_collapse_warned grp);
         grp = (if warn then grp\<lparr>g_collapse_warned := True\<rparr> else grp);
         r = (if warn then router_report r LaneCollapsed else r);
         r = r\<lparr>r_sessions := AList.update address grp (r_sessions r)\<rparr>;
         r = close_group r replaced_group;
         r = (case replaced_lane of None \<Rightarrow> r | Some i \<Rightarrow> close_if_live r i)
     in (collapsed, r))"

definition register_group ::
  "router \<Rightarrow> ipv4_addr \<Rightarrow> string \<Rightarrow> nat \<Rightarrow> nat \<Rightarrow> string \<Rightarrow> (router_error + nat \<times> bool) \<times> router" where
  "register_group r address group_id lane_index lane_count connection =
    (if group_id = '''' then (Err MissingGroupId, r)
     else if \<not> (MIN_TUNNEL_LANES \<le> lane_count \<and> lane_count \<le> MAX_TUNNEL_LANES) \<or> lane_index \<ge> lane_count
     then (Err InvalidLaneConfiguration, r)
     else
       let (session, r) = new_session r address (Some lane_index) default_config;
           old = map_of (r_sessions r) address;
           replace = (case old of None \<Rightarrow> True | Some g \<Rightarrow> g_id g \<noteq> group_id)
       in if \<not> replace \<and> g_lane_count (the old) \<noteq> lane_count
       then (Err LaneCountMismatch, session_drop r session)
       else
         let (collapsed, r) = place_session r address (if replace then empty_group group_id lane_count else the old)
               lane_index connection session (if replace then old else None)
         in (Ok (session, collapsed), r))"

definition remove_session :: "router \<Rightarrow> ipv4_addr \<Rightarrow> string \<Rightarrow> nat \<Rightarrow> nat \<Rightarrow> router" where
  "remove_session r address group_id lane_index session =
    (case map_of (r_sessions r) address of
       None \<Rightarrow> r
     | Some grp \<Rightarrow>
         let grp =
           (if g_id grp = group_id \<and> map_of (g_lanes grp) lane_index = Some session
            then grp\<lparr>g_lanes := AList.delete lane_index (g_lanes grp),
                       g_connections := AList.delete lane_index (g_connections grp)\<rparr>
            else grp)
         in if g_lanes grp = [] then r\<lparr>r_sessions := AList.delete address (r_sessions r)\<rparr>
            else r\<lparr>r_sessions := AList.update address grp (r_sessions r)\<rparr>)"

text \<open>The task of \<open>watch_session\<close>, once the session's token is cancelled.\<close>

definition watch_fires :: "router \<Rightarrow> ipv4_addr \<Rightarrow> string \<Rightarrow> nat \<Rightarrow> nat \<Rightarrow> router" where
  "watch_fires r address group_id lane_index session =
    (if s_cancelled (r_store r ! session)
     then remove_session (close_if_live r session) address group_id lane_index session
     else r)"

definition router_drop :: "router \<Rightarrow> router" where
  "router_drop r =
    (let groups = map snd (r_sessions r)
     in foldl (\<lambda>r g. close_group r (Some g)) (r\<lparr>r_sessions := []\<rparr>) groups)"

subsection \<open>Lane selection\<close>

text \<open>The loop over the data lanes: the first lane with the fewest queued bytes. \<open>consider_lane\<close> is its
  body.\<close>

definition consider_lane :: "router \<Rightarrow> session_group \<Rightarrow> nat option \<times> nat \<Rightarrow> nat \<Rightarrow> nat option \<times> nat" where
  "consider_lane r g best lane =
    (case map_of (g_lanes g) lane of
       None \<Rightarrow> best
     | Some i \<Rightarrow>
         if upgrade r i then
           let queued = queued_bytes (s_queue (r_store r ! i))
           in if queued < snd best then (Some lane, queued) else best
         else best)"

definition least_loaded :: "router \<Rightarrow> session_group \<Rightarrow> nat \<Rightarrow> nat \<Rightarrow> nat option" where
  "least_loaded r g start data_lanes =
    fst (foldl (\<lambda>best offset. consider_lane r g best (1 + (start + offset) mod data_lanes))
      (None, 18446744073709551615) [0..<data_lanes])"

definition lane_live :: "router \<Rightarrow> session_group \<Rightarrow> nat \<Rightarrow> bool" where
  "lane_live r g lane = (case map_of (g_lanes g) lane of None \<Rightarrow> False | Some i \<Rightarrow> upgrade r i)"

definition select_data_lane ::
  "router \<Rightarrow> session_group \<Rightarrow> flow_key \<Rightarrow> u32 \<Rightarrow> (nat \<times> flow_table) option" where
  "select_data_lane r g flow hash =
    (let flows = g_flows g
     in if g_lane_count g \<le> 1 then Some (0, flows)
     else
       (case (case ft_assignment flows flow of
                None \<Rightarrow> None
              | Some (index, lane) \<Rightarrow> if lane_live r g lane then Some (index, lane) else None) of
          Some (index, lane) \<Rightarrow> Some (lane, ft_touch flows index)
        | None \<Rightarrow>
            let data_lanes = g_lane_count g - 1;
                start = unat hash mod data_lanes
            in (case least_loaded r g start data_lanes of
                  None \<Rightarrow> Some (0, ft_remove flows flow)
                | Some selected \<Rightarrow> map_option (\<lambda>t. (selected, t)) (ft_assign flows flow selected))))"

definition session_at :: "router \<Rightarrow> session_group \<Rightarrow> nat \<Rightarrow> nat option" where
  "session_at r g lane =
    (case map_of (g_lanes g) lane of None \<Rightarrow> None | Some i \<Rightarrow> if upgrade r i then Some i else None)"

text \<open>The session for a packet and the grp's flow table afterwards; \<open>None\<close> is a panic.\<close>

definition select_lane :: "router \<Rightarrow> session_group \<Rightarrow> bytes \<Rightarrow> (nat option \<times> flow_table) option" where
  "select_lane r g packet =
    (if g_lanes g = [] then Some (None, g_flows g)
     else
       let metadata = server_classify_ipv4 packet
       in (case (if meta_class metadata = Control then Some (0, g_flows g)
                 else select_data_lane r g (meta_flow metadata) (meta_hash metadata)) of
             None \<Rightarrow> None
           | Some (preferred, flows) \<Rightarrow>
               Some (case session_at r g preferred of
                       Some i \<Rightarrow> Some i
                     | None \<Rightarrow> (case List.map_filter (session_at r g) [0..<g_lane_count g] of
                                  [] \<Rightarrow> None | i # _ \<Rightarrow> Some i),
                     flows)))"

definition packet_lane :: "bytes \<Rightarrow> nat \<Rightarrow> nat" where
  "packet_lane packet lane_count =
    (if lane_count \<le> 1 then 0
     else
       let metadata = server_classify_ipv4 packet
       in if meta_class metadata = Control then 0
          else 1 + unat (meta_hash metadata) mod (lane_count - 1))"

subsection \<open>Packets\<close>

definition router_parse_ipv4 :: "bytes \<Rightarrow> router_error + ipv4_addr \<times> ipv4_addr" where
  "router_parse_ipv4 packet =
    (if length packet < 20 then Err (RouterInvalidPacket ''header is shorter than 20 bytes'')
     else if drop_bit 4 (packet ! 0) \<noteq> 4 then Err (RouterInvalidPacket ''packet is not IPv4'')
     else
       let header_len = unat (packet ! 0 AND 15) * 4
       in if header_len < 20 \<or> header_len > length packet
       then Err (RouterInvalidPacket ''invalid IPv4 header length'')
       else
         let total_len = unat (u16_from_be_bytes (packet ! 2) (packet ! 3))
         in if total_len < header_len \<or> total_len \<noteq> length packet
         then Err (RouterInvalidPacket ''IPv4 total length mismatch'')
         else Ok (ipv4_new (packet ! 12) (packet ! 13) (packet ! 14) (packet ! 15),
                  ipv4_new (packet ! 16) (packet ! 17) (packet ! 18) (packet ! 19)))"

text \<open>\<open>inject\<close>: the device's reply is an argument, the packets written to it the second result.\<close>

definition inject_validated ::
  "bool \<Rightarrow> bytes \<Rightarrow> (io_error + unit) \<Rightarrow> (router_error + unit) \<times> bytes list" where
  "inject_validated cancelled packet reply =
    (if cancelled then (Err InjectionCanceled, []) else (map_err Device reply, [packet]))"

definition inject ::
  "bool \<Rightarrow> ipv4_addr \<Rightarrow> bytes \<Rightarrow> (io_error + unit) \<Rightarrow> (router_error + unit) \<times> bytes list" where
  "inject cancelled lease packet reply =
    (case router_parse_ipv4 packet of
       Err e \<Rightarrow> (Err e, [])
     | Ok (source, _) \<Rightarrow>
         if source \<noteq> lease then (Err (SourceSpoofed source lease), [])
         else inject_validated cancelled packet reply)"

definition set_flows :: "router \<Rightarrow> ipv4_addr \<Rightarrow> session_group \<Rightarrow> flow_table \<Rightarrow> router" where
  "set_flows r address g flows =
    r\<lparr>r_sessions := AList.update address (g\<lparr>g_flows := flows\<rparr>) (r_sessions r)\<rparr>"

text \<open>One iteration of \<open>run\<close> for a packet read from the device. \<open>cancelled\<close> is the test before the
  enqueue; the first component tells whether the loop ends there.\<close>

definition route_packet :: "router \<Rightarrow> bytes \<Rightarrow> bool \<Rightarrow> instant \<Rightarrow> (bool \<times> router) option" where
  "route_packet r packet cancelled now =
    (case router_parse_ipv4 packet of
       Err _ \<Rightarrow> Some (False, router_report r (RDropped InvalidTunPacket))
     | Ok (_, destination) \<Rightarrow>
         (case map_of (r_sessions r) destination of
            None \<Rightarrow> Some (False, router_report r (RDropped NoSession))
          | Some g \<Rightarrow>
              (case select_lane r g packet of
                 None \<Rightarrow> None
               | Some (None, flows) \<Rightarrow>
                   Some (False, router_report (set_flows r destination g flows) (RDropped NoSession))
               | Some (Some i, flows) \<Rightarrow>
                   let r = set_flows r destination g flows
                   in Some (if cancelled then (True, r) else (False, session_enqueue r i packet now)))))"

datatype device_event = ReadPacket bytes bool instant | ReadFailed io_error | RunCancelled

text \<open>The loop over what the device yields. The outer \<open>None\<close> is a panic, the inner one a loop that is
  still waiting for the device.\<close>

fun run_router :: "router \<Rightarrow> device_event list \<Rightarrow> ((router_error + unit) option \<times> router) option" where
  "run_router r [] = Some (None, r)"
| "run_router r (RunCancelled # _) = Some (Some (Ok ()), r)"
| "run_router r (ReadFailed e # _) = Some (Some (if e = UnexpectedEof then Ok () else Err (Device e)), r)"
| "run_router r (ReadPacket packet cancelled now # events) =
    (case route_packet r packet cancelled now of
       None \<Rightarrow> None
     | Some (ended, r') \<Rightarrow> if ended then Some (Some (Ok ()), r') else run_router r' events)"

end
