(* ===== verification/Router_Invariant.thy ===== *)
theory Router_Invariant
  imports Router
begin

text \<open>
  The router's invariant: which lane tables and sessions the operations of \<^theory_text>\<open>Router\<close> can produce.
  A lemma per operation shows that it is kept, lane selection is described on states that satisfy it,
  and the step relation \<open>router_step\<close> with its reachable states collects the operations. The
  properties at the end speak of reachable routers.
\<close>

subsection \<open>The router's invariant\<close>

definition addressed_to :: "ipv4_addr \<Rightarrow> bytes \<Rightarrow> bool" where
  "addressed_to a packet \<longleftrightarrow> (\<exists>source. router_parse_ipv4 packet = Ok (source, a))"

definition session_ok :: "session \<Rightarrow> bool" where
  "session_ok s \<longleftrightarrow> queue_inv (s_queue s) \<and> max_bytes (q_config (s_queue s)) \<le> 256 * 9000
     \<and> (\<forall>packet \<in> set (map qp_data (q_items (s_queue s))). addressed_to (s_address s) packet)
     \<and> (s_closed s \<longrightarrow> s_cancelled s \<and> q_closed (s_queue s)) \<and> (\<not> s_live s \<longrightarrow> s_closed s)"

definition group_ok :: "router \<Rightarrow> ipv4_addr \<Rightarrow> session_group \<Rightarrow> bool" where
  "group_ok r a g \<longleftrightarrow> distinct (map fst (g_lanes g)) \<and> table_inv (g_flows g)
     \<and> 1 \<le> g_lane_count g \<and> g_lane_count g \<le> MAX_TUNNEL_LANES
     \<and> (\<forall>(lane, i) \<in> set (g_lanes g). lane < g_lane_count g \<and> i < length (r_store r)
          \<and> s_address (r_store r ! i) = a)"

definition router_inv :: "router \<Rightarrow> bool" where
  "router_inv r \<longleftrightarrow> distinct (map fst (r_sessions r)) \<and> (\<forall>(a, g) \<in> set (r_sessions r). group_ok r a g)
     \<and> (\<forall>s \<in> set (r_store r). session_ok s)"

text \<open>The store only grows, a session keeps its address and never reopens.\<close>

definition session_extends :: "session \<Rightarrow> session \<Rightarrow> bool" where
  "session_extends s s' \<longleftrightarrow> s_address s' = s_address s \<and> (s_closed s \<longrightarrow> s_closed s')"

definition store_extends :: "router \<Rightarrow> router \<Rightarrow> bool" where
  "store_extends r r' \<longleftrightarrow> length (r_store r) \<le> length (r_store r')
     \<and> (\<forall>i < length (r_store r). session_extends (r_store r ! i) (r_store r' ! i))"

lemma group_ok_extends: "group_ok r a g \<Longrightarrow> store_extends r r' \<Longrightarrow> group_ok r' a g"
  by (fastforce simp: group_ok_def store_extends_def session_extends_def)

lemma store_extends_refl [simp]: "store_extends r r"
  by (simp add: store_extends_def session_extends_def)

lemma store_extends_trans: "store_extends a b \<Longrightarrow> store_extends b c \<Longrightarrow> store_extends a c"
  by (auto simp: store_extends_def session_extends_def)

text \<open>An operation that leaves the lane tables alone.\<close>

definition store_step :: "router \<Rightarrow> router \<Rightarrow> bool" where
  "store_step r r' \<longleftrightarrow> r_sessions r' = r_sessions r \<and> store_extends r r'
     \<and> ((\<forall>s \<in> set (r_store r). session_ok s) \<longrightarrow> (\<forall>s \<in> set (r_store r'). session_ok s))"

lemma store_step_inv: "store_step r r' \<Longrightarrow> router_inv r \<Longrightarrow> router_inv r'"
  using group_ok_extends by (fastforce simp: store_step_def router_inv_def)

lemma store_step_trans: "store_step a b \<Longrightarrow> store_step b c \<Longrightarrow> store_step a c"
  using store_extends_trans by (auto simp: store_step_def)

lemma store_step_refl [simp]: "store_step r r"
  by (simp add: store_step_def)

lemma router_report_simps [simp]:
  "r_store (router_report r c) = r_store r" "r_sessions (router_report r c) = r_sessions r"
  "r_metrics (router_report r c) = r_metrics r"
  by (simp_all add: router_report_def)

lemma store_step_call [simp]: "store_step r (router_report r c)"
  by (simp add: store_step_def store_extends_def session_extends_def)

lemma on_session_simps [simp]:
  "r_sessions (on_session r i f) = r_sessions r" "length (r_store (on_session r i f)) = length (r_store r)"
  by (simp_all add: on_session_def)

lemma on_session_step:
  assumes "i < length (r_store r) \<Longrightarrow> session_extends (r_store r ! i) (f (r_store r ! i))"
    and "i < length (r_store r) \<Longrightarrow> session_ok (r_store r ! i) \<Longrightarrow> session_ok (f (r_store r ! i))"
  shows "store_step r (on_session r i f)"
proof (cases "i < length (r_store r)")
  case True
  have "session_ok (f (r_store r ! i))" if "\<forall>s \<in> set (r_store r). session_ok s"
    using True that assms(2) by simp
  then show ?thesis using True assms(1)
    by (auto simp: store_step_def store_extends_def on_session_def nth_list_update session_extends_def
        dest!: set_update_subset_insert [THEN subsetD])
next
  case False
  then have "on_session r i f = r" by (cases r) (simp add: on_session_def list_update_beyond)
  then show ?thesis by simp
qed

lemma close_inner_ok: "session_ok s \<Longrightarrow> session_ok (close_inner s)" "s_address (close_inner s) = s_address s"
    "s_closed (close_inner s)" "session_ok s \<Longrightarrow> q_closed (s_queue (close_inner s)) \<and> s_cancelled (close_inner s)"
  using close_queue_simps(1,2) [of "s_queue s"]
  by (auto simp: close_inner_def session_ok_def queue_inv_def close_queue_def Let_def)

lemma session_ops_step [simp]:
  "store_step r (session_close r i)" "store_step r (session_drop r i)" "store_step r (session_cancel r i)"
  "store_step r (close_if_live r i)"
proof -
  show c: "store_step r (session_close r i)"
    unfolding session_close_def by (rule on_session_step) (simp_all add: close_inner_ok session_extends_def)
  show "store_step r (session_drop r i)"
    unfolding session_drop_def using close_inner_ok by (intro on_session_step) (auto simp: session_ok_def session_extends_def)
  show "store_step r (session_cancel r i)"
    unfolding session_cancel_def by (rule on_session_step) (auto simp: session_ok_def session_extends_def)
  show "store_step r (close_if_live r i)" using c by (simp add: close_if_live_def)
qed

lemma close_group_step [simp]: "store_step r (close_group r g)"
proof -
  have "store_step r (foldl close_if_live r is)" for "is"
    by (induction "is" arbitrary: r) (auto intro: store_step_trans [OF session_ops_step(4)])
  then show ?thesis by (simp add: close_group_def split: option.splits)
qed

lemma small_configs: "max_bytes default_config \<le> 256 * 9000" "max_bytes masque_config \<le> 256 * 9000"
  by (simp_all add: default_config_def masque_config_def)

lemma new_session_step:
  assumes "new_session r address lane config = (i, r')" and "max_bytes config \<le> 256 * 9000"
  shows "store_step r r'" "i < length (r_store r')" "s_address (r_store r' ! i) = address" "i = length (r_store r)"
  using assms queue_new_inv [of config "r_metrics r" lane]
  by (auto simp: new_session_def store_step_def store_extends_def session_ok_def session_extends_def nth_append queue_new_def)

lemma queue_closed_ops:
  "q_closed q \<Longrightarrow> dequeue_at q now = (None, q)" "q_closed q \<Longrightarrow> enqueue_at q packet now = (Closed, q)"
  by (simp_all add: dequeue_at_def enqueue_at_def)

lemma queue_do_config:
  assumes "queue_inv q"
  shows "q_config (queue_do q op) = q_config q"
proof (cases op)
  case (Enqueue packet now)
  obtain res q' where e: "enqueue_at q packet now = (res, q')" by fastforce
  have "q_config q' = q_config q"
  proof (cases "q_closed q")
    case False
    have "accounted q" using assms by (simp add: queue_inv_def)
    then obtain kept where "q_config kept = q_config q"
      "q' = append_locked kept packet (meta_class (server_classify_ipv4 packet)) now \<or> q' = kept"
      using enqueue_at_cases [OF e _ False] by metis
    then show ?thesis by (auto simp: append_locked_def Let_def)
  qed (use e in \<open>simp add: queue_closed_ops\<close>)
  then show ?thesis using e Enqueue by simp
next
  case (Dequeue now)
  then show ?thesis using dequeue_at_cases(3) [of q now] assms by (metis prod.collapse queue_do.simps(2) queue_inv_def)
qed (simp add: close_queue_simps)

lemma queue_do_items:
  assumes "queue_inv q"
  shows "set (map qp_data (q_items (queue_do q op))) \<subseteq> set (map qp_data (q_items q)) \<union> set (queue_accepts q op)"
proof -
  have "set (queue_delivers q op @ map qp_data (q_items (queue_do q op)))
      \<subseteq> set (map qp_data (q_items q) @ queue_accepts q op)"
    using downlink.step_in_order [OF assms] by (rule subseq_set)
  then show ?thesis by auto
qed

lemma session_queue_ok:
  assumes "session_ok s" and "\<And>packet now. op = Enqueue packet now \<Longrightarrow> addressed_to (s_address s) packet"
  shows "session_ok (s\<lparr>s_queue := queue_do (s_queue s) op\<rparr>)"
proof -
  have inv: "queue_inv (s_queue s)" using assms(1) by (simp add: session_ok_def)
  have "set (queue_accepts (s_queue s) op) \<subseteq> {packet. addressed_to (s_address s) packet}"
    using assms(2) by (cases op) auto
  then have "\<forall>packet \<in> set (map qp_data (q_items (queue_do (s_queue s) op))). addressed_to (s_address s) packet"
    using queue_do_items [OF inv, of op] assms(1) by (auto simp: session_ok_def)
  moreover have "q_closed (queue_do (s_queue s) op)" if "q_closed (s_queue s)"
    using that queue_closed_ops by (cases op) (auto simp: close_queue_def)
  ultimately show ?thesis
    using assms(1) queue_do_config [OF inv, of op] downlink.step_invar [OF inv, of op] by (auto simp: session_ok_def)
qed

lemma session_recv_step [simp]: "store_step r (snd (session_try_recv r i now))"
proof -
  have "snd (session_try_recv r i now) = on_session r i (\<lambda>s. s\<lparr>s_queue := queue_do (s_queue (r_store r ! i)) (Dequeue now)\<rparr>)"
    by (simp add: session_try_recv_def split: prod.splits)
  then show ?thesis using session_queue_ok [of "r_store r ! i" "Dequeue now"]
    by (auto intro!: on_session_step simp: session_extends_def simp del: queue_do.simps)
qed

lemma session_enqueue_unfold:
  "session_enqueue r i packet now =
    (let s = r_store r ! i; r' = on_session r i (\<lambda>s. s\<lparr>s_queue := queue_do (s_queue (r_store r ! i)) (Enqueue packet now)\<rparr>)
     in if s_cancelled s then router_report r (RDropped SessionClosed)
     else if fst (enqueue_at (s_queue s) packet now) = Closed then router_report r' (RDropped SessionClosed)
     else r')"
  by (simp add: session_enqueue_def Let_def split: prod.splits)

lemma session_enqueue_step:
  assumes "addressed_to (s_address (r_store r ! i)) packet"
  shows "store_step r (session_enqueue r i packet now)"
proof -
  let ?r = "on_session r i (\<lambda>s. s\<lparr>s_queue := queue_do (s_queue (r_store r ! i)) (Enqueue packet now)\<rparr>)"
  have "store_step r ?r" using session_queue_ok [of "r_store r ! i" "Enqueue packet now"] assms
    by (auto intro!: on_session_step simp: session_extends_def simp del: queue_do.simps)
  then show ?thesis using store_step_trans [OF _ store_step_call]
    by (auto simp: session_enqueue_unfold Let_def simp del: queue_do.simps)
qed

subsection \<open>Every operation keeps the invariant\<close>

lemma set_AList_update: "set (AList.update k v al) \<subseteq> insert (k, v) (set al)"
  by (induction al) auto

lemma group_ok_sessions [simp]: "group_ok (r\<lparr>r_sessions := x\<rparr>) a g = group_ok r a g"
  by (simp add: group_ok_def)

lemma put_group_inv:
  assumes "router_inv r" and "group_ok r a g"
  shows "router_inv (r\<lparr>r_sessions := AList.update a g (r_sessions r)\<rparr>)"
  using assms set_AList_update [of a g "r_sessions r"]
  by (fastforce simp: router_inv_def intro: AList.distinct_update)

lemma delete_group_inv: "router_inv r \<Longrightarrow> router_inv (r\<lparr>r_sessions := AList.delete a (r_sessions r)\<rparr>)"
  by (auto simp: router_inv_def AList.delete_eq distinct_map_filter)

lemma router_inv_group: "router_inv r \<Longrightarrow> map_of (r_sessions r) a = Some g \<Longrightarrow> group_ok r a g"
  by (auto simp: router_inv_def dest: map_of_SomeD)

lemma add_lane_ok:
  assumes "group_ok r a g" and "lane < g_lane_count g" and "i < length (r_store r)" and "s_address (r_store r ! i) = a"
  shows "group_ok r a (g\<lparr>g_lanes := AList.update lane i (g_lanes g), g_connections := c, g_collapse_warned := w\<rparr>)"
  using assms set_AList_update [of lane i "g_lanes g"]
  by (fastforce simp: group_ok_def intro: AList.distinct_update)

lemma drop_lane_ok: "group_ok r a g \<Longrightarrow> group_ok r a (g\<lparr>g_lanes := AList.delete lane (g_lanes g), g_connections := c\<rparr>)"
  by (auto simp: group_ok_def AList.delete_eq distinct_map_filter)

lemma empty_group_ok: "1 \<le> n \<Longrightarrow> n \<le> MAX_TUNNEL_LANES \<Longrightarrow> group_ok r a (empty_group gid n)"
  by (simp add: group_ok_def empty_group_def default_table_rep)

lemma register_inv:
  assumes "router_inv r"
  shows "router_inv (snd (register r address))"
proof -
  obtain i r1 where n: "new_session r address None masque_config = (i, r1)" by fastforce
  note N = new_session_step [OF n small_configs(2)]
  let ?g = "(empty_group '''' 1)\<lparr>g_lanes := AList.update 0 i [], g_connections := [], g_collapse_warned := False\<rparr>"
  have "group_ok r1 address (empty_group '''' 1)" by (simp add: empty_group_ok MAX_TUNNEL_LANES_def)
  then have "group_ok r1 address ?g"
    using add_lane_ok [where g = "empty_group '''' 1" and lane = 0 and c = "[]" and w = False] N by (simp add: empty_group_def)
  then have "router_inv (r1\<lparr>r_sessions := AList.update address ?g (r_sessions r1)\<rparr>)"
    using put_group_inv store_step_inv [OF N(1) assms] by blast
  then show ?thesis using n store_step_inv [OF close_group_step] by (simp add: register_def Let_def empty_group_def)
qed

lemma remove_session_inv:
  assumes "router_inv r"
  shows "router_inv (remove_session r address gid lane i)"
proof (cases "map_of (r_sessions r) address")
  case (Some g)
  then have g: "group_ok r address g" by (rule router_inv_group [OF assms])
  show ?thesis using Some put_group_inv [OF assms g] put_group_inv [OF assms drop_lane_ok [OF g]] delete_group_inv [OF assms]
    by (auto simp: remove_session_def Let_def)
qed (simp add: remove_session_def assms)

lemma watch_fires_inv: "router_inv r \<Longrightarrow> router_inv (watch_fires r address gid lane i)"
  using remove_session_inv [OF store_step_inv [OF session_ops_step(4)]] by (simp add: watch_fires_def)

lemma close_groups_step: "store_step r (foldl (\<lambda>r g. close_group r (Some g)) r gs)"
  by (induction gs arbitrary: r) (auto intro: store_step_trans [OF close_group_step])

lemma router_drop_inv:
  assumes "router_inv r"
  shows "router_inv (router_drop r)"
proof -
  have "router_inv (r\<lparr>r_sessions := []\<rparr>)" using assms by (simp add: router_inv_def)
  then show ?thesis using store_step_inv [OF close_groups_step] by (simp add: router_drop_def Let_def)
qed

definition base_group :: "router \<Rightarrow> ipv4_addr \<Rightarrow> string \<Rightarrow> nat \<Rightarrow> session_group" where
  "base_group r a gid n =
    (case map_of (r_sessions r) a of
       None \<Rightarrow> empty_group gid n
     | Some g \<Rightarrow> if g_id g = gid then g else empty_group gid n)"

definition replaced_sessions :: "router \<Rightarrow> ipv4_addr \<Rightarrow> string \<Rightarrow> session_group option" where
  "replaced_sessions r a gid =
    (case map_of (r_sessions r) a of None \<Rightarrow> None | Some g \<Rightarrow> if g_id g = gid then None else Some g)"

lemma register_group_cases:
  assumes "register_group r a gid lane n conn = (Ok (i, coll), r')"
  obtains r1 where "new_session r a (Some lane) default_config = (i, r1)" "gid \<noteq> ''''"
    "MIN_TUNNEL_LANES \<le> n" "n \<le> MAX_TUNNEL_LANES" "lane < n" "g_lane_count (base_group r a gid n) = n"
    "place_session r1 a (base_group r a gid n) lane conn i (replaced_sessions r a gid) = (coll, r')"
proof -
  obtain r1 where n: "new_session r a (Some lane) default_config = (i, r1)"
    using assms by (auto simp: register_group_def Let_def split: prod.splits if_splits)
  have s: "r_sessions r1 = r_sessions r" using new_session_step(1) [OF n small_configs(1)] by (simp add: store_step_def)
  show thesis
    using assms by (intro that [OF n]; cases "map_of (r_sessions r) a")
      (auto simp: register_group_def Let_def n s base_group_def replaced_sessions_def empty_group_def
        split: if_splits prod.splits)
qed

lemma base_group_ok:
  assumes "router_inv r" and "1 \<le> n" and "n \<le> MAX_TUNNEL_LANES"
  shows "group_ok r a (base_group r a gid n)"
  using router_inv_group [OF assms(1)] empty_group_ok assms(2,3)
  by (auto simp: base_group_def split: option.splits)

lemma place_session_result:
  assumes "place_session r a g lane conn i old = (coll, r')"
  obtains r1 c w where "r_store r1 = r_store r"
    "r_sessions r1 = AList.update a
      (g\<lparr>g_lanes := AList.update lane i (g_lanes g), g_connections := c, g_collapse_warned := w\<rparr>) (r_sessions r)"
    "r' = (case map_of (g_lanes g) lane of None \<Rightarrow> close_group r1 old | Some j \<Rightarrow> close_if_live (close_group r1 old) j)"
proof -
  define g1 where "g1 = g\<lparr>g_lanes := AList.update lane i (g_lanes g), g_connections := AList.update lane conn (g_connections g)\<rparr>"
  define warn where "warn = (collapsed_lane_group g1 \<and> \<not> g_collapse_warned g1)"
  define r2 where "r2 = (if warn then router_report r LaneCollapsed else r)"
  define r1 where "r1 = r2\<lparr>r_sessions := AList.update a (if warn then g1\<lparr>g_collapse_warned := True\<rparr> else g1) (r_sessions r2)\<rparr>"
  show thesis
  proof (rule that [of r1])
    show "r_sessions r1 = AList.update a (g\<lparr>g_lanes := AList.update lane i (g_lanes g),
        g_connections := AList.update lane conn (g_connections g), g_collapse_warned := warn \<or> g_collapse_warned g\<rparr>) (r_sessions r)"
      by (cases g) (simp add: r1_def r2_def g1_def)
    show "r' = (case map_of (g_lanes g) lane of None \<Rightarrow> close_group r1 old | Some j \<Rightarrow> close_if_live (close_group r1 old) j)"
      using assms by (simp add: place_session_def Let_def g1_def [symmetric] warn_def [symmetric] r2_def [symmetric]
          r1_def [symmetric] split: option.splits)
  qed (simp add: r1_def r2_def)
qed

lemma register_group_inv:
  assumes "router_inv r"
  shows "router_inv (snd (register_group r a gid lane n conn))"
proof (cases "fst (register_group r a gid lane n conn)")
  case (Inl e)
  obtain i r1 where ns: "new_session r a (Some lane) default_config = (i, r1)" by fastforce
  then have "router_inv r1" "router_inv (session_drop r1 i)"
    using store_step_inv [OF new_session_step(1) [OF ns small_configs(1)] assms] store_step_inv [OF session_ops_step(2)] by blast+
  then show ?thesis using Inl assms ns by (auto simp: register_group_def Let_def split: if_splits prod.splits)
next
  case (Inr ic)
  then obtain i coll r' where e: "register_group r a gid lane n conn = (Ok (i, coll), r')"
    by (metis prod.collapse)
  then obtain r1 where ns: "new_session r a (Some lane) default_config = (i, r1)" and "gid \<noteq> ''''"
    and n: "MIN_TUNNEL_LANES \<le> n" "n \<le> MAX_TUNNEL_LANES" "lane < n" "g_lane_count (base_group r a gid n) = n"
    and p: "place_session r1 a (base_group r a gid n) lane conn i (replaced_sessions r a gid) = (coll, r')"
    by (rule register_group_cases)
  note N = new_session_step [OF ns small_configs(1)]
  have inv: "router_inv r1" using store_step_inv [OF N(1) assms] .
  have "group_ok r1 a (base_group r a gid n)"
    using group_ok_extends [OF base_group_ok [OF assms]] N(1) n by (auto simp: store_step_def MIN_TUNNEL_LANES_def)
  then have g: "group_ok r1 a ((base_group r a gid n)\<lparr>g_lanes := AList.update lane i (g_lanes (base_group r a gid n)),
      g_connections := c, g_collapse_warned := w\<rparr>)" for c w
    using add_lane_ok [where lane = lane and i = i] N(2,3) n(3,4) by simp
  from p obtain r2 c w where r2: "r_store r2 = r_store r1"
    "r_sessions r2 = AList.update a ((base_group r a gid n)\<lparr>g_lanes := AList.update lane i (g_lanes (base_group r a gid n)),
      g_connections := c, g_collapse_warned := w\<rparr>) (r_sessions r1)"
    "r' = (case map_of (g_lanes (base_group r a gid n)) lane of None \<Rightarrow> close_group r2 (replaced_sessions r a gid)
      | Some j \<Rightarrow> close_if_live (close_group r2 (replaced_sessions r a gid)) j)"
    by (rule place_session_result)
  have "router_inv r2" using put_group_inv [OF inv g] r2(1,2) by (simp add: router_inv_def group_ok_def)
  then show ?thesis using e r2(3) store_step_inv [OF close_group_step] store_step_inv [OF session_ops_step(4)]
    by (auto split: option.splits)
qed

subsection \<open>Lane selection\<close>

definition lane_load :: "router \<Rightarrow> session_group \<Rightarrow> nat \<Rightarrow> nat" where
  "lane_load r g lane = queued_bytes (s_queue (r_store r ! the (map_of (g_lanes g) lane)))"

lemma consider_lane_alt:
  "consider_lane r g best lane =
    (if lane_live r g lane \<and> lane_load r g lane < snd best then (Some lane, lane_load r g lane) else best)"
  by (simp add: consider_lane_def lane_live_def lane_load_def Let_def split: option.splits)

lemma least_loaded_fold:
  assumes "foldl (\<lambda>best x. consider_lane r g best (f x)) best xs = (s, b)"
  shows "b \<le> snd best" "x \<in> set xs \<Longrightarrow> lane_live r g (f x) \<Longrightarrow> b \<le> lane_load r g (f x)"
    "(s, b) = best \<or> (\<exists>x \<in> set xs. s = Some (f x) \<and> lane_live r g (f x) \<and> b = lane_load r g (f x))"
  using assms
proof (induction xs arbitrary: best)
  case (Cons y xs)
  let ?new = "lane_live r g (f y) \<and> lane_load r g (f y) < snd best"
  { case 1
    then show ?case using Cons.IH(1) [of "consider_lane r g best (f y)"]
      by (auto simp: consider_lane_alt split: if_splits)
  next
    case 2
    then show ?case using Cons.IH(1,2) [of "consider_lane r g best (f y)"]
      by (auto simp: consider_lane_alt split: if_splits)
  next
    case 3
    then show ?case using Cons.IH(3) [of "consider_lane r g best (f y)"]
      by (auto simp: consider_lane_alt split: if_splits) }
qed auto

lemma data_lane_offset:
  fixes start m lane :: nat
  assumes "1 \<le> lane" and "lane \<le> m"
  obtains x where "x < m" "1 + (start + x) mod m = lane"
proof -
  let ?x = "(lane - 1 + (m - start mod m)) mod m"
  have "0 < m" using assms by simp
  have "(start + ?x) mod m = (start + (lane - 1 + (m - start mod m))) mod m" by (rule mod_add_right_eq)
  also have "\<dots> = (start mod m + (lane - 1 + (m - start mod m))) mod m" by (rule mod_add_left_eq [symmetric])
  also have "start mod m + (lane - 1 + (m - start mod m)) = lane - 1 + m"
    using mod_less_divisor [OF \<open>0 < m\<close>, of start] by simp
  also have "(lane - 1 + m) mod m = (lane - 1) mod m" by (rule mod_add_self2)
  also have "\<dots> = lane - 1" using assms by (intro mod_less) linarith
  finally have "1 + (start + ?x) mod m = lane" using assms(1) by linarith
  moreover have "?x < m" using \<open>0 < m\<close> by (rule mod_less_divisor)
  ultimately show thesis by (rule that [rotated])
qed

lemma least_loaded_Some:
  assumes "least_loaded r g start m = Some lane"
  shows "1 \<le> lane" "lane \<le> m" "lane_live r g lane"
    "1 \<le> l \<Longrightarrow> l \<le> m \<Longrightarrow> lane_live r g l \<Longrightarrow> lane_load r g lane \<le> lane_load r g l"
proof -
  obtain b where f: "foldl (\<lambda>best x. consider_lane r g best (1 + (start + x) mod m)) (None, 18446744073709551615) [0..<m] = (Some lane, b)"
    using assms by (auto simp: least_loaded_def) (metis prod.collapse)
  from least_loaded_fold(3) [OF f] obtain x where x: "x < m" "lane = 1 + (start + x) mod m" "lane_live r g lane" "b = lane_load r g lane"
    by auto
  show "1 \<le> lane" "lane \<le> m" "lane_live r g lane" using x mod_less_divisor [of m "start + x"] by (auto simp: Suc_le_eq)
  show "lane_load r g lane \<le> lane_load r g l" if l: "1 \<le> l" "l \<le> m" "lane_live r g l"
  proof -
    obtain y where "y < m" "1 + (start + y) mod m = l" using data_lane_offset [OF l(1,2)] by blast
    then show ?thesis using least_loaded_fold(2) [OF f, of y] l(3) x(4) by auto
  qed
qed

lemma lane_load_small:
  assumes "router_inv r" and "group_ok r a g" and "lane_live r g lane"
  shows "lane_load r g lane < 18446744073709551615"
proof -
  obtain i where "map_of (g_lanes g) lane = Some i" using assms(3) by (auto simp: lane_live_def split: option.splits)
  moreover from this have "i < length (r_store r)" using assms(2) by (auto simp: group_ok_def dest: map_of_SomeD)
  moreover from this have "session_ok (r_store r ! i)" using assms(1) by (simp add: router_inv_def)
  ultimately show ?thesis by (auto simp: lane_load_def session_ok_def queue_inv_def accounted_def bounded_def)
qed

lemma least_loaded_None:
  assumes "least_loaded r g start m = None" and "router_inv r" and "group_ok r a g" and l: "1 \<le> l" "l \<le> m"
  shows "\<not> lane_live r g l"
proof
  assume live: "lane_live r g l"
  obtain b where f: "foldl (\<lambda>best x. consider_lane r g best (1 + (start + x) mod m)) (None, 18446744073709551615) [0..<m] = (None, b)"
    using assms(1) by (auto simp: least_loaded_def) (metis prod.collapse)
  obtain y where y: "y < m" "1 + (start + y) mod m = l" using data_lane_offset [OF l] by blast
  have "b = 18446744073709551615" using least_loaded_fold(3) [OF f] by auto
  then show False using least_loaded_fold(2) [OF f, of y] y live lane_load_small [OF assms(2,3) live] by auto
qed

lemma select_data_lane_result:
  assumes "router_inv r" and g: "group_ok r a g" and "1 < g_lane_count g"
  shows "\<exists>lane flows. select_data_lane r g flow hash = Some (lane, flows) \<and> table_inv flows
    \<and> (\<forall>kept. table_lookup (g_flows g) flow = Some kept \<and> lane_live r g kept \<longrightarrow>
        lane = kept \<and> table_lookup flows flow = Some kept)
    \<and> ((\<nexists>kept. table_lookup (g_flows g) flow = Some kept \<and> lane_live r g kept)
         \<and> (\<exists>l. 1 \<le> l \<and> l < g_lane_count g \<and> lane_live r g l) \<longrightarrow>
        1 \<le> lane \<and> lane < g_lane_count g \<and> lane_live r g lane \<and> table_lookup flows flow = Some lane
        \<and> (\<forall>l. 1 \<le> l \<and> l < g_lane_count g \<and> lane_live r g l \<longrightarrow> lane_load r g lane \<le> lane_load r g l))"
proof -
  let ?t = "g_flows g" and ?m = "g_lane_count g - 1"
  have inv: "table_inv ?t" using g by (simp add: group_ok_def)
  show ?thesis
  proof (cases "\<exists>kept. table_lookup ?t flow = Some kept \<and> lane_live r g kept")
    case True
    then obtain i kept where a: "ft_assignment ?t flow = Some (i, kept)" "lane_live r g kept"
      by (auto simp: table_lookup_def)
    have "table_refresh ?t flow = ft_touch ?t i" by (simp add: table_refresh_def a)
    then show ?thesis
      using a assms(3) flow_memory.refresh_law [OF inv, of flow] flow_memory.lookup_refreshed [OF inv, of flow]
      by (intro exI [of _ kept] exI [of _ "ft_touch ?t i"]) (auto simp: select_data_lane_def table_lookup_def Let_def)
  next
    case False
    then have none: "(case ft_assignment ?t flow of None \<Rightarrow> None
        | Some (index, lane) \<Rightarrow> if lane_live r g lane then Some (index, lane) else None) = None"
      by (auto simp: table_lookup_def split: option.splits)
    show ?thesis
    proof (cases "least_loaded r g (unat hash mod ?m) ?m")
      case None
      then have dead: "\<forall>l. 1 \<le> l \<and> l < g_lane_count g \<longrightarrow> \<not> lane_live r g l"
        using least_loaded_None [OF None assms(1) g] by auto
      have "select_data_lane r g flow hash = Some (0, ft_remove ?t flow)"
        using None none assms(3) by (simp add: select_data_lane_def Let_def)
      then show ?thesis using False dead flow_memory.forget_law [OF inv, of flow] by auto
    next
      case (Some lane)
      note S = least_loaded_Some [OF Some]
      obtain t where t: "ft_assign ?t flow lane = Some t" using flow_memory.assign_law [OF inv] by blast
      have "g_lane_count g \<le> 4" using g by (simp add: group_ok_def MAX_TUNNEL_LANES_def)
      then have "lane mod 256 = lane" using S(2) by (intro mod_less) linarith
      then have "table_inv t" "table_lookup t flow = Some lane" using flow_memory.lookup_assigned [OF inv t] by simp_all
      moreover have "select_data_lane r g flow hash = Some (lane, t)"
        using Some none t assms(3) by (simp add: select_data_lane_def Let_def)
      moreover have "lane < g_lane_count g" "\<And>l. l < g_lane_count g \<Longrightarrow> l \<le> ?m" using S(2) assms(3) by linarith+
      ultimately show ?thesis using False S by auto
    qed
  qed
qed

lemma session_at_Some: "session_at r g lane = Some i \<longleftrightarrow> map_of (g_lanes g) lane = Some i \<and> upgrade r i"
  by (auto simp: session_at_def split: option.splits)

lemma session_at_live: "lane_live r g lane \<longleftrightarrow> session_at r g lane \<noteq> None"
  by (auto simp: session_at_def lane_live_def split: option.splits)

lemma group_ok_lane: "group_ok r a g \<Longrightarrow> map_of (g_lanes g) lane = Some i \<Longrightarrow>
    lane < g_lane_count g \<and> i < length (r_store r) \<and> s_address (r_store r ! i) = a"
  by (auto simp: group_ok_def dest: map_of_SomeD)

definition any_live :: "router \<Rightarrow> session_group \<Rightarrow> nat option" where
  "any_live r g = (case List.map_filter (session_at r g) [0..<g_lane_count g] of [] \<Rightarrow> None | i # _ \<Rightarrow> Some i)"

lemma any_live_None:
  assumes "group_ok r a g"
  shows "any_live r g = None \<longleftrightarrow> (\<forall>lane. \<not> lane_live r g lane)"
proof -
  have "any_live r g = None \<longleftrightarrow> (\<forall>lane < g_lane_count g. session_at r g lane = None)"
  proof -
    have "any_live r g = None \<longleftrightarrow> List.map_filter (session_at r g) [0..<g_lane_count g] = []"
      by (simp add: any_live_def split: list.split)
    then show ?thesis by (auto simp: map_filter_def filter_empty_conv)
  qed
  moreover have "lane_live r g lane \<longrightarrow> lane < g_lane_count g" for lane
    using group_ok_lane [OF assms] by (auto simp: lane_live_def split: option.splits)
  ultimately show ?thesis by (metis session_at_live)
qed

lemma any_live_Some:
  assumes "any_live r g = Some i"
  shows "\<exists>lane. session_at r g lane = Some i"
proof -
  have "i \<in> set (List.map_filter (session_at r g) [0..<g_lane_count g])"
    using assms by (auto simp: any_live_def split: list.splits)
  then show ?thesis by (auto simp: map_filter_def)
qed

lemma select_lane_preferred:
  assumes "(if meta_class (server_classify_ipv4 packet) = Control then Some (0, g_flows g)
      else select_data_lane r g (meta_flow (server_classify_ipv4 packet)) (meta_hash (server_classify_ipv4 packet)))
    = Some (lane, flows)" and "g_lanes g \<noteq> []"
  shows "select_lane r g packet = Some (if lane_live r g lane then session_at r g lane else any_live r g, flows)"
  using assms by (simp add: select_lane_def Let_def any_live_def session_at_live split: option.splits)

lemma preferred_defined:
  assumes "router_inv r" and "group_ok r a g"
  shows "\<exists>lane flows. (if c then Some (0, g_flows g) else select_data_lane r g flow hash) = Some (lane, flows) \<and> table_inv flows"
proof (cases "1 < g_lane_count g")
  case True
  obtain lane flows where "select_data_lane r g flow hash = Some (lane, flows)" "table_inv flows"
    using select_data_lane_result [OF assms True] by blast
  then show ?thesis using assms(2) by (cases c) (simp_all add: group_ok_def)
qed (use assms(2) in \<open>simp add: select_data_lane_def group_ok_def\<close>)

lemma select_lane_defined:
  assumes "router_inv r" and "group_ok r a g"
  obtains res flows where "select_lane r g packet = Some (res, flows)" "table_inv flows"
    "res = None \<longleftrightarrow> (\<forall>lane. \<not> lane_live r g lane)" "\<And>i. res = Some i \<Longrightarrow> \<exists>lane. session_at r g lane = Some i"
proof (cases "g_lanes g = []")
  case True
  then show thesis using assms(2) that [of None "g_flows g"] by (simp add: select_lane_def lane_live_def group_ok_def)
next
  case False
  obtain lane flows where p: "(if meta_class (server_classify_ipv4 packet) = Control then Some (0, g_flows g)
      else select_data_lane r g (meta_flow (server_classify_ipv4 packet)) (meta_hash (server_classify_ipv4 packet)))
    = Some (lane, flows)" and "table_inv flows" using preferred_defined [OF assms] by blast
  then show thesis
    using select_lane_preferred [OF p False] any_live_None [OF assms(2)] any_live_Some [of r g]
    by (intro that [of "if lane_live r g lane then session_at r g lane else any_live r g" flows])
      (auto simp: session_at_live split: if_splits)
qed

lemma set_flows_inv:
  assumes "router_inv r" and "map_of (r_sessions r) a = Some g" and "table_inv flows"
  shows "router_inv (set_flows r a g flows)"
  using put_group_inv [OF assms(1), of a "g\<lparr>g_flows := flows\<rparr>"] router_inv_group [OF assms(1,2)] assms(3)
  by (simp add: set_flows_def group_ok_def)

lemma route_packet_inv:
  assumes "router_inv r"
  shows "\<exists>ended r'. route_packet r packet cancelled now = Some (ended, r') \<and> router_inv r'"
proof -
  note report = store_step_inv [OF store_step_call]
  consider e where "router_parse_ipv4 packet = Err e"
    | src d where "router_parse_ipv4 packet = Ok (src, d)" "map_of (r_sessions r) d = None"
    | src d g where "router_parse_ipv4 packet = Ok (src, d)" "map_of (r_sessions r) d = Some g"
    by (metis sumE surj_pair option.exhaust)
  then show ?thesis
  proof cases
    case 3
    have g: "group_ok r d g" by (rule router_inv_group [OF assms 3(2)])
    obtain res flows where s: "select_lane r g packet = Some (res, flows)" "table_inv flows"
      and live: "\<And>i. res = Some i \<Longrightarrow> \<exists>lane. session_at r g lane = Some i"
      using select_lane_defined [OF assms g, of packet] by metis
    have f: "router_inv (set_flows r d g flows)" by (rule set_flows_inv [OF assms 3(2) s(2)])
    have "addressed_to (s_address (r_store (set_flows r d g flows) ! i)) packet" if "res = Some i" for i
      using live [OF that] group_ok_lane [OF g] 3(1) by (auto simp: session_at_Some set_flows_def addressed_to_def)
    then have "router_inv (session_enqueue (set_flows r d g flows) i packet now)" if "res = Some i" for i
      using store_step_inv [OF session_enqueue_step f] that by blast
    then show ?thesis using 3 s f report by (cases res) (auto simp: route_packet_def Let_def)
  qed (auto simp: route_packet_def report assms)
qed

subsection \<open>Reachable routers\<close>

text \<open>The operations of the router, of the owners of its sessions and of its background tasks, in any
  order. A packet that is injected does not change the router.\<close>

inductive router_step :: "router \<Rightarrow> router \<Rightarrow> bool" where
  step_register: "router_step r (snd (register r address))"
| step_register_group: "router_step r (snd (register_group r address group_id lane_index lane_count connection))"
| step_route: "route_packet r packet cancelled now = Some (ended, r') \<Longrightarrow> router_step r r'"
| step_recv: "router_step r (snd (session_try_recv r i now))"
| step_close: "router_step r (session_close r i)"
| step_cancel: "router_step r (session_cancel r i)"
| step_drop: "router_step r (session_drop r i)"
| step_watch: "router_step r (watch_fires r address group_id lane_index i)"
| step_router_drop: "router_step r (router_drop r)"

inductive router_reachable :: "router \<Rightarrow> bool" where
  reach_new: "router_reachable (router_new metrics)"
| reach_step: "router_reachable r \<Longrightarrow> router_step r r' \<Longrightarrow> router_reachable r'"

inductive_cases router_stepE: "router_step r r'"

lemma router_step_inv: "router_step r r' \<Longrightarrow> router_inv r \<Longrightarrow> router_inv r'"
proof (induction rule: router_step.induct)
  case (step_route r packet cancelled now ended r')
  then show ?case using route_packet_inv [of r packet cancelled now] by auto
qed (simp_all add: register_inv register_group_inv watch_fires_inv router_drop_inv store_step_inv [OF session_recv_step]
    store_step_inv [OF session_ops_step(1)] store_step_inv [OF session_ops_step(2)] store_step_inv [OF session_ops_step(3)])

lemma reachable_inv: "router_reachable r \<Longrightarrow> router_inv r"
proof (induction rule: router_reachable.induct)
  case (reach_step r r')
  then show ?case by (blast intro: router_step_inv)
qed (simp add: router_new_def router_inv_def)

subsection \<open>Properties\<close>

lemma router_parse_agrees:
  "router_parse_ipv4 packet = Ok (s, d) \<longleftrightarrow>
    (\<exists>info. parse_ipv4 packet = Ok info \<and> info_source info = s \<and> info_destination info = d)"
  by (auto simp: router_parse_ipv4_def parse_ipv4_def Let_def split: if_splits)

lemma router_parse_error: "router_parse_ipv4 packet = Err e \<Longrightarrow> \<exists>message. e = RouterInvalidPacket message"
  by (auto simp: router_parse_ipv4_def Let_def split: if_splits)


text \<open>A router with one registered session, and the same after a packet for it.\<close>

definition sample_router :: router where
  "sample_router = snd (register (router_new True) 10)"

definition sample_downlink :: bytes where
  "sample_downlink = [0x45, 0, 0, 20] @ replicate 12 0 @ [0, 0, 0, 10]"

definition sample_routed :: router where
  "sample_routed = snd (the (route_packet sample_router sample_downlink False 5))"

lemma sample_reachable: "router_reachable sample_router" "router_reachable sample_routed"
proof -
  show r: "router_reachable sample_router" unfolding sample_router_def by (rule reach_step [OF reach_new step_register])
  have "route_packet sample_router sample_downlink False 5 \<noteq> None" by code_simp
  then obtain ended where "route_packet sample_router sample_downlink False 5 = Some (ended, sample_routed)"
    by (auto simp: sample_routed_def)
  then show "router_reachable sample_routed" by (intro reach_step [OF r] step_route)
qed


text \<open>\<open>inject\<close> writes a packet to the device only when it is a valid IPv4 packet whose source is the
  session's lease; everything else is refused with an error and writes nothing.\<close>

theorem inject_only_from_lease:
  "case parse_ipv4 packet of
     Err _ \<Rightarrow> \<exists>message. inject cancelled lease packet reply = (Err (RouterInvalidPacket message), [])
   | Ok info \<Rightarrow> inject cancelled lease packet reply =
       (if info_source info \<noteq> lease then (Err (SourceSpoofed (info_source info) lease), [])
        else if cancelled then (Err InjectionCanceled, [])
        else (map_err Device reply, [packet]))"
proof (cases "parse_ipv4 packet")
  case (Inl e)
  have "router_parse_ipv4 packet \<noteq> Ok sd" for sd using router_parse_agrees [of packet "fst sd" "snd sd"] Inl by auto
  then obtain message where "router_parse_ipv4 packet = Err (RouterInvalidPacket message)"
    using router_parse_error by (metis sumE)
  then show ?thesis using Inl by (auto simp: inject_def)
next
  case (Inr info)
  then have "router_parse_ipv4 packet = Ok (info_source info, info_destination info)"
    using router_parse_agrees [of packet "info_source info" "info_destination info"] by blast
  then show ?thesis using Inr by (auto simp: inject_def inject_validated_def)
qed

definition lane_session :: "router \<Rightarrow> ipv4_addr \<Rightarrow> nat \<Rightarrow> nat option" where
  "lane_session r a lane = (case map_of (r_sessions r) a of None \<Rightarrow> None | Some g \<Rightarrow> map_of (g_lanes g) lane)"

text \<open>C31: the watcher of a session removes exactly its own session. When it fires for session \<open>i\<close> of a
  lane, that lane loses its session if the table still names \<open>i\<close> there under the watcher's group
  and \<open>i\<close> is cancelled; a session registered since, any other lane and any other address stay.\<close>

theorem watcher_is_fenced:
  "lane_session (watch_fires r a gid lane i) a' lane' =
    (if s_cancelled (r_store r ! i) \<and> a' = a \<and> lane' = lane \<and> lane_session r a lane = Some i
        \<and> map_option g_id (map_of (r_sessions r) a) = Some gid
     then None else lane_session r a' lane')"
proof -
  have s: "r_sessions (close_if_live r i) = r_sessions r" using session_ops_step(4) by (simp add: store_step_def)
  show ?thesis
    by (cases "map_of (r_sessions r) a")
      (auto simp: watch_fires_def remove_session_def s lane_session_def Let_def AList.update_conv' AList.delete_conv'
        split: option.splits dest!: arg_cong [where f = "\<lambda>l. map_of l lane'"])
qed

lemma on_session_other: "i \<noteq> j \<Longrightarrow> r_store (on_session r j f) ! i = r_store r ! i"
  by (simp add: on_session_def)

lemma close_if_live_other: "i \<noteq> j \<Longrightarrow> r_store (close_if_live r j) ! i = r_store r ! i"
  by (simp add: close_if_live_def session_close_def on_session_other)

lemma close_all_other: "i \<notin> set js \<Longrightarrow> r_store (foldl close_if_live r js) ! i = r_store r ! i"
  by (induction js arbitrary: r) (auto simp: close_if_live_other)

lemma close_group_other:
  "\<forall>g. grp = Some g \<longrightarrow> i \<notin> snd ` set (g_lanes g) \<Longrightarrow> r_store (close_group r grp) ! i = r_store r ! i"
  by (auto simp: close_group_def close_all_other split: option.splits)

lemma close_if_live_closes:
  assumes "j < length (r_store r)" and "session_ok (r_store r ! j)"
  shows "s_closed (r_store (close_if_live r j) ! j)"
  using assms close_inner_ok(3)
  by (auto simp: close_if_live_def upgrade_def session_close_def on_session_def session_ok_def)

lemma store_step_closed:
  "store_step r r' \<Longrightarrow> j < length (r_store r) \<Longrightarrow> s_closed (r_store r ! j) \<Longrightarrow> s_closed (r_store r' ! j)"
  by (auto simp: store_step_def store_extends_def session_extends_def)

lemma store_step_ok:
  "store_step r r' \<Longrightarrow> \<forall>s \<in> set (r_store r). session_ok s \<Longrightarrow> \<forall>s \<in> set (r_store r'). session_ok s"
  by (simp add: store_step_def)

lemma store_step_length: "store_step r r' \<Longrightarrow> length (r_store r) \<le> length (r_store r')"
  by (simp add: store_step_def store_extends_def)

lemma close_all_step: "store_step r (foldl close_if_live r js)"
  by (induction js arbitrary: r) (auto intro: store_step_trans [OF session_ops_step(4)])

lemma close_all_closes:
  assumes "\<forall>s \<in> set (r_store r). session_ok s" and "j \<in> set js" and "j < length (r_store r)"
  shows "s_closed (r_store (foldl close_if_live r js) ! j)"
  using assms
proof (induction js arbitrary: r)
  case (Cons k js)
  let ?r = "close_if_live r k"
  have ok: "\<forall>s \<in> set (r_store ?r). session_ok s" "j < length (r_store ?r)"
    using store_step_ok [OF session_ops_step(4) Cons.prems(1)] store_step_length [OF session_ops_step(4) [of r k]] Cons.prems(3)
    by (blast, linarith)
  show ?case
  proof (cases "j = k")
    case True
    then have "s_closed (r_store ?r ! j)" using close_if_live_closes Cons.prems by simp
    then show ?thesis using store_step_closed [OF close_all_step ok(2)] by simp
  qed (use Cons.IH [OF ok(1) _ ok(2)] Cons.prems in simp)
qed simp

text \<open>C7: a registration of a lane takes effect and replaces what it should. Afterwards the lane names
  the new session, which is open; if the address had a group of another identifier, all its sessions
  are closed and its lanes forgotten; otherwise the lane's previous session is closed and the other
  lanes keep theirs. Other addresses are not touched.\<close>

theorem register_group_replaces:
  assumes "router_reachable r" and "register_group r a gid lane n conn = (Ok (i, collapsed), r')"
  shows "lane_session r' a lane = Some i \<and> \<not> s_closed (r_store r' ! i)
    \<and> (\<forall>lane' j. lane_session r a lane' = Some j \<longrightarrow>
        (if map_option g_id (map_of (r_sessions r) a) = Some gid \<and> lane' \<noteq> lane
         then lane_session r' a lane' = Some j
         else s_closed (r_store r' ! j)
           \<and> (map_option g_id (map_of (r_sessions r) a) \<noteq> Some gid \<and> lane' \<noteq> lane \<longrightarrow> lane_session r' a lane' = None)))
    \<and> (\<forall>a' lane'. a' \<noteq> a \<longrightarrow> lane_session r' a' lane' = lane_session r a' lane')"
proof -
  have inv: "router_inv r" by (rule reachable_inv [OF assms(1)])
  obtain r1 where ns: "new_session r a (Some lane) default_config = (i, r1)"
    and p: "place_session r1 a (base_group r a gid n) lane conn i (replaced_sessions r a gid) = (collapsed, r')"
    using register_group_cases [OF assms(2)] by metis
  let ?g = "base_group r a gid n" and ?old = "replaced_sessions r a gid"
  note N = new_session_step [OF ns small_configs(1)]
  have N': "\<not> s_closed (r_store r1 ! i)" "r_sessions r1 = r_sessions r"
    using ns by (auto simp: new_session_def)
  obtain r2 c w where r2: "r_store r2 = r_store r1"
    "r_sessions r2 = AList.update a (?g\<lparr>g_lanes := AList.update lane i (g_lanes ?g), g_connections := c, g_collapse_warned := w\<rparr>) (r_sessions r1)"
    "r' = (case map_of (g_lanes ?g) lane of None \<Rightarrow> close_group r2 ?old | Some j \<Rightarrow> close_if_live (close_group r2 ?old) j)"
    using place_session_result [OF p] by metis
  have s: "r_sessions r' = r_sessions r2"
    using close_group_step [of r2 ?old] session_ops_step(4) by (auto simp: r2(3) store_step_def split: option.splits)

  have ok: "\<forall>s \<in> set (r_store r2). session_ok s"
    using store_step_ok [OF N(1)] inv by (simp add: r2(1) router_inv_def)
  have less: "j < i \<and> j < length (r_store r2)" if "map_of (r_sessions r) a = Some g" "(l, j) \<in> set (g_lanes g)" for g l j
    using router_inv_group [OF inv that(1)] that(2) N(4) store_step_length [OF N(1)] by (auto simp: group_ok_def r2(1))
  show ?thesis
  proof (cases "map_option g_id (map_of (r_sessions r) a) = Some gid")
    case True
    then obtain g where g: "map_of (r_sessions r) a = Some g" "g_id g = gid" by auto
    then have eq: "?g = g" "?old = None" by (simp_all add: base_group_def replaced_sessions_def)
    have "r_store (close_if_live r2 j) ! i = r_store r1 ! i" if "map_of (g_lanes g) lane = Some j" for j
      using less [OF g(1) map_of_SomeD [OF that]] close_if_live_other [of i j r2] by (simp add: r2(1))
    then have "\<not> s_closed (r_store r' ! i)" using N'(1) by (simp add: r2(3) eq close_group_def r2(1) split: option.split)
    moreover have "s_closed (r_store r' ! j)" if j: "map_of (g_lanes g) lane = Some j" for j
      using close_if_live_closes [of j r2] less [OF g(1) map_of_SomeD [OF j]] ok j by (simp add: r2(3) eq close_group_def)
    ultimately show ?thesis using g
      by (auto simp: lane_session_def s r2(2) N'(2) eq AList.update_conv')
  next
    case False
    then have eq: "?g = empty_group gid n" "?old = map_of (r_sessions r) a"
      by (auto simp: base_group_def replaced_sessions_def split: option.splits)
    have r': "r' = close_group r2 (map_of (r_sessions r) a)" by (simp add: r2(3) eq empty_group_def)
    have "r_store r' ! i = r_store r2 ! i" unfolding r' using less by (intro close_group_other) fastforce
    then have "\<not> s_closed (r_store r' ! i)" using N'(1) by (simp add: r2(1))
    moreover have "s_closed (r_store r' ! j)" if "map_of (r_sessions r) a = Some g" "map_of (g_lanes g) l = Some j" for g l j
    proof -
      have m: "(l, j) \<in> set (g_lanes g)" using that(2) by (rule map_of_SomeD)
      then show ?thesis using close_all_closes [OF ok, of j "map snd (g_lanes g)"] less [OF that(1) m] that(1)
        by (force simp: r' close_group_def)
    qed
    ultimately show ?thesis using False
      by (auto simp: lane_session_def s r2(2) N'(2) eq empty_group_def AList.update_conv' split: option.splits)
  qed
qed

theorem register_group_replaces_witness:
  "fst (register_group sample_router 10 ''g'' 1 2 ''c'') = Ok (1, False)
    \<and> lane_session (snd (register_group sample_router 10 ''g'' 1 2 ''c'')) 10 1 = Some 1
    \<and> s_closed (r_store (snd (register_group sample_router 10 ''g'' 1 2 ''c'')) ! 0)"
proof -
  have f: "fst (register_group sample_router 10 ''g'' 1 2 ''c'') = Ok (1, False)"
    "lane_session sample_router 10 0 = Some 0" "map_option g_id (map_of (r_sessions sample_router) 10) = Some ''''"
    by code_simp+
  then obtain r' where r': "register_group sample_router 10 ''g'' 1 2 ''c'' = (Ok (1, False), r')" by (metis prod.collapse)
  show ?thesis unfolding r' using register_group_replaces [OF sample_reachable(1) r'] f(2,3) by auto
qed

text \<open>C6: which lane carries a packet. Of a group of several lanes that the router knows, a control packet
  goes to lane 0 while that is live. A data packet stays on the lane its flow was assigned to while that
  is live; otherwise it goes to a live data lane with the fewest queued bytes, if there is one, and the
  flow is remembered there. A packet is left without a session only when no lane is live.\<close>

theorem lane_choice:
  assumes "router_reachable r" and "map_of (r_sessions r) a = Some g" and "1 < g_lane_count g"
    and "server_classify_ipv4 packet = metadata" and "table_lookup (g_flows g) (meta_flow metadata) = assigned"
  shows "\<exists>chosen flows. select_lane r g packet = Some (chosen, flows)
    \<and> (chosen = None \<longleftrightarrow> (\<forall>lane. \<not> lane_live r g lane))
    \<and> (meta_class metadata = Control \<and> lane_live r g 0 \<longrightarrow> chosen = session_at r g 0 \<and> flows = g_flows g)
    \<and> (\<forall>kept. meta_class metadata \<noteq> Control \<and> assigned = Some kept \<and> lane_live r g kept \<longrightarrow>
        chosen = session_at r g kept \<and> (kept \<noteq> 0 \<longrightarrow> table_lookup flows (meta_flow metadata) = Some kept))
    \<and> (meta_class metadata \<noteq> Control \<and> (\<forall>kept. assigned = Some kept \<longrightarrow> \<not> lane_live r g kept)
         \<and> (\<exists>lane. 1 \<le> lane \<and> lane < g_lane_count g \<and> lane_live r g lane) \<longrightarrow>
        (\<exists>best. 1 \<le> best \<and> best < g_lane_count g \<and> chosen = session_at r g best
          \<and> table_lookup flows (meta_flow metadata) = Some best
          \<and> (\<forall>lane. 1 \<le> lane \<and> lane < g_lane_count g \<and> lane_live r g lane \<longrightarrow> lane_load r g best \<le> lane_load r g lane)))"
proof -
  have inv: "router_inv r" by (rule reachable_inv [OF assms(1)])
  have g: "group_ok r a g" by (rule router_inv_group [OF inv assms(2)])
  obtain chosen flows where c: "select_lane r g packet = Some (chosen, flows)"
    "chosen = None \<longleftrightarrow> (\<forall>lane. \<not> lane_live r g lane)"
    using select_lane_defined [OF inv g] by metis
  have ne: "g_lanes g \<noteq> []" if "lane_live r g lane" for lane using that by (auto simp: lane_live_def)
  show ?thesis
  proof (cases "meta_class metadata = Control")
    case True
    have "chosen = session_at r g 0 \<and> flows = g_flows g" if "lane_live r g 0"
      using select_lane_preferred [of packet g r 0 "g_flows g"] True assms(4) ne [OF that] that c(1) by simp
    then show ?thesis using True c by simp
  next
    case False

    obtain lane flows' where s: "select_data_lane r g (meta_flow metadata) (meta_hash metadata) = Some (lane, flows')"
      and kept: "\<forall>kept. assigned = Some kept \<and> lane_live r g kept \<longrightarrow>
        lane = kept \<and> table_lookup flows' (meta_flow metadata) = Some kept"
      and fresh: "(\<nexists>kept. assigned = Some kept \<and> lane_live r g kept)
         \<and> (\<exists>l. 1 \<le> l \<and> l < g_lane_count g \<and> lane_live r g l) \<longrightarrow>
        1 \<le> lane \<and> lane < g_lane_count g \<and> lane_live r g lane \<and> table_lookup flows' (meta_flow metadata) = Some lane
        \<and> (\<forall>l. 1 \<le> l \<and> l < g_lane_count g \<and> lane_live r g l \<longrightarrow> lane_load r g lane \<le> lane_load r g l)"
      using select_data_lane_result [OF inv g assms(3), of "meta_flow metadata" "meta_hash metadata"]
      unfolding assms(5) by metis
    have "chosen = session_at r g lane \<and> flows = flows'" if "lane_live r g lane"
      using select_lane_preferred [of packet g r lane flows'] False s assms(4) ne [OF that] that c(1) by simp
    then show ?thesis using False c kept fresh by (intro exI [of _ chosen] exI [of _ flows]) blast
  qed
qed

text \<open>Two lanes of a group, and a data packet for it.\<close>

definition sample_lanes :: router where
  "sample_lanes = snd (register_group (snd (register_group (router_new True) 10 ''g'' 0 2 ''c0'')) 10 ''g'' 1 2 ''c1'')"

definition sample_data :: bytes where
  "sample_data = [0x45, 0, 0, 20, 0, 0, 0, 0, 64, 47] @ replicate 6 0 @ [0, 0, 0, 10]"

theorem lane_choice_witness:
  "\<exists>g flows. map_of (r_sessions sample_lanes) 10 = Some g
    \<and> select_lane sample_lanes g sample_data = Some (session_at sample_lanes g 1, flows)"
proof -
  have reach: "router_reachable sample_lanes" unfolding sample_lanes_def
    by (rule reach_step [OF reach_step [OF reach_new step_register_group] step_register_group])
  have "map_of (r_sessions sample_lanes) 10 \<noteq> None" by code_simp
  then obtain g where g: "map_of (r_sessions sample_lanes) 10 = Some g" by blast
  have "map_option (\<lambda>g. (g_lane_count g, lane_live sample_lanes g 1,
      table_lookup (g_flows g) (meta_flow (server_classify_ipv4 sample_data)))) (map_of (r_sessions sample_lanes) 10)
    = Some (2, True, None)" by code_simp
  then have f: "g_lane_count g = 2" "lane_live sample_lanes g 1"
    "table_lookup (g_flows g) (meta_flow (server_classify_ipv4 sample_data)) = None" by (simp_all add: g)
  have cls: "meta_class (server_classify_ipv4 sample_data) \<noteq> Control" by code_simp
  obtain best flows where "1 \<le> best" "best < g_lane_count g"
    "select_lane sample_lanes g sample_data = Some (session_at sample_lanes g best, flows)"
    using lane_choice [OF reach g _ refl refl, of sample_data] f cls by fastforce
  moreover from this have "best = 1" using f(1) by linarith
  ultimately show ?thesis using g by blast
qed

end
