(* ===== verification/Ip_Text.thy ===== *)
theory Ip_Text
  imports Wire_Ip
begin

text \<open>
  What the sources use of the standard library on text: decimal numbers, the \<open>Display\<close> and
  \<open>FromStr\<close> implementations of \<open>Ipv4Addr\<close>, \<open>u8::from_str\<close>, \<open>str::split_once\<close> and the ASCII classes.
  Strings are lists of bytes-as-characters.
\<close>

definition is_ascii_digit :: "char \<Rightarrow> bool" where
  "is_ascii_digit c \<longleftrightarrow> 48 \<le> (of_char c :: nat) \<and> (of_char c :: nat) \<le> 57"

definition is_ascii_alphanumeric :: "char \<Rightarrow> bool" where
  "is_ascii_alphanumeric c \<longleftrightarrow> is_ascii_digit c \<or> (65 \<le> (of_char c :: nat) \<and> (of_char c :: nat) \<le> 90)
     \<or> (97 \<le> (of_char c :: nat) \<and> (of_char c :: nat) \<le> 122)"

text \<open>The decimal digits of a \<open>u8\<close>.\<close>

definition digit :: "nat \<Rightarrow> char" where
  "digit n = char_of (48 + n)"

definition show_u8 :: "nat \<Rightarrow> string" where
  "show_u8 n =
    (if n < 10 then [digit n]
     else if n < 100 then [digit (n div 10), digit (n mod 10)]
     else [digit (n div 100), digit (n div 10 mod 10), digit (n mod 10)])"

definition decimal :: "string \<Rightarrow> nat" where
  "decimal ds = foldl (\<lambda>v c. v * 10 + (of_char c - 48)) 0 ds"

definition ipv4_to_string :: "ipv4_addr \<Rightarrow> string" where
  "ipv4_to_string a =
    (let os = ipv4_octets a
     in show_u8 (unat (os ! 0)) @ ''.'' @ show_u8 (unat (os ! 1)) @ ''.'' @ show_u8 (unat (os ! 2)) @ ''.''
       @ show_u8 (unat (os ! 3)))"

text \<open>One group of the parser: up to three digits, no leading zero, at most 255.\<close>

definition parse_octet :: "string \<Rightarrow> (u8 \<times> string) option" where
  "parse_octet s =
    (let ds = takeWhile is_ascii_digit s
     in if ds = [] \<or> length ds > 3 \<or> (length ds > 1 \<and> hd ds = CHR ''0'') \<or> decimal ds > 255 then None
        else Some (byte_of (decimal ds), dropWhile is_ascii_digit s))"

definition expect_char :: "char \<Rightarrow> string \<Rightarrow> string option" where
  "expect_char c s = (case s of [] \<Rightarrow> None | d # rest \<Rightarrow> if d = c then Some rest else None)"

definition parse_dotted :: "string \<Rightarrow> (u8 \<times> string) option" where
  "parse_dotted s = Option.bind (expect_char CHR ''.'' s) parse_octet"

definition ipv4_from_str :: "string \<Rightarrow> ipv4_addr option" where
  "ipv4_from_str s =
    (if length s > 15 then None
     else Option.bind (parse_octet s) (\<lambda>(a, s).
       Option.bind (parse_dotted s) (\<lambda>(b, s).
       Option.bind (parse_dotted s) (\<lambda>(c, s).
       Option.bind (parse_dotted s) (\<lambda>(d, s).
         if s = [] then Some (ipv4_new a b c d) else None)))))"

definition u8_from_str :: "string \<Rightarrow> u8 option" where
  "u8_from_str s =
    (let ds = (case s of [] \<Rightarrow> [] | c # rest \<Rightarrow> if c = CHR ''+'' then rest else s)
     in if ds = [] \<or> \<not> list_all is_ascii_digit ds \<or> decimal ds > 255 then None else Some (byte_of (decimal ds)))"

definition split_once :: "char \<Rightarrow> string \<Rightarrow> (string \<times> string) option" where
  "split_once c s =
    (case dropWhile (\<lambda>d. d \<noteq> c) s of [] \<Rightarrow> None | _ # rest \<Rightarrow> Some (takeWhile (\<lambda>d. d \<noteq> c) s, rest))"

subsection \<open>Printing and parsing are inverse\<close>

definition octet_text_ok :: "nat \<Rightarrow> bool" where
  "octet_text_ok n \<longleftrightarrow>
    (let ds = show_u8 n
     in list_all is_ascii_digit ds \<and> ds \<noteq> [] \<and> length ds \<le> 3 \<and> (length ds > 1 \<longrightarrow> hd ds \<noteq> CHR ''0'')
        \<and> decimal ds = n)"

text \<open>White space of \<open>str::trim\<close>: the property \<open>White_Space\<close> of Unicode, in UTF-8.\<close>

definition white_space :: "string list" where
  "white_space =
    map (\<lambda>n. [char_of (n :: nat)]) [9, 10, 11, 12, 13, 32]
    @ map (map (char_of :: nat \<Rightarrow> char)) ([[0xC2, 0x85], [0xC2, 0xA0], [0xE1, 0x9A, 0x80]]
        @ map (\<lambda>n. [0xE2, 0x80, n]) ([0x80..<0x8B] @ [0xA8, 0xA9, 0xAF])
        @ [[0xE2, 0x81, 0x9F], [0xE3, 0x80, 0x80]])"

definition starts_with :: "string \<Rightarrow> string \<Rightarrow> bool" where
  "starts_with p s \<longleftrightarrow> take (length p) s = p"

text \<open>Trimming one white-space character after the other; the end of the text is trimmed on the reversed text.\<close>

function trim_with :: "string list \<Rightarrow> string \<Rightarrow> string" where
  "trim_with ws s =
    (case find (\<lambda>w. w \<noteq> [] \<and> starts_with w s) ws of
       None \<Rightarrow> s
     | Some w \<Rightarrow> if s = [] then s else trim_with ws (drop (length w) s))"
  by pat_completeness auto
termination
  by (relation "measure (\<lambda>(_, s). length s)") (auto simp: find_Some_iff)

definition str_trim :: "string \<Rightarrow> string" where
  "str_trim s = rev (trim_with (map rev white_space) (rev (trim_with white_space s)))"

lemma of_digit [simp]: "n < 10 \<Longrightarrow> of_char (digit n) = 48 + n"
  by (simp add: digit_def del: of_char_of) (simp only: of_char_of, simp)

lemma digit_is_digit [simp]: "n < 10 \<Longrightarrow> is_ascii_digit (digit n)"
  by (simp add: is_ascii_digit_def)

lemma digit_not_zero: "0 < n \<Longrightarrow> n < 10 \<Longrightarrow> digit n \<noteq> CHR ''0''"
proof
  assume n: "0 < n" "n < 10" and "digit n = CHR ''0''"
  then have "(of_char (digit n) :: nat) = of_char CHR ''0''" by simp
  then show False using n by (simp only: of_digit) (simp add: of_char_def)
qed

lemma unat_u8_not_above [simp]: "\<not> 255 < unat (b :: u8)"
  using unat_u8_less [of b] by linarith

lemma octet_text: "octet_text_ok (unat (b :: u8))"
proof -
  define n where "n = unat b"
  have n: "n < 1000" using unat_u8_less [of b] unfolding n_def by linarith
  have split2: "n div 10 * 10 + n mod 10 = n" by (rule div_mult_mod_eq)
  have "n div 100 = n div 10 div 10" by (simp add: div_mult2_eq [symmetric])
  then have "n div 100 * 10 + n div 10 mod 10 = n div 10" using div_mult_mod_eq [of "n div 10" 10] by simp
  then have split1: "n div 100 * 100 + n div 10 mod 10 * 10 + n mod 10 = n" using split2 by linarith
  consider "n < 10" | "10 \<le> n" "n < 100" | "100 \<le> n" by linarith
  then have "octet_text_ok n"
  proof cases
    case 1
    then show ?thesis by (simp add: octet_text_ok_def show_u8_def decimal_def)
  next
    case 2
    then have "show_u8 n = [digit (n div 10), digit (n mod 10)]" by (simp add: show_u8_def)
    moreover from 2 have "0 < n div 10" by (simp add: div_greater_zero_iff)
    moreover from 2 have "n div 10 < 10" by (simp add: div_less_iff_less_mult)
    ultimately show ?thesis using split2 by (simp add: octet_text_ok_def decimal_def digit_not_zero)
  next
    case 3
    then have "show_u8 n = [digit (n div 100), digit (n div 10 mod 10), digit (n mod 10)]" by (simp add: show_u8_def)
    moreover from 3 have "0 < n div 100" by (simp add: div_greater_zero_iff)
    moreover have "n div 100 < 10" using n by (simp add: div_less_iff_less_mult)
    ultimately show ?thesis using split1 by (simp add: octet_text_ok_def decimal_def digit_not_zero add_mult_distrib)
  qed
  then show ?thesis by (simp only: n_def)
qed

lemma parse_octet_show:
  assumes "\<And>c rest'. rest = c # rest' \<Longrightarrow> \<not> is_ascii_digit c"
  shows "parse_octet (show_u8 (unat b) @ rest) = Some (b, rest)"
proof -
  have d: "\<forall>c \<in> set (show_u8 (unat b)). is_ascii_digit c" using octet_text [of b] by (simp add: octet_text_ok_def Let_def list_all_iff)
  have t: "takeWhile is_ascii_digit rest = []" "dropWhile is_ascii_digit rest = rest"
    using assms by (cases rest; simp)+
  have "takeWhile is_ascii_digit (show_u8 (unat b) @ rest) = show_u8 (unat b)"
    "dropWhile is_ascii_digit (show_u8 (unat b) @ rest) = rest"
    using d t by (simp_all add: takeWhile_append2 dropWhile_append2)
  then show ?thesis using octet_text [of b]
    by (simp add: parse_octet_def Let_def octet_text_ok_def byte_of_def)
qed

lemma parse_dotted_show:
  assumes "\<And>c rest'. rest = c # rest' \<Longrightarrow> \<not> is_ascii_digit c"
  shows "parse_dotted (''.'' @ show_u8 (unat b) @ rest) = Some (b, rest)"
  using parse_octet_show [OF assms] by (simp add: parse_dotted_def expect_char_def)

lemma ipv4_text_roundtrip: "ipv4_from_str (ipv4_to_string a) = Some a"
proof -
  obtain w x y z where o: "ipv4_octets a = [w, x, y, z]" using length4 [of "ipv4_octets a"] by auto
  have dot: "\<not> is_ascii_digit CHR ''.''" by code_simp
  have len: "length (show_u8 (unat b)) \<le> 3" for b :: u8 using octet_text [of b] by (simp add: octet_text_ok_def Let_def)
  have l: "length (ipv4_to_string a) \<le> 15"
    using len [of w] len [of x] len [of y] len [of z] by (simp add: ipv4_to_string_def Let_def o)
  have p: "parse_octet (show_u8 (unat b) @ CHR ''.'' # rest) = Some (b, CHR ''.'' # rest)" for b rest
    by (rule parse_octet_show) (use dot in auto)
  have q: "parse_dotted (CHR ''.'' # show_u8 (unat b) @ CHR ''.'' # rest) = Some (b, CHR ''.'' # rest)" for b rest
    using parse_dotted_show [of "CHR ''.'' # rest" b] dot by auto
  have e: "parse_dotted (CHR ''.'' # show_u8 (unat b)) = Some (b, [])" for b
    using parse_dotted_show [of "[]" b] by simp
  show ?thesis using l ipv4_octets_new [OF o] by (simp add: ipv4_from_str_def ipv4_to_string_def Let_def o p q e)
qed

lemma u8_text_roundtrip: "u8_from_str (show_u8 (unat b)) = Some b"
proof -
  have t: "octet_text_ok (unat b)" by (rule octet_text)
  moreover have "\<not> is_ascii_digit CHR ''+''" by code_simp
  ultimately show ?thesis
    by (auto simp: u8_from_str_def octet_text_ok_def Let_def byte_of_def split: list.splits)
qed

lemma split_once_show:
  assumes "c \<notin> set s"
  shows "split_once c (s @ c # rest) = Some (s, rest)"
proof -
  have "\<forall>d \<in> set s. d \<noteq> c" using assms by auto
  then have "dropWhile (\<lambda>d. d \<noteq> c) (s @ c # rest) = c # rest" "takeWhile (\<lambda>d. d \<noteq> c) (s @ c # rest) = s"
    by (simp_all add: dropWhile_append2 takeWhile_append2)
  then show ?thesis by (simp add: split_once_def)
qed

lemma slash_not_in_ipv4: "CHR ''/'' \<notin> set (ipv4_to_string a)"
proof -
  have "CHR ''/'' \<notin> set (show_u8 (unat b))" for b :: u8
  proof -
    have "\<not> is_ascii_digit CHR ''/''" by code_simp
    then show ?thesis using octet_text [of b] by (auto simp: octet_text_ok_def Let_def list_all_iff)
  qed
  then show ?thesis by (simp add: ipv4_to_string_def Let_def)
qed

end
