(* ===== verification/Lease_Pool.thy ===== *)
theory Lease_Pool
  imports Ip_Text Fifo_Spec "HOL-Library.AList" "HOL-Library.List_Lexorder" "HOL-Library.Char_ord"
begin

text \<open>
  The address pool of \<open>porta-server/src/state/pool.rs\<close>: leases of addresses to clients, with an optional
  state file. Hash maps are association lists with distinct keys. The \<open>ipnet\<close> and \<open>serde_json\<close> crates are
  the parameters \<open>api\<close> and \<open>json\<close>; the file system is the replies it gives to the calls of a write, and
  the content of the state file. Generations are 64-bit words, whose addition wraps as in a release build.
\<close>

subsection \<open>Parameters\<close>

record 'n net_api =
  net_new :: "ipv4_addr \<Rightarrow> u8 \<Rightarrow> 'n option"
  net_network :: "'n \<Rightarrow> ipv4_addr"
  net_prefix_len :: "'n \<Rightarrow> u8"
  net_contains :: "'n \<Rightarrow> ipv4_addr \<Rightarrow> bool"
  net_to_string :: "'n \<Rightarrow> string"

record persisted_lease =
  pl_address :: string
  pl_generation :: u64

record pool_state =
  st_version :: u32
  st_leases :: "(string \<times> persisted_lease) list"
  st_pool :: "string option"

record json_api =
  to_vec :: "pool_state \<Rightarrow> bytes option"
  from_slice :: "bytes \<Rightarrow> pool_state option"

subsection \<open>Data\<close>

definition STATE_VERSION :: u32 where "STATE_VERSION = 2"

datatype fs_error = NotFound | AlreadyExists | FsOther nat

text \<open>The reasons of \<open>PoolError::Invalid\<close>, with the values that its messages print. \<open>ParseAddress\<close> is also
  the refusal of an IPv6 pool.\<close>

datatype invalid_reason =
    StatePathRequired | PrefixOutside u8 | GroupIdRequired | InvalidClientId
  | UnsupportedVersion u32 | InvalidStatePool string | IncompatiblePool string
  | ZeroGeneration string | StateClientId string | StateAddress string string
  | AssignedTwice ipv4_addr string string
  | MissingPrefixLength | ParseAddress | ParseBits | ParseNetwork

datatype pool_error =
    Exhausted
  | Invalid invalid_reason
  | Io string fs_error
  | Durability fs_error
  | Json string

record lease =
  l_address :: ipv4_addr
  l_prefix_bits :: u8
  l_gateway :: ipv4_addr
  l_generation :: u64
  l_client_id :: string

record lease_record =
  lr_address :: ipv4_addr
  lr_generation :: u64
  lr_active :: bool

record active_lease_group =
  ag_id :: string
  ag_generation :: u64
  ag_references :: nat

record pool_inner =
  by_client :: "(string \<times> lease_record) list"
  by_address :: "(ipv4_addr \<times> string) list"
  groups :: "(string \<times> active_lease_group) list"
  next_generation :: u64

record 'n pool =
  p_prefix :: 'n
  p_gateway :: ipv4_addr
  p_persistent :: bool
  p_inner :: pool_inner

subsection \<open>Helpers\<close>

definition valid_client_id :: "string \<Rightarrow> bool" where
  "valid_client_id value \<longleftrightarrow> 1 \<le> length value \<and> length value \<le> 64 \<and> is_ascii_alphanumeric (hd value)
     \<and> list_all (\<lambda>c. is_ascii_alphanumeric c \<or> c \<in> set ''._-'') (drop 1 value)"

definition parse_ipv4_prefix :: "'n net_api \<Rightarrow> string \<Rightarrow> pool_error + 'n" where
  "parse_ipv4_prefix api value =
    (case split_once CHR ''/'' value of
       None \<Rightarrow> Err (Invalid MissingPrefixLength)
     | Some (address, bits) \<Rightarrow>
         (case ipv4_from_str address of
            None \<Rightarrow> Err (Invalid ParseAddress)
          | Some address \<Rightarrow>
              (case u8_from_str bits of
                 None \<Rightarrow> Err (Invalid ParseBits)
               | Some bits \<Rightarrow>
                   (case net_new api address bits of
                      None \<Rightarrow> Err (Invalid ParseNetwork)
                    | Some net \<Rightarrow>
                        (case net_new api (net_network api net) (net_prefix_len api net) of
                           None \<Rightarrow> Err (Invalid ParseNetwork)
                         | Some net \<Rightarrow> Ok net)))))"

definition increment :: "ipv4_addr \<Rightarrow> ipv4_addr option" where
  "increment address = (if address = - 1 then None else Some (address + 1))"

definition broadcast :: "'n net_api \<Rightarrow> 'n \<Rightarrow> ipv4_addr" where
  "broadcast api net =
    (let host_bits = 32 - unat (net_prefix_len api net)
     in net_network api net OR (push_bit host_bits 1 - 1))"

definition make_lease :: "'n net_api \<Rightarrow> 'n pool \<Rightarrow> string \<Rightarrow> lease_record \<Rightarrow> lease" where
  "make_lease api p client_id record =
    \<lparr>l_address = lr_address record, l_prefix_bits = net_prefix_len api (p_prefix p), l_gateway = p_gateway p,
     l_generation = lr_generation record, l_client_id = client_id\<rparr>"

definition abandon_committed_lease :: "pool_inner \<Rightarrow> string \<Rightarrow> pool_inner" where
  "abandon_committed_lease inner client_id =
    inner\<lparr>by_client := AList.map_entry client_id (\<lambda>record. record\<lparr>lr_active := False\<rparr>) (by_client inner),
          groups := AList.delete client_id (groups inner)\<rparr>"

definition activate_group :: "pool_inner \<Rightarrow> string \<Rightarrow> string \<Rightarrow> u64 \<Rightarrow> pool_inner" where
  "activate_group inner client_id group_id generation =
    (if group_id = '''' then inner\<lparr>groups := AList.delete client_id (groups inner)\<rparr>
     else inner\<lparr>groups := AList.update client_id
       \<lparr>ag_id = group_id, ag_generation = generation, ag_references = 1\<rparr> (groups inner)\<rparr>)"

subsection \<open>The state file\<close>

datatype open_reply = Opened | OpenExists | OpenFailed fs_error

record fs_replies =
  fs_create_dir :: "fs_error + unit"
  fs_open :: "open_reply list"
  fs_write :: "fs_error + unit"
  fs_sync :: "fs_error + unit"
  fs_rename :: "fs_error + unit"
  fs_sync_dir :: "fs_error + unit"

text \<open>The loop of \<open>create_temporary\<close>: at most 128 names are tried; a reply that is missing is one that
  finds the name taken.\<close>

fun create_temporary :: "nat \<Rightarrow> open_reply list \<Rightarrow> fs_error + unit" where
  "create_temporary tries [] = Err AlreadyExists"
| "create_temporary tries (reply # replies) =
    (if tries = 0 then Err AlreadyExists
     else (case reply of
             Opened \<Rightarrow> Ok ()
           | OpenExists \<Rightarrow> create_temporary (tries - 1) replies
           | OpenFailed e \<Rightarrow> Err e))"

text \<open>The new content of the state file is the second result: it changes at the rename.\<close>

definition write_state_atomically ::
  "fs_replies \<Rightarrow> bytes \<Rightarrow> bytes option \<Rightarrow> (pool_error + unit) \<times> bytes option" where
  "write_state_atomically fs data disk =
    (case map_err (Io ''create lease state directory'') (fs_create_dir fs) of
       Err e \<Rightarrow> (Err e, disk)
     | Ok _ \<Rightarrow>
         (case map_err (Io ''create lease state temporary file'') (create_temporary 128 (fs_open fs)) of
            Err e \<Rightarrow> (Err e, disk)
          | Ok _ \<Rightarrow>
              (case map_err (Io ''write lease state'') (fs_write fs) of
                 Err e \<Rightarrow> (Err e, disk)
               | Ok _ \<Rightarrow>
                   (case map_err (Io ''sync lease state'') (fs_sync fs) of
                      Err e \<Rightarrow> (Err e, disk)
                    | Ok _ \<Rightarrow>
                        (case map_err (Io ''replace lease state'') (fs_rename fs) of
                           Err e \<Rightarrow> (Err e, disk)
                         | Ok _ \<Rightarrow> (map_err Durability (fs_sync_dir fs), Some data))))))"

definition persist_entry :: "string \<times> lease_record \<Rightarrow> string \<times> persisted_lease" where
  "persist_entry entry =
    (fst entry, \<lparr>pl_address = ipv4_to_string (lr_address (snd entry)), pl_generation = lr_generation (snd entry)\<rparr>)"

definition state_of :: "'n net_api \<Rightarrow> 'n pool \<Rightarrow> pool_inner \<Rightarrow> pool_state" where
  "state_of api p inner =
    \<lparr>st_version = STATE_VERSION,
     st_leases = sort_key fst (map persist_entry (by_client inner)),
     st_pool = Some (net_to_string api (p_prefix p))\<rparr>"

definition persist_state_locked ::
  "'n net_api \<Rightarrow> json_api \<Rightarrow> 'n pool \<Rightarrow> pool_inner \<Rightarrow> fs_replies \<Rightarrow> bytes option
    \<Rightarrow> (pool_error + unit) \<times> bytes option" where
  "persist_state_locked api json p inner fs disk =
    (if \<not> p_persistent p then (Ok (), disk)
     else
       (case to_vec json (state_of api p inner) of
          None \<Rightarrow> (Err (Json ''encode lease state''), disk)
        | Some data \<Rightarrow> write_state_atomically fs (data @ [10]) disk))"

definition restore_lease ::
  "'n net_api \<Rightarrow> 'n pool \<Rightarrow> pool_inner \<Rightarrow> string \<Rightarrow> string \<Rightarrow> u64 \<Rightarrow> pool_error + pool_inner" where
  "restore_lease api p inner client_id text generation =
    (if \<not> valid_client_id client_id then Err (Invalid (StateClientId client_id))
     else
       (case ipv4_from_str text of
          None \<Rightarrow> Err (Invalid (StateAddress text client_id))
        | Some address \<Rightarrow>
            if \<not> net_contains api (p_prefix p) address \<or> address \<le> p_gateway p
              \<or> address \<ge> broadcast api (p_prefix p)
            then Err (Invalid (StateAddress text client_id))
            else
              (case map_of (by_address inner) address of
                 Some previous \<Rightarrow> Err (Invalid (AssignedTwice address previous client_id))
               | None \<Rightarrow>
                   Ok (inner\<lparr>by_client := AList.update client_id
                       \<lparr>lr_address = address, lr_generation = generation, lr_active = False\<rparr> (by_client inner),
                     by_address := AList.update address client_id (by_address inner)\<rparr>))))"

fun restore_leases ::
  "'n net_api \<Rightarrow> 'n pool \<Rightarrow> pool_inner \<Rightarrow> (string \<times> persisted_lease) list \<Rightarrow> pool_error + pool_inner" where
  "restore_leases api p inner [] = Ok inner"
| "restore_leases api p inner ((client_id, persisted) # leases) =
    (if pl_generation persisted = 0 then Err (Invalid (ZeroGeneration client_id))
     else rbind (restore_lease api p inner client_id (pl_address persisted) (pl_generation persisted)) (\<lambda>inner.
       restore_leases api p
         (inner\<lparr>next_generation := max (next_generation inner) (pl_generation persisted)\<rparr>) leases))"

datatype read_reply = ReadState bytes | ReadFailed fs_error

definition load_state :: "'n net_api \<Rightarrow> json_api \<Rightarrow> 'n pool \<Rightarrow> read_reply \<Rightarrow> pool_error + 'n pool" where
  "load_state api json p reply =
    (case reply of
       ReadFailed e \<Rightarrow> if e = NotFound then Ok p else Err (Io ''read lease state'' e)
     | ReadState data \<Rightarrow>
         (case from_slice json data of
            None \<Rightarrow> Err (Json ''decode lease state'')
          | Some state \<Rightarrow>
              if st_version state \<noteq> STATE_VERSION then Err (Invalid (UnsupportedVersion (st_version state)))
              else
                rbind
                  (case st_pool state of
                     None \<Rightarrow> Ok ()
                   | Some persisted_pool \<Rightarrow>
                       (case parse_ipv4_prefix api persisted_pool of
                          Err _ \<Rightarrow> Err (Invalid (InvalidStatePool persisted_pool))
                        | Ok parsed \<Rightarrow>
                            if parsed \<noteq> p_prefix p then Err (Invalid (IncompatiblePool persisted_pool)) else Ok ()))
                  (\<lambda>_. rbind (restore_leases api p (p_inner p) (st_leases state)) (\<lambda>inner.
                    Ok (p\<lparr>p_inner := inner\<rparr>)))))"

subsection \<open>Construction\<close>

definition empty_inner :: pool_inner where
  "empty_inner = \<lparr>by_client = [], by_address = [], groups = [], next_generation = 0\<rparr>"

text \<open>\<open>None\<close> is a panic of one of the two \<open>expect\<close>s. The file is read when there is a state path.\<close>

definition from_prefix_with_path ::
  "'n net_api \<Rightarrow> json_api \<Rightarrow> 'n \<Rightarrow> read_reply option \<Rightarrow> (pool_error + 'n pool) option" where
  "from_prefix_with_path api json net state_path =
    (case net_new api (net_network api net) (net_prefix_len api net) of
       None \<Rightarrow> None
     | Some net \<Rightarrow>
         if \<not> (16 \<le> net_prefix_len api net \<and> net_prefix_len api net \<le> 30)
         then Some (Err (Invalid (PrefixOutside (net_prefix_len api net))))
         else
           (case increment (net_network api net) of
              None \<Rightarrow> None
            | Some gateway \<Rightarrow>
                let p = \<lparr>p_prefix = net, p_gateway = gateway, p_persistent = (state_path \<noteq> None),
                         p_inner = empty_inner\<rparr>
                in Some (case state_path of None \<Rightarrow> Ok p | Some reply \<Rightarrow> load_state api json p reply)))"

definition pool_new :: "'n net_api \<Rightarrow> json_api \<Rightarrow> string \<Rightarrow> read_reply option \<Rightarrow> (pool_error + 'n pool) option" where
  "pool_new api json cidr state_path =
    (case parse_ipv4_prefix api cidr of
       Err e \<Rightarrow> Some (Err e)
     | Ok net \<Rightarrow> from_prefix_with_path api json net state_path)"

text \<open>The constructors with a state path; \<open>read\<close> is what reading a path gives.\<close>

definition new_persistent ::
  "'n net_api \<Rightarrow> json_api \<Rightarrow> string \<Rightarrow> string \<Rightarrow> (string \<Rightarrow> read_reply) \<Rightarrow> (pool_error + 'n pool) option" where
  "new_persistent api json cidr state_path read =
    (if state_path = '''' then Some (Err (Invalid StatePathRequired))
     else pool_new api json cidr (Some (read state_path)))"

definition from_prefix_persistent ::
  "'n net_api \<Rightarrow> json_api \<Rightarrow> 'n \<Rightarrow> string \<Rightarrow> (string \<Rightarrow> read_reply) \<Rightarrow> (pool_error + 'n pool) option" where
  "from_prefix_persistent api json net state_path read =
    (if state_path = '''' then Some (Err (Invalid StatePathRequired))
     else from_prefix_with_path api json net (Some (read state_path)))"

subsection \<open>Leases\<close>

lemma unat_increment: "(a :: ipv4_addr) \<noteq> - 1 \<Longrightarrow> unat (a + 1) = Suc (unat a)"
  by (metis add.commute eq_neg_iff_add_eq_0 unatSuc)

function find_free :: "(ipv4_addr \<times> string) list \<Rightarrow> ipv4_addr \<Rightarrow> ipv4_addr option \<Rightarrow> ipv4_addr option" where
  "find_free taken limit candidate =
    (case candidate of
       None \<Rightarrow> None
     | Some address \<Rightarrow>
         if address \<ge> limit then None
         else if map_of taken address = None then Some address
         else find_free taken limit (increment address))"
  by pat_completeness auto
termination
proof (relation "measure (\<lambda>(_, _, candidate). case candidate of None \<Rightarrow> 0 | Some a \<Rightarrow> 2 ^ 32 - unat a)")
  fix taken :: "(ipv4_addr \<times> string) list" and limit candidate and address :: ipv4_addr
  assume "candidate = Some address" "\<not> limit \<le> address"
  then have ne: "address \<noteq> - 1" by auto
  then have "unat (address + 1) = Suc (unat address)" by (rule unat_increment)
  moreover have "unat (address + 1) < 2 ^ LENGTH(32)" by (rule unsigned_less)
  ultimately show "((taken, limit, increment address), taken, limit, candidate)
      \<in> measure (\<lambda>(_, _, candidate). case candidate of None \<Rightarrow> 0 | Some a \<Rightarrow> 2 ^ 32 - unat a)"
    using \<open>candidate = Some address\<close> ne by (simp add: increment_def)
qed simp

declare find_free.simps [simp del]

text \<open>An insertion into the table of clients, persisted: the part that both branches of
  \<open>acquire_inner_with_sync\<close> share. \<open>undo\<close> is what happens when nothing was committed.\<close>

definition commit_lease ::
  "'n net_api \<Rightarrow> json_api \<Rightarrow> 'n pool \<Rightarrow> pool_inner \<Rightarrow> pool_inner \<Rightarrow> string \<Rightarrow> string \<Rightarrow> lease_record
    \<Rightarrow> fs_replies \<Rightarrow> bytes option \<Rightarrow> (pool_error + lease) \<times> 'n pool \<times> bytes option" where
  "commit_lease api json p inner undone client_id group_id record fs disk =
    (case persist_state_locked api json p inner fs disk of
       (Err (Durability e), disk) \<Rightarrow>
         (Err (Durability e), p\<lparr>p_inner := abandon_committed_lease inner client_id\<rparr>, disk)
     | (Err e, disk) \<Rightarrow> (Err e, p\<lparr>p_inner := undone\<rparr>, disk)
     | (Ok _, disk) \<Rightarrow>
         (Ok (make_lease api p client_id record),
          p\<lparr>p_inner := activate_group inner client_id group_id (lr_generation record)\<rparr>, disk))"

definition restore_group :: "pool_inner \<Rightarrow> string \<Rightarrow> active_lease_group option \<Rightarrow> pool_inner" where
  "restore_group inner client_id previous_group =
    inner\<lparr>groups := (case previous_group of Some g \<Rightarrow> AList.update client_id g (groups inner)
       | None \<Rightarrow> AList.delete client_id (groups inner))\<rparr>"

definition shared_lease :: "pool_inner \<Rightarrow> string \<Rightarrow> string \<Rightarrow> (active_lease_group \<times> lease_record) option" where
  "shared_lease inner client_id group_id =
    (if group_id = '''' then None
     else
       (case (map_of (groups inner) client_id, map_of (by_client inner) client_id) of
          (Some g, Some record) \<Rightarrow>
            if ag_id g = group_id \<and> lr_generation record = ag_generation g \<and> lr_active record
            then Some (g, record) else None
        | _ \<Rightarrow> None))"

definition acquire_inner_with_sync ::
  "'n net_api \<Rightarrow> json_api \<Rightarrow> 'n pool \<Rightarrow> string \<Rightarrow> string \<Rightarrow> fs_replies \<Rightarrow> bytes option
    \<Rightarrow> (pool_error + lease) \<times> 'n pool \<times> bytes option" where
  "acquire_inner_with_sync api json p client_id group_id fs disk =
    (if \<not> valid_client_id client_id then (Err (Invalid InvalidClientId), p, disk)
     else
       let inner = p_inner p
       in (case shared_lease inner client_id group_id of
             Some (g, record) \<Rightarrow>
               (Ok (make_lease api p client_id record),
                p\<lparr>p_inner := inner\<lparr>groups := AList.update client_id
                  (g\<lparr>ag_references := ag_references g + 1\<rparr>) (groups inner)\<rparr>\<rparr>, disk)
           | None \<Rightarrow>
               let generation = next_generation inner + 1;
                   inner = inner\<lparr>next_generation := generation\<rparr>
               in (case map_of (by_client inner) client_id of
                     Some previous \<Rightarrow>
                       let replacement = previous\<lparr>lr_generation := generation, lr_active := True\<rparr>
                       in commit_lease api json p
                            (inner\<lparr>by_client := AList.update client_id replacement (by_client inner)\<rparr>)
                            (restore_group (inner\<lparr>by_client := AList.update client_id previous
                                (AList.update client_id replacement (by_client inner))\<rparr>)
                              client_id (map_of (groups inner) client_id))
                            client_id group_id replacement fs disk
                   | None \<Rightarrow>
                       (case find_free (by_address inner) (broadcast api (p_prefix p)) (increment (p_gateway p)) of
                          None \<Rightarrow> (Err Exhausted, p\<lparr>p_inner := inner\<rparr>, disk)
                        | Some address \<Rightarrow>
                            let record = \<lparr>lr_address = address, lr_generation = generation, lr_active = True\<rparr>;
                                added = inner
                                  \<lparr>by_client := AList.update client_id record (by_client inner),
                                   by_address := AList.update address client_id (by_address inner)\<rparr>
                            in commit_lease api json p added
                                 (added\<lparr>by_client := AList.delete client_id (by_client added),
                                        by_address := AList.delete address (by_address added)\<rparr>)
                                 client_id group_id record fs disk))))"

definition acquire ::
  "'n net_api \<Rightarrow> json_api \<Rightarrow> 'n pool \<Rightarrow> string \<Rightarrow> fs_replies \<Rightarrow> bytes option
    \<Rightarrow> (pool_error + lease) \<times> 'n pool \<times> bytes option" where
  "acquire api json p client_id fs disk = acquire_inner_with_sync api json p client_id '''' fs disk"

definition acquire_group ::
  "'n net_api \<Rightarrow> json_api \<Rightarrow> 'n pool \<Rightarrow> string \<Rightarrow> string \<Rightarrow> fs_replies \<Rightarrow> bytes option
    \<Rightarrow> (pool_error + lease) \<times> 'n pool \<times> bytes option" where
  "acquire_group api json p client_id group_id fs disk =
    (if group_id = '''' then (Err (Invalid GroupIdRequired), p, disk)
     else acquire_inner_with_sync api json p client_id group_id fs disk)"

definition release :: "'n pool \<Rightarrow> lease \<Rightarrow> 'n pool" where
  "release p lease =
    (let inner = p_inner p; client_id = l_client_id lease
     in case map_of (by_client inner) client_id of
          None \<Rightarrow> p
        | Some record \<Rightarrow>
            if lr_generation record \<noteq> l_generation lease then p
            else
              let deactivated = AList.update client_id (record\<lparr>lr_active := False\<rparr>) (by_client inner)
              in (case map_of (groups inner) client_id of
                    None \<Rightarrow> p\<lparr>p_inner := inner\<lparr>by_client := deactivated\<rparr>\<rparr>
                  | Some g \<Rightarrow>
                      if ag_generation g = l_generation lease then
                        if ag_references g > 1
                        then p\<lparr>p_inner := inner\<lparr>groups := AList.update client_id
                          (g\<lparr>ag_references := ag_references g - 1\<rparr>) (groups inner)\<rparr>\<rparr>
                        else p\<lparr>p_inner := inner\<lparr>by_client := deactivated,
                          groups := AList.delete client_id (groups inner)\<rparr>\<rparr>
                      else p\<lparr>p_inner := inner\<lparr>by_client := deactivated\<rparr>\<rparr>))"

text \<open>\<open>register_lease\<close> runs its closure, a step on the caller's state, exactly when the lease is current.\<close>

definition register_lease :: "'n pool \<Rightarrow> lease \<Rightarrow> ('s \<Rightarrow> 's) \<Rightarrow> 's \<Rightarrow> bool \<times> 's" where
  "register_lease p lease register_fn s =
    (let valid = (case map_of (by_client (p_inner p)) (l_client_id lease) of
           None \<Rightarrow> False
         | Some record \<Rightarrow> lr_active record \<and> lr_generation record = l_generation lease)
     in (valid, if valid then register_fn s else s))"

end
