(* ===== verification/Lease_Invariant.thy ===== *)
theory Lease_Invariant
  imports Lease_Pool
begin

text \<open>
  What the lease pool guarantees: the search for an address, the invariant that its two tables are
  inverse to each other, kept by every operation whatever the file system replies, the contract of
  an allocator of addresses (\<open>address_allocator\<close>) with its interpretation, and the restoration of the
  state file. The properties at the end follow from these.
\<close>

subsection \<open>The search for an address\<close>

lemma increment_bounds:
  assumes "(s :: ipv4_addr) < limit"
  shows "increment s = Some (s + 1)" "s < s + 1"
proof -
  have ne: "s \<noteq> - 1" using assms by (metis max_word_max not_less)
  then show "increment s = Some (s + 1)" by (simp add: increment_def)
  show "s < s + 1" using unat_increment [OF ne] by (simp add: word_less_nat_alt)
qed

lemma increment_less: "increment (s :: ipv4_addr) = Some t \<Longrightarrow> s < t"
  using unat_increment [of s] by (auto simp: increment_def word_less_nat_alt split: if_splits)

lemma find_free_Some:
  "find_free taken limit candidate = Some a \<Longrightarrow>
    a < limit \<and> map_of taken a = None \<and> (\<exists>s. candidate = Some s \<and> s \<le> a)"
proof (induction taken limit candidate rule: find_free.induct)
  case (1 taken limit candidate)
  from "1.prems" obtain s where s: "candidate = Some s" "s < limit"
    by (subst (asm) find_free.simps) (auto split: option.splits if_splits simp: not_le)
  show ?case
  proof (cases "map_of taken s")
    case None
    then have "a = s" using "1.prems" unfolding find_free.simps [of taken limit candidate]
      by (simp add: s(1) not_le [symmetric] split: if_splits)
    then show ?thesis using s None by simp
  next
    case (Some c)
    then have "find_free taken limit (increment s) = Some a" using "1.prems" unfolding find_free.simps [of taken limit candidate]
      using s by (simp add: not_le [symmetric])
    then have "a < limit \<and> map_of taken a = None \<and> (\<exists>s'. increment s = Some s' \<and> s' \<le> a)"
      using "1.IH" s Some by simp
    then show ?thesis using s increment_bounds [OF s(2)] by auto
  qed
qed

lemma find_free_least:
  "find_free taken limit candidate = Some a \<Longrightarrow> candidate = Some s \<Longrightarrow> s \<le> b \<Longrightarrow> b < a \<Longrightarrow> map_of taken b \<noteq> None"
proof (induction taken limit candidate arbitrary: s rule: find_free.induct)
  case (1 taken limit candidate)
  have lim: "s < limit" using find_free_Some [OF "1.prems"(1)] "1.prems"(2,3,4) by auto
  have "map_of taken s \<noteq> None"
  proof
    assume "map_of taken s = None"
    then have "a = s" using "1.prems"(1) unfolding find_free.simps [of taken limit candidate]
      using lim by (simp add: "1.prems"(2) not_le [symmetric])
    then show False using "1.prems"(3,4) by simp
  qed
  then have taken: "map_of taken s \<noteq> None" and rec: "find_free taken limit (increment s) = Some a"
    using "1.prems"(1) unfolding find_free.simps [of taken limit candidate]
    using lim by (auto simp: "1.prems"(2) not_le [symmetric])
  show ?case
  proof (cases "b = s")
    case False
    then have "s + 1 \<le> b" using "1.prems"(3) by (intro inc_le) simp
    then show ?thesis using "1.IH" [OF "1.prems"(2) _ _ rec increment_bounds(1) [OF lim] _ "1.prems"(4)] lim taken by auto
  qed (use taken in simp)
qed

lemma find_free_None:
  "find_free taken limit candidate = None \<Longrightarrow> candidate = Some s \<Longrightarrow> s \<le> a \<Longrightarrow> a < limit \<Longrightarrow> map_of taken a \<noteq> None"
proof (induction taken limit candidate arbitrary: s rule: find_free.induct)
  case (1 taken limit candidate)
  have lim: "s < limit" using "1.prems" by auto
  then have taken: "map_of taken s \<noteq> None" and rec: "find_free taken limit (increment s) = None"
    using "1.prems"(1) unfolding find_free.simps [of taken limit candidate]
    by (simp_all add: "1.prems"(2) not_le [symmetric] split: if_splits)
  show ?case
  proof (cases "a = s")
    case False
    then have "s + 1 \<le> a" using "1.prems"(3) by (intro inc_le) simp
    then show ?thesis using "1.IH" [OF "1.prems"(2) _ _ rec increment_bounds(1) [OF lim] _ "1.prems"(4)] lim taken by auto
  qed (use taken in simp)
qed

subsection \<open>The invariant\<close>

text \<open>The two tables are inverse to each other, and addresses lie between the gateway and the
  broadcast address.\<close>

definition tables_ok ::
  "ipv4_addr \<Rightarrow> ipv4_addr \<Rightarrow> (string \<rightharpoonup> lease_record) \<Rightarrow> (ipv4_addr \<rightharpoonup> string) \<Rightarrow> bool" where
  "tables_ok lo hi clients addresses \<longleftrightarrow>
     (\<forall>c a. addresses a = Some c \<longleftrightarrow> map_option lr_address (clients c) = Some a)
     \<and> (\<forall>c lr. clients c = Some lr \<longrightarrow>
          valid_client_id c \<and> lo < lr_address lr \<and> lr_address lr < hi)"

definition inner_ok :: "ipv4_addr \<Rightarrow> ipv4_addr \<Rightarrow> pool_inner \<Rightarrow> bool" where
  "inner_ok lo hi inner \<longleftrightarrow> distinct (map fst (by_client inner))
     \<and> tables_ok lo hi (map_of (by_client inner)) (map_of (by_address inner))"

lemma tables_ok_replace:
  assumes "tables_ok lo hi m t" and "m c = Some previous" and "lr_address lr = lr_address previous"
  shows "tables_ok lo hi (m(c \<mapsto> lr)) t"
  using assms by (auto simp: tables_ok_def)

lemma tables_ok_add:
  assumes "tables_ok lo hi m t" and "m c = None" and "t (lr_address lr) = None"
    and "valid_client_id c" and "lo < lr_address lr" and "lr_address lr < hi"
  shows "tables_ok lo hi (m(c \<mapsto> lr)) (t(lr_address lr \<mapsto> c))"
proof -
  have "lr_address z \<noteq> lr_address lr" if "m d = Some z" for d z
    using assms(1,3) that by (force simp: tables_ok_def)
  then show ?thesis using assms by (auto simp: tables_ok_def)
qed

definition pool_inv :: "'n net_api \<Rightarrow> 'n pool \<Rightarrow> bool" where
  "pool_inv api p \<longleftrightarrow> inner_ok (p_gateway p) (broadcast api (p_prefix p)) (p_inner p)"

lemma inner_ok_irrelevant [simp]:
  "inner_ok lo hi (inner\<lparr>groups := g\<rparr>) = inner_ok lo hi inner"
  "inner_ok lo hi (inner\<lparr>next_generation := n\<rparr>) = inner_ok lo hi inner"
  by (simp_all add: inner_ok_def)

lemma inner_ok_replace:
  assumes "inner_ok lo hi inner" and "map_of (by_client inner) c = Some previous" and "lr_address lr = lr_address previous"
  shows "inner_ok lo hi (inner\<lparr>by_client := AList.update c lr (by_client inner)\<rparr>)"
  using assms tables_ok_replace [of lo hi _ _ c previous lr]
  by (simp add: inner_ok_def AList.update_conv' AList.distinct_update)

lemma inner_ok_add:
  assumes "inner_ok lo hi inner" and "map_of (by_client inner) c = None" and "map_of (by_address inner) (lr_address lr) = None"
    and "valid_client_id c" and "lo < lr_address lr" and "lr_address lr < hi"
  shows "inner_ok lo hi (inner\<lparr>by_client := AList.update c lr (by_client inner),
    by_address := AList.update (lr_address lr) c (by_address inner)\<rparr>)"
  using assms tables_ok_add [of lo hi _ _ c lr]
  by (simp add: inner_ok_def AList.update_conv' AList.distinct_update)

lemma inner_ok_same_maps:
  assumes "inner_ok lo hi inner" and "map_of (by_client inner') = map_of (by_client inner)"
    and "map_of (by_address inner') = map_of (by_address inner)" and "distinct (map fst (by_client inner'))"
  shows "inner_ok lo hi inner'"
  using assms by (simp add: inner_ok_def)

lemma map_of_map_entry: "map_of (AList.map_entry k f al) = (\<lambda>x. if x = k then map_option f (map_of al x) else map_of al x)"
  by (induction al) auto

lemma fst_map_entry [simp]: "map fst (AList.map_entry k f al) = map fst al"
  by (induction al) auto

lemma inner_ok_abandon:
  assumes "inner_ok lo hi inner"
  shows "inner_ok lo hi (abandon_committed_lease inner c)"
proof (cases "map_of (by_client inner) c")
  case (Some lr)
  then have "map_of (AList.map_entry c (\<lambda>lr. lr\<lparr>lr_active := False\<rparr>) (by_client inner)) =
      (map_of (by_client inner))(c \<mapsto> lr\<lparr>lr_active := False\<rparr>)"
    by (auto simp: map_of_map_entry)
  then show ?thesis using assms Some tables_ok_replace [of lo hi _ _ c lr "lr\<lparr>lr_active := False\<rparr>"]
    by (simp add: inner_ok_def abandon_committed_lease_def)
next
  case None
  then have "map_of (AList.map_entry c (\<lambda>lr. lr\<lparr>lr_active := False\<rparr>) (by_client inner)) = map_of (by_client inner)"
    by (auto simp: map_of_map_entry)
  then show ?thesis using assms by (simp add: inner_ok_def abandon_committed_lease_def)
qed

lemma inner_ok_activate: "inner_ok lo hi inner \<Longrightarrow> inner_ok lo hi (activate_group inner c gid n)"
  by (simp add: activate_group_def)

lemma inner_ok_restore: "inner_ok lo hi inner \<Longrightarrow> inner_ok lo hi (restore_group inner c g)"
  by (simp add: restore_group_def)

text \<open>What a commit leaves, on each of its three outcomes.\<close>

lemma commit_lease_cases:
  assumes "commit_lease api json p inner undone c gid lr fs disk = (res, p', disk')"
  obtains (committed) "res = Ok (make_lease api p c lr)" "p' = p\<lparr>p_inner := activate_group inner c gid (lr_generation lr)\<rparr>"
      "persist_state_locked api json p inner fs disk = (Ok (), disk')"
    | (not_durable) e where "res = Err (Durability e)" "p' = p\<lparr>p_inner := abandon_committed_lease inner c\<rparr>"
      "persist_state_locked api json p inner fs disk = (Err (Durability e), disk')"
    | (undone) e where "res = Err e" "\<And>d. e \<noteq> Durability d" "p' = p\<lparr>p_inner := undone\<rparr>"
      "persist_state_locked api json p inner fs disk = (Err e, disk')"
proof (cases "persist_state_locked api json p inner fs disk")
  case (Pair res1 disk1)
  show thesis
  proof (cases res1)
    case (Inl e)
    show thesis
    proof (cases "\<exists>d. e = Durability d")
      case True
      then show thesis using assms not_durable Inl Pair by (auto simp: commit_lease_def)
    next
      case False
      then have "res = Err e" "p' = p\<lparr>p_inner := undone\<rparr>" "disk' = disk1"
        using assms Inl Pair by (cases e; simp add: commit_lease_def)+
      then show thesis using undone False Inl Pair by auto
    qed
  next
    case (Inr u)
    then show thesis using assms committed Pair by (simp add: commit_lease_def)
  qed
qed

lemma acquire_inner_cases:
  assumes "acquire_inner_with_sync api json p c gid fs disk = (res, p', disk')"
  obtains (invalid) "\<not> valid_client_id c" "res = Err (Invalid InvalidClientId)" "p' = p" "disk' = disk"
    | (shared) g lr where "valid_client_id c" "shared_lease (p_inner p) c gid = Some (g, lr)"
        "res = Ok (make_lease api p c lr)" "disk' = disk"
        "p' = p\<lparr>p_inner := (p_inner p)\<lparr>groups := AList.update c (g\<lparr>ag_references := ag_references g + 1\<rparr>) (groups (p_inner p))\<rparr>\<rparr>"
    | (renewed) previous where "valid_client_id c" "shared_lease (p_inner p) c gid = None"
        "map_of (by_client (p_inner p)) c = Some previous"
        "commit_lease api json p
          ((p_inner p)\<lparr>next_generation := next_generation (p_inner p) + 1, by_client := AList.update c
            (previous\<lparr>lr_generation := next_generation (p_inner p) + 1, lr_active := True\<rparr>) (by_client (p_inner p))\<rparr>)
          (restore_group ((p_inner p)\<lparr>next_generation := next_generation (p_inner p) + 1, by_client := AList.update c previous
            (AList.update c (previous\<lparr>lr_generation := next_generation (p_inner p) + 1, lr_active := True\<rparr>) (by_client (p_inner p)))\<rparr>)
            c (map_of (groups (p_inner p)) c))
          c gid (previous\<lparr>lr_generation := next_generation (p_inner p) + 1, lr_active := True\<rparr>) fs disk = (res, p', disk')"
    | (exhausted) "valid_client_id c" "map_of (by_client (p_inner p)) c = None"
        "find_free (by_address (p_inner p)) (broadcast api (p_prefix p)) (increment (p_gateway p)) = None"
        "res = Err Exhausted" "p' = p\<lparr>p_inner := (p_inner p)\<lparr>next_generation := next_generation (p_inner p) + 1\<rparr>\<rparr>" "disk' = disk"
    | (added) a lr inner where "valid_client_id c" "map_of (by_client (p_inner p)) c = None"
        "find_free (by_address (p_inner p)) (broadcast api (p_prefix p)) (increment (p_gateway p)) = Some a"
        "lr = \<lparr>lr_address = a, lr_generation = next_generation (p_inner p) + 1, lr_active = True\<rparr>"
        "inner = (p_inner p)\<lparr>next_generation := next_generation (p_inner p) + 1,
          by_client := AList.update c lr (by_client (p_inner p)), by_address := AList.update a c (by_address (p_inner p))\<rparr>"
        "commit_lease api json p inner
          (inner\<lparr>by_client := AList.delete c (by_client inner), by_address := AList.delete a (by_address inner)\<rparr>)
          c gid lr fs disk = (res, p', disk')"
  using assms
  by (auto simp: acquire_inner_with_sync_def Let_def shared_lease_def split: if_splits option.splits prod.splits)

subsection \<open>Every operation keeps the invariant\<close>

lemma commit_lease_inv:
  assumes "commit_lease api json p inner undone c gid lr fs disk = (res, p', disk')"
    and "inner_ok (p_gateway p) (broadcast api (p_prefix p)) inner" and "inner_ok (p_gateway p) (broadcast api (p_prefix p)) undone"
  shows "pool_inv api p'" "p_gateway p' = p_gateway p" "p_prefix p' = p_prefix p" "p_persistent p' = p_persistent p"
  using assms(2,3) by (cases rule: commit_lease_cases [OF assms(1)];
      simp add: pool_inv_def inner_ok_abandon inner_ok_activate)+

text \<open>The address a client has reserved, active or not.\<close>

definition reserved :: "'n pool \<Rightarrow> string \<Rightarrow> ipv4_addr option" where
  "reserved p c = map_option lr_address (map_of (by_client (p_inner p)) c)"

lemma reserved_simps:
  "map_of (AList.delete c (AList.update c lr al)) = (map_of al)(c := None)"
  by (simp add: AList.delete_conv' AList.update_conv')

lemma undone_addition:
  assumes "inner_ok lo hi inner" and "map_of (by_client inner) c = None" and "map_of (by_address inner) a = None"
  shows "inner_ok lo hi (inner\<lparr>by_client := AList.delete c (AList.update c lr (by_client inner)),
    by_address := AList.delete a (AList.update a c (by_address inner))\<rparr>)"
  using assms by (intro inner_ok_same_maps [OF assms(1)])
    (auto simp: reserved_simps inner_ok_def AList.distinct_update AList.distinct_delete fun_upd_idem)

lemma undone_renewal:
  assumes "inner_ok lo hi inner" and "map_of (by_client inner) c = Some previous"
  shows "inner_ok lo hi (inner\<lparr>by_client := AList.update c previous (AList.update c lr (by_client inner))\<rparr>)"
  using assms by (intro inner_ok_same_maps [OF assms(1)])
    (auto simp: inner_ok_def AList.update_conv' AList.distinct_update fun_upd_idem)

lemma acquire_inner_inv:
  assumes "acquire_inner_with_sync api json p c gid fs disk = (res, p', disk')" and inv: "pool_inv api p"
  shows "pool_inv api p'" "p_gateway p' = p_gateway p" "p_prefix p' = p_prefix p" "p_persistent p' = p_persistent p"
    "reserved p d = Some a \<Longrightarrow> reserved p' d = Some a"
proof -
  let ?lo = "p_gateway p" and ?hi = "broadcast api (p_prefix p)" and ?inner = "(p_inner p)\<lparr>next_generation := next_generation (p_inner p) + 1\<rparr>"
  have ok: "inner_ok ?lo ?hi ?inner" using inv by (simp add: pool_inv_def)
  have "pool_inv api p' \<and> p_gateway p' = p_gateway p \<and> p_prefix p' = p_prefix p \<and> p_persistent p' = p_persistent p
    \<and> (reserved p d = Some a \<longrightarrow> reserved p' d = Some a)"
    using assms(1)
  proof (cases rule: acquire_inner_cases)
    case (renewed previous)
    let ?lr = "previous\<lparr>lr_generation := next_generation (p_inner p) + 1, lr_active := True\<rparr>"
    have "inner_ok ?lo ?hi (?inner\<lparr>by_client := AList.update c ?lr (by_client ?inner)\<rparr>)"
      using inner_ok_replace [OF ok] renewed(3) by simp
    moreover have "inner_ok ?lo ?hi (restore_group (?inner\<lparr>by_client := AList.update c previous
        (AList.update c ?lr (by_client ?inner))\<rparr>) c (map_of (groups (p_inner p)) c))"
      using undone_renewal [OF ok] renewed(3) by (intro inner_ok_restore) simp
    moreover have "reserved p d = Some a \<longrightarrow> reserved p' d = Some a"
      using renewed(3)
      by (cases rule: commit_lease_cases [OF renewed(4)])
        (auto simp: reserved_def activate_group_def abandon_committed_lease_def restore_group_def AList.update_conv'
          map_of_map_entry)
    ultimately show ?thesis using commit_lease_inv [OF renewed(4)] by simp
  next
    case (added b lr inner)
    have free: "b < ?hi" "map_of (by_address (p_inner p)) b = None" "?lo < b"
      using find_free_Some [OF added(3)] increment_less [of ?lo] by auto
    have "inner_ok ?lo ?hi inner"
      using inner_ok_add [OF ok, of c lr] added(1,2,4,5) free by simp
    moreover have "inner_ok ?lo ?hi (inner\<lparr>by_client := AList.delete c (by_client inner), by_address := AList.delete b (by_address inner)\<rparr>)"
      using undone_addition [OF ok, of c b lr] added(2,5) free(2) by simp
    moreover have "reserved p d = Some a \<longrightarrow> reserved p' d = Some a"
      using added(2,5)
      by (cases rule: commit_lease_cases [OF added(6)])
        (auto simp: reserved_def activate_group_def abandon_committed_lease_def AList.update_conv' AList.delete_conv'
          map_of_map_entry)
    ultimately show ?thesis using commit_lease_inv [OF added(6)] by simp
  qed (use inv in \<open>simp_all add: pool_inv_def reserved_def\<close>)
  then show "pool_inv api p'" "p_gateway p' = p_gateway p" "p_prefix p' = p_prefix p" "p_persistent p' = p_persistent p"
    "reserved p d = Some a \<Longrightarrow> reserved p' d = Some a" by blast+
qed

lemma release_inv:
  assumes "pool_inv api p"
  shows "pool_inv api (release p lease)" "p_gateway (release p lease) = p_gateway p"
    "p_prefix (release p lease) = p_prefix p" "reserved (release p lease) d = reserved p d"
proof -
  let ?c = "l_client_id lease"
  have "inner_ok (p_gateway p) (broadcast api (p_prefix p))
      ((p_inner p)\<lparr>by_client := AList.update ?c (lr\<lparr>lr_active := False\<rparr>) (by_client (p_inner p))\<rparr>)"
    if "map_of (by_client (p_inner p)) ?c = Some lr" for lr
    using assms that by (intro inner_ok_replace) (auto simp: pool_inv_def)
  then show "pool_inv api (release p lease)" "p_gateway (release p lease) = p_gateway p"
    "p_prefix (release p lease) = p_prefix p" "reserved (release p lease) d = reserved p d"
    using assms by (auto simp: release_def Let_def pool_inv_def reserved_def AList.update_conv' split: option.splits if_splits)
qed

subsection \<open>What a client relies on\<close>

text \<open>The contract of an allocator of addresses: no address has two owners, and an owner keeps its
  address whatever happens.\<close>

locale address_allocator =
  fixes do_op :: "'s \<Rightarrow> 'op \<Rightarrow> 's"
    and owned :: "'s \<Rightarrow> 'c \<Rightarrow> 'a option"
    and invar :: "'s \<Rightarrow> bool"
  assumes step_invar: "invar s \<Longrightarrow> invar (do_op s op)"
    and step_keeps: "invar s \<Longrightarrow> owned s c = Some a \<Longrightarrow> owned (do_op s op) c = Some a"
    and owner_unique: "invar s \<Longrightarrow> owned s c = Some a \<Longrightarrow> owned s d = Some a \<Longrightarrow> c = d"
begin

lemma run_invar: "invar s \<Longrightarrow> invar (run_steps do_op s ops)"
  by (rule run_steps_invariant) (rule step_invar)

lemma run_keeps: "invar s \<Longrightarrow> owned s c = Some a \<Longrightarrow> owned (run_steps do_op s ops) c = Some a"
  by (induction ops arbitrary: s) (auto simp: step_invar step_keeps)

lemma never_reassigned:
  assumes "invar s" and "owned s c = Some a" and "owned (run_steps do_op s ops) d = Some a"
  shows "c = d"
  using owner_unique [OF run_invar [OF assms(1)] run_keeps [OF assms(1,2)] assms(3)] .

end

datatype pool_op = Acquire string fs_replies | AcquireGroup string string fs_replies | Release lease

fun pool_do :: "'n net_api \<Rightarrow> json_api \<Rightarrow> 'n pool \<times> bytes option \<Rightarrow> pool_op \<Rightarrow> 'n pool \<times> bytes option" where
  "pool_do api json (p, disk) (Acquire c fs) = snd (acquire api json p c fs disk)"
| "pool_do api json (p, disk) (AcquireGroup c gid fs) = snd (acquire_group api json p c gid fs disk)"
| "pool_do api json (p, disk) (Release lease) = (release p lease, disk)"

lemma reserved_address: "pool_inv api p \<Longrightarrow> reserved p c = Some a \<longleftrightarrow> map_of (by_address (p_inner p)) a = Some c"
  by (simp only: pool_inv_def inner_ok_def tables_ok_def reserved_def)

lemma reserved_unique: "pool_inv api p \<Longrightarrow> reserved p c = Some a \<Longrightarrow> reserved p d = Some a \<Longrightarrow> c = d"
  using reserved_address [of api p] by (metis option.inject)

lemma acquire_inner_snd:
  assumes "pool_inv api p"
  shows "pool_inv api (fst (snd (acquire_inner_with_sync api json p c gid fs disk)))"
    "reserved p d = Some a \<Longrightarrow> reserved (fst (snd (acquire_inner_with_sync api json p c gid fs disk))) d = Some a"
    "p_gateway (fst (snd (acquire_inner_with_sync api json p c gid fs disk))) = p_gateway p"
    "p_prefix (fst (snd (acquire_inner_with_sync api json p c gid fs disk))) = p_prefix p"
  using acquire_inner_inv [OF _ assms] by (metis prod.collapse)+

lemma pool_do_inv:
  assumes "pool_inv api p"
  shows "pool_inv api (fst (pool_do api json (p, disk) op))"
    "reserved p d = Some a \<Longrightarrow> reserved (fst (pool_do api json (p, disk) op)) d = Some a"
    "p_gateway (fst (pool_do api json (p, disk) op)) = p_gateway p"
    "p_prefix (fst (pool_do api json (p, disk) op)) = p_prefix p"
  using assms acquire_inner_snd [OF assms] release_inv [OF assms]
  by (cases op; simp add: acquire_def acquire_group_def)+

interpretation leases: address_allocator "pool_do api json" "\<lambda>s. reserved (fst s)" "\<lambda>s. pool_inv api (fst s)"
  for api json
proof
  fix s :: "'a pool \<times> bytes option" and op c d a
  assume inv: "pool_inv api (fst s)"
  show "pool_inv api (fst (pool_do api json s op))" using pool_do_inv(1) [OF inv] by (metis prod.collapse)
  show "reserved (fst s) c = Some a \<Longrightarrow> reserved (fst (pool_do api json s op)) c = Some a"
    using pool_do_inv(2) [OF inv] by (metis prod.collapse)
  show "reserved (fst s) c = Some a \<Longrightarrow> reserved (fst s) d = Some a \<Longrightarrow> c = d"
    by (rule reserved_unique [OF inv])
qed

lemma run_pool_bounds:
  "pool_inv api (fst s) \<Longrightarrow> p_gateway (fst (run_steps (pool_do api json) s ops)) = p_gateway (fst s)
    \<and> p_prefix (fst (run_steps (pool_do api json) s ops)) = p_prefix (fst s)"
proof (induction ops arbitrary: s)
  case (Cons op ops)
  obtain p disk where s: "s = (p, disk)" by fastforce
  have "pool_inv api p" using Cons.prems by (simp add: s)
  note P = pool_do_inv(1,3,4) [OF this]
  show ?case using Cons.IH [OF P(1)] P(2,3) by (simp add: s)
qed simp

lemma new_pool_inv:
  assumes "from_prefix_with_path api json net None = Some (Ok p)"
  shows "pool_inv api p" "p_inner p = empty_inner" "\<not> p_persistent p"
  using assms
  by (auto simp: from_prefix_with_path_def Let_def pool_inv_def inner_ok_def tables_ok_def empty_inner_def
      split: option.splits if_splits)

subsection \<open>Restoring the state\<close>

lemma restore_lease_inv:
  assumes "restore_lease api p inner c txt gen = Ok inner'" and "inner_ok (p_gateway p) (broadcast api (p_prefix p)) inner"
    and "map_of (by_client inner) c = None"
  shows "inner_ok (p_gateway p) (broadcast api (p_prefix p)) inner'"
proof -
  from assms(1) obtain a where a: "valid_client_id c" "p_gateway p < a" "a < broadcast api (p_prefix p)"
    "map_of (by_address inner) a = None"
    "inner' = inner\<lparr>by_client := AList.update c \<lparr>lr_address = a, lr_generation = gen, lr_active = False\<rparr> (by_client inner),
      by_address := AList.update a c (by_address inner)\<rparr>"
    by (auto simp: restore_lease_def not_le split: if_splits option.splits)
  then show ?thesis
    using inner_ok_add [OF assms(2,3), of "\<lparr>lr_address = a, lr_generation = gen, lr_active = False\<rparr>"] by simp
qed

text \<open>The records that a list of clients is restored to.\<close>

definition inactive :: "lease_record \<Rightarrow> lease_record" where
  "inactive lr = lr\<lparr>lr_active := False\<rparr>"

definition restorable :: "'n net_api \<Rightarrow> 'n pool \<Rightarrow> string \<times> lease_record \<Rightarrow> bool" where
  "restorable api p = (\<lambda>(c, lr). valid_client_id c \<and> lr_generation lr \<noteq> 0 \<and> net_contains api (p_prefix p) (lr_address lr)
     \<and> p_gateway p < lr_address lr \<and> lr_address lr < broadcast api (p_prefix p))"

lemma restore_lease_Ok:
  assumes "restorable api p (c, lr)" and "map_of (by_address inner) (lr_address lr) = None"
  shows "restore_lease api p inner c (ipv4_to_string (lr_address lr)) (lr_generation lr) =
    Ok (inner\<lparr>by_client := AList.update c (inactive lr) (by_client inner),
      by_address := AList.update (lr_address lr) c (by_address inner)\<rparr>)"
  using assms by (cases lr) (auto simp: restore_lease_def restorable_def ipv4_text_roundtrip inactive_def not_le)

lemma restore_leases_Ok:
  assumes "list_all (restorable api p) xs" and "distinct (map fst xs)" and "distinct (map (lr_address \<circ> snd) xs)"
    and "\<And>a. a \<in> (lr_address \<circ> snd) ` set xs \<Longrightarrow> map_of (by_address inner) a = None"
  shows "\<exists>inner'. restore_leases api p inner (map persist_entry xs) = Ok inner'
    \<and> map_of (by_client inner') = map_of (by_client inner) ++ map_of (map (\<lambda>(c, lr). (c, inactive lr)) xs)
    \<and> groups inner' = groups inner
    \<and> next_generation inner' = foldl max (next_generation inner) (map (lr_generation \<circ> snd) xs)"
  using assms
proof (induction xs arbitrary: inner)
  case (Cons x xs)
  obtain c lr where x: "x = (c, lr)" by fastforce
  let ?inner = "inner\<lparr>by_client := AList.update c (inactive lr) (by_client inner),
      by_address := AList.update (lr_address lr) c (by_address inner),
      next_generation := max (next_generation inner) (lr_generation lr)\<rparr>"
  have "restorable api p (c, lr)" "lr_generation lr \<noteq> 0" using Cons.prems(1) by (auto simp: x restorable_def)
  then have step: "restore_leases api p inner (map persist_entry (x # xs)) = restore_leases api p ?inner (map persist_entry xs)"
    using restore_lease_Ok [of api p c lr inner] Cons.prems(4) by (simp add: x persist_entry_def rbind_def)
  have rest: "list_all (restorable api p) xs" "distinct (map fst xs)" "distinct (map (lr_address \<circ> snd) xs)"
    using Cons.prems by (simp_all add: comp_def)
  have "map_of (by_address ?inner) a = None" if "a \<in> (lr_address \<circ> snd) ` set xs" for a
  proof -
    have "lr_address lr \<notin> set (map (lr_address \<circ> snd) xs)" using Cons.prems(3) by (simp add: x)
    then have "a \<noteq> lr_address lr" using that by (metis list.set_map)
    then show ?thesis using that Cons.prems(4) [of a] by (simp add: AList.update_conv')
  qed
  then obtain inner' where i: "restore_leases api p ?inner (map persist_entry xs) = Ok inner'"
    "map_of (by_client inner') = map_of (by_client ?inner) ++ map_of (map (\<lambda>(c, lr). (c, inactive lr)) xs)"
    "groups inner' = groups ?inner"
    "next_generation inner' = foldl max (next_generation ?inner) (map (lr_generation \<circ> snd) xs)"
    using Cons.IH [OF rest, of ?inner] by blast
  have "c \<notin> fst ` set xs" using Cons.prems(2) by (simp add: x)
  then have "map_of (map (\<lambda>(c, lr). (c, inactive lr)) xs) c = None" by (force simp: map_of_eq_None_iff)
  then have m: "map_of (by_client inner') = map_of (by_client inner) ++ map_of (map (\<lambda>(c, lr). (c, inactive lr)) (x # xs))"
    unfolding i(2) by (auto simp: x AList.update_conv' map_add_def fun_eq_iff split: option.splits)
  show ?case using step i(1,3,4) by (intro exI [of _ inner'] conjI m) (auto simp: x comp_def)
qed simp

lemma insort_persisted: "insort_key fst (persist_entry x) (map persist_entry xs) = map persist_entry (insort_key fst x xs)"
  by (induction xs) (auto simp: persist_entry_def split: prod.splits)

lemma sort_persisted: "sort_key fst (map persist_entry xs) = map persist_entry (sort_key fst xs)"
  by (induction xs) (simp_all add: insort_persisted)

lemma state_of_leases: "st_leases (state_of api p inner) = map persist_entry (sort_key fst (by_client inner))"
  by (simp add: state_of_def sort_persisted del: sort_key_simps)

lemma foldl_max_ge: "foldl max (n :: 'a::linorder) xs \<ge> n \<and> (\<forall>x \<in> set xs. x \<le> foldl max n xs)"
  by (induction xs arbitrary: n) (auto, (meson max.boundedE)+)

subsection \<open>Properties\<close>

definition current :: "'n pool \<Rightarrow> lease \<Rightarrow> bool" where
  "current p lease \<longleftrightarrow> fst (register_lease p lease (\<lambda>s. s) ())"


text \<open>C29: \<open>release\<close> ends exactly the lease it is given, and that only when its last holder releases it. A
  lease of an older generation, of another client, or one that other lanes of the group still hold
  changes nothing about which leases are current.\<close>

definition holders :: "'n pool \<Rightarrow> lease \<Rightarrow> nat" where
  "holders p lease =
    (case map_of (groups (p_inner p)) (l_client_id lease) of
       None \<Rightarrow> 1
     | Some g \<Rightarrow> if ag_generation g = l_generation lease then ag_references g else 1)"


text \<open>C28: after a lease is granted, exactly the leases of the client with the granted generation are
  current, so that every earlier lease of the client is fenced off; leases of other clients and all
  reservations are as before, and the address is the one the client had if it had one.\<close>

theorem acquire_fences_earlier_leases:
  assumes "acquire_inner_with_sync api json p c gid fs disk = (Ok granted, p', disk')"
  shows "l_client_id granted = c \<and> reserved p' c = Some (l_address granted)
    \<and> (current p' lease \<longleftrightarrow> (if l_client_id lease = c then l_generation lease = l_generation granted else current p lease))
    \<and> (d \<noteq> c \<longrightarrow> reserved p' d = reserved p d) \<and> (\<forall>a. reserved p c = Some a \<longrightarrow> l_address granted = a)"
  using assms
proof (cases rule: acquire_inner_cases)
  case (shared g lr)
  then show ?thesis
    by (auto simp: shared_lease_def make_lease_def reserved_def current_def register_lease_def split: if_splits option.splits)
next
  case (renewed previous)
  then show ?thesis
    by (cases rule: commit_lease_cases [OF renewed(4)])
      (auto simp: make_lease_def reserved_def current_def register_lease_def activate_group_def AList.update_conv')
next
  case (added a lr inner)
  then show ?thesis
    by (cases rule: commit_lease_cases [OF added(6)])
      (auto simp: make_lease_def reserved_def current_def register_lease_def activate_group_def AList.update_conv')
qed simp_all


text \<open>What the code relies on of the \<open>ipnet\<close> crate for the network \<open>net\<close>: it is the one that \<open>new\<close> makes of
  its network address and length, it prints as these two with a slash, and it contains the addresses
  up to its broadcast address.\<close>

definition net_documented :: "'n net_api \<Rightarrow> 'n \<Rightarrow> bool" where
  "net_documented api net \<longleftrightarrow> net_new api (net_network api net) (net_prefix_len api net) = Some net
     \<and> net_to_string api net = ipv4_to_string (net_network api net) @ ''/'' @ show_u8 (unat (net_prefix_len api net))
     \<and> (\<forall>a. net_contains api net a \<longleftrightarrow> net_network api net \<le> a \<and> a \<le> broadcast api net)"

definition json_documented :: "json_api \<Rightarrow> bool" where
  "json_documented json \<longleftrightarrow> (\<forall>state data. to_vec json state = Some data \<longrightarrow> from_slice json (data @ [10]) = Some state)"

lemma parse_own_prefix: "net_documented api net \<Longrightarrow> parse_ipv4_prefix api (net_to_string api net) = Ok net"
  using split_once_show [OF slash_not_in_ipv4 [of "net_network api net"], of "show_u8 (unat (net_prefix_len api net))"]
  by (simp add: net_documented_def parse_ipv4_prefix_def ipv4_text_roundtrip u8_text_roundtrip)

lemma persisted_data:
  assumes "persist_state_locked api json p inner fs disk = (Ok (), disk')" and "p_persistent p"
  obtains data where "to_vec json (state_of api p inner) = Some data" "disk' = Some (data @ [10])"
proof -
  have "\<exists>data. to_vec json (state_of api p inner) = Some data \<and> disk' = Some (data @ [10])"
    using assms by (auto simp: persist_state_locked_def write_state_atomically_def map_err_def split: option.splits sum.splits)
  then show thesis using that by blast
qed

lemma distinct_fst_sort: "distinct (map fst l) \<Longrightarrow> distinct (map fst (sort_key fst l))"
  by (simp add: distinct_map)

lemma map_of_sort: "distinct (map fst l) \<Longrightarrow> map_of (sort_key fst l) = map_of l"
proof
  fix x
  assume d: "distinct (map fst l)"
  show "map_of (sort_key fst l) x = map_of l x"
  proof (cases "map_of l x")
    case None
    then have "map_of (sort_key fst l) x = None" by (simp add: map_of_eq_None_iff)
    then show ?thesis using None by simp
  next
    case (Some y)
    then have "(x, y) \<in> set (sort_key fst l)" using map_of_SomeD by simp
    then show ?thesis using Some map_of_eq_Some_iff [OF distinct_fst_sort [OF d]] by simp
  qed
qed

lemma restore_own_leases:
  assumes "inner_ok (p_gateway p) (broadcast api (p_prefix p)) inner" and "net_documented api (p_prefix p)"
    and "net_network api (p_prefix p) \<le> p_gateway p"
    and "\<And>c lr. map_of (by_client inner) c = Some lr \<Longrightarrow> lr_generation lr \<noteq> 0"
  shows "\<exists>inner'. restore_leases api p empty_inner (st_leases (state_of api q inner)) = Ok inner'
    \<and> map_of (by_client inner') = (\<lambda>c. map_option inactive (map_of (by_client inner) c))
    \<and> (\<forall>c lr. map_of (by_client inner) c = Some lr \<longrightarrow> lr_generation lr \<le> next_generation inner')"
proof -
  let ?xs = "sort_key fst (by_client inner)"
  have d: "distinct (map fst (by_client inner))" and t: "tables_ok (p_gateway p) (broadcast api (p_prefix p)) (map_of (by_client inner)) (map_of (by_address inner))"
    using assms(1) by (simp_all add: inner_ok_def)
  have mem: "(c, lr) \<in> set ?xs \<longleftrightarrow> map_of (by_client inner) c = Some lr" for c lr
    using map_of_eq_Some_iff [OF d] by simp
  have "restorable api p (c, lr)" if "(c, lr) \<in> set ?xs" for c lr
  proof -
    have m: "map_of (by_client inner) c = Some lr" using that unfolding mem .
    have b: "valid_client_id c \<and> p_gateway p < lr_address lr \<and> lr_address lr < broadcast api (p_prefix p)"
      using t m unfolding tables_ok_def by blast
    then have "net_network api (p_prefix p) \<le> lr_address lr \<and> lr_address lr \<le> broadcast api (p_prefix p)"
      using assms(3) by (meson order.strict_implies_order order.trans)
    then have "net_contains api (p_prefix p) (lr_address lr)" using assms(2) unfolding net_documented_def by blast
    then show ?thesis using b assms(4) [OF m] by (simp add: restorable_def)
  qed
  then have r: "list_all (restorable api p) ?xs" by (auto simp: list_all_iff)
  have "c = c' \<and> lr = lr'" if "(c, lr) \<in> set ?xs" "(c', lr') \<in> set ?xs" "lr_address lr = lr_address lr'" for c lr c' lr'
  proof -
    have "map_of (by_address inner) (lr_address lr) = Some c" "map_of (by_address inner) (lr_address lr) = Some c'"
      using t that unfolding mem tables_ok_def by auto
    then show ?thesis using that unfolding mem by simp
  qed
  then have "inj_on (lr_address \<circ> snd) (set ?xs)" by (intro inj_onI) (metis comp_apply prod.collapse)
  then have a: "distinct (map (lr_address \<circ> snd) ?xs)" using d by (simp add: distinct_map)
  obtain inner' where i: "restore_leases api p empty_inner (map persist_entry ?xs) = Ok inner'"
    "map_of (by_client inner') = map_of (by_client empty_inner) ++ map_of (map (\<lambda>(c, lr). (c, inactive lr)) ?xs)"
    "next_generation inner' = foldl max (next_generation empty_inner) (map (lr_generation \<circ> snd) ?xs)"
    using restore_leases_Ok [OF r distinct_fst_sort [OF d] a, of empty_inner] by (auto simp: empty_inner_def)
  have "map_of (by_client inner') = (\<lambda>c. map_option inactive (map_of (by_client inner) c))"
    by (simp add: i(2) empty_inner_def map_of_map map_of_sort [OF d] comp_def)
  moreover have "lr_generation lr \<le> next_generation inner'" if "map_of (by_client inner) c = Some lr" for c lr
  proof -
    have "lr_generation lr \<in> set (map (lr_generation \<circ> snd) ?xs)" using that unfolding mem [symmetric] by force
    then show ?thesis using foldl_max_ge by (metis i(3))
  qed
  ultimately show ?thesis using i(1) by (auto simp: state_of_leases)
qed


subsection \<open>An instance\<close>

definition sample_new :: "ipv4_addr \<Rightarrow> u8 \<Rightarrow> (ipv4_addr \<times> u8) option" where
  "sample_new a b = (if unat b \<le> 32 then Some (a, b) else None)"

definition sample_network :: "ipv4_addr \<times> u8 \<Rightarrow> ipv4_addr" where
  "sample_network n = push_bit (32 - unat (snd n)) (drop_bit (32 - unat (snd n)) (fst n))"

definition sample_contains :: "ipv4_addr \<times> u8 \<Rightarrow> ipv4_addr \<Rightarrow> bool" where
  "sample_contains n a \<longleftrightarrow> sample_network n \<le> a \<and> a \<le> sample_network n OR (push_bit (32 - unat (snd n)) 1 - 1)"

definition sample_to_string :: "ipv4_addr \<times> u8 \<Rightarrow> string" where
  "sample_to_string n = ipv4_to_string (sample_network n) @ ''/'' @ show_u8 (unat (snd n))"

definition sample_net :: "(ipv4_addr \<times> u8) net_api" where
  "sample_net = \<lparr>net_new = sample_new, net_network = sample_network, net_prefix_len = snd,
     net_contains = sample_contains, net_to_string = sample_to_string\<rparr>"

definition sample_state :: pool_state where
  "sample_state = \<lparr>st_version = 2, st_leases = [(''alice'', \<lparr>pl_address = ''10.0.0.2'', pl_generation = 1\<rparr>)],
     st_pool = Some ''10.0.0.0/24''\<rparr>"

definition sample_to_vec :: "pool_state \<Rightarrow> bytes option" where
  "sample_to_vec s = (if s = sample_state then Some [1] else None)"

definition sample_from_slice :: "bytes \<Rightarrow> pool_state option" where
  "sample_from_slice d = (if d = [1, 10] then Some sample_state else None)"

definition sample_json :: json_api where
  "sample_json = \<lparr>to_vec = sample_to_vec, from_slice = sample_from_slice\<rparr>"

definition sample_fs :: fs_replies where
  "sample_fs = \<lparr>fs_create_dir = Ok (), fs_open = [OpenExists, Opened], fs_write = Ok (), fs_sync = Ok (),
     fs_rename = Ok (), fs_sync_dir = Ok ()\<rparr>"

definition sample_pool :: "bool \<Rightarrow> (ipv4_addr \<times> u8) pool" where
  "sample_pool persistent =
    \<lparr>p_prefix = (0x0a000000, 24), p_gateway = 0x0a000001, p_persistent = persistent, p_inner = empty_inner\<rparr>"

lemma sample_pool_inv: "pool_inv sample_net (sample_pool b)"
  by (simp add: pool_inv_def inner_ok_def tables_ok_def sample_pool_def empty_inner_def)

lemma sample_documented: "net_documented sample_net (0x0a000000, 24)" "json_documented sample_json"
proof -
  have "net_new sample_net (net_network sample_net (0x0a000000, 24)) (net_prefix_len sample_net (0x0a000000, 24)) = Some (0x0a000000, 24)"
    by code_simp
  then show "net_documented sample_net (0x0a000000, 24)"
    by (simp add: net_documented_def) (simp add: sample_net_def broadcast_def sample_contains_def sample_to_string_def)
  show "json_documented sample_json" by (simp add: json_documented_def sample_json_def sample_to_vec_def sample_from_slice_def)
qed


definition sample_lease :: lease where
  "sample_lease = \<lparr>l_address = 0x0a000002, l_prefix_bits = 24, l_gateway = 0x0a000001, l_generation = 1, l_client_id = ''alice''\<rparr>"

definition sample_inner :: pool_inner where
  "sample_inner = \<lparr>by_client = [(''alice'', \<lparr>lr_address = 0x0a000002, lr_generation = 1, lr_active = True\<rparr>)],
     by_address = [(0x0a000002, ''alice'')], groups = [], next_generation = 1\<rparr>"

lemma sample_acquired:
  "fst (acquire_inner_with_sync sample_net sample_json (sample_pool False) ''alice'' '''' sample_fs None) = Ok sample_lease"
  "acquire sample_net sample_json (sample_pool True) ''alice'' sample_fs None =
    (Ok sample_lease, (sample_pool True)\<lparr>p_inner := sample_inner\<rparr>, Some [1, 10])"
proof -
  show "fst (acquire_inner_with_sync sample_net sample_json (sample_pool False) ''alice'' '''' sample_fs None) = Ok sample_lease"
    by code_simp
  have f: "find_free [] (broadcast sample_net (0x0a000000, 24)) (increment 0x0a000001) = Some 0x0a000002"
    and w: "persist_state_locked sample_net sample_json (sample_pool True) sample_inner sample_fs None = (Ok (), Some [1, 10])"
    and v: "valid_client_id ''alice''" by code_simp+
  show "acquire sample_net sample_json (sample_pool True) ''alice'' sample_fs None =
    (Ok sample_lease, (sample_pool True)\<lparr>p_inner := sample_inner\<rparr>, Some [1, 10])"
    using f w
    by (simp add: acquire_def acquire_inner_with_sync_def v shared_lease_def commit_lease_def Let_def sample_pool_def
        empty_inner_def sample_inner_def make_lease_def sample_lease_def activate_group_def)
      (simp add: sample_net_def)
qed

theorem acquire_fences_earlier_leases_witness:
  "reserved (fst (snd (acquire_inner_with_sync sample_net sample_json (sample_pool False) ''alice'' '''' sample_fs None))) ''alice''
      = Some 0x0a000002
    \<and> current (fst (snd (acquire_inner_with_sync sample_net sample_json (sample_pool False) ''alice'' '''' sample_fs None))) sample_lease"
proof -
  obtain p' disk' where a: "acquire_inner_with_sync sample_net sample_json (sample_pool False) ''alice'' '''' sample_fs None =
    (Ok sample_lease, p', disk')"
    using sample_acquired(1) by (metis prod.collapse)
  show ?thesis unfolding a using acquire_fences_earlier_leases [OF a] by (simp add: sample_lease_def)
qed



end
