(* ===== verification/Device_Auth.thy ===== *)
theory Device_Auth
  imports Ip_Text
begin

text \<open>
  Device proofs (porta-wire/src/device_auth.rs): the headers of a request that carry a proof, the
  canonical payload that is signed, the checks of \<open>verify\<close> in their order, and the reader of DER
  values that tells a key on another curve from garbage.

  The crates are parameters, gathered in the record \<open>crates\<close>: the URL-safe base64 engine, SHA-256,
  the P-256 keys and signatures, \<open>OffsetDateTime::from_unix_timestamp\<close> and, of the standard
  library, the Unicode tables behind \<open>str::to_uppercase\<close>. A header map is its \<open>get\<close> together with
  \<open>to_str\<close>. Strings are lists of their UTF-8 bytes as characters, an \<open>i64\<close> is an integer in its
  range.
\<close>

definition HEADER_CLIENT_ID :: string where "HEADER_CLIENT_ID = ''X-Porta-Client-ID''"
definition HEADER_PUBLIC_KEY :: string where "HEADER_PUBLIC_KEY = ''X-Porta-Device-Key''"
definition HEADER_NAME :: string where "HEADER_NAME = ''X-Porta-Device-Name''"
definition HEADER_TIMESTAMP :: string where "HEADER_TIMESTAMP = ''X-Porta-Device-Time''"
definition HEADER_NONCE :: string where "HEADER_NONCE = ''X-Porta-Device-Nonce''"
definition HEADER_SIGNATURE :: string where "HEADER_SIGNATURE = ''X-Porta-Device-Signature''"
definition MAX_CLOCK_SKEW_SECONDS :: int where "MAX_CLOCK_SKEW_SECONDS = 5 * 60"
definition NONCE_SIZE :: nat where "NONCE_SIZE = 16"
definition DOMAIN :: string where "DOMAIN = ''porta/device-auth/v1''"
definition MAX_PUBLIC_KEY_SIZE :: nat where "MAX_PUBLIC_KEY_SIZE = 512"
definition MAX_SIGNATURE_SIZE :: nat where "MAX_SIGNATURE_SIZE = 128"

record device_proof =
  device_id_of :: string
  name_of :: string
  public_key_of :: string
  timestamp_of :: string
  nonce_of :: string
  signature_of :: string

record 'tm verified_proof =
  encoded_public_key :: bytes
  signed_at :: 'tm
  verified_nonce :: bytes

datatype device_auth_error =
    InvalidHeader | InvalidDeviceId | InvalidDeviceName | InvalidPublicKey | PublicKeyNotP256
  | DeviceIdMismatch | InvalidTimestamp | TimestampOutsideWindow | InvalidNonce | InvalidSignature
  | InvalidSystemTime

record ('pk, 'sg, 'tm) crates =
  b64_decode :: "string \<Rightarrow> bytes option"
  b64_encode :: "bytes \<Rightarrow> string"
  sha256 :: "bytes \<Rightarrow> bytes"
  public_key_from_der :: "bytes \<Rightarrow> 'pk option"
  public_key_to_der :: "'pk \<Rightarrow> bytes option"
  signature_from_der :: "bytes \<Rightarrow> 'sg option"
  verify_prehash :: "'pk \<Rightarrow> bytes \<Rightarrow> 'sg \<Rightarrow> bool"
  from_unix_timestamp :: "int \<Rightarrow> 'tm option"
  to_uppercase :: "string \<Rightarrow> string"

subsection \<open>What the code uses of the standard library\<close>

definition as_bytes :: "string \<Rightarrow> bytes" where
  "as_bytes s = map (\<lambda>c. byte_of (of_char c)) s"

abbreviation i64_MIN :: int where "i64_MIN \<equiv> - (2 ^ 63)"
abbreviation i64_MAX :: int where "i64_MAX \<equiv> 2 ^ 63 - 1"

definition i64_saturate :: "int \<Rightarrow> int" where
  "i64_saturate x = max i64_MIN (min i64_MAX x)"

text \<open>\<open>i64::from_str\<close>: one optional sign, then at least one digit, within the range.\<close>

definition i64_of_digits :: "bool \<Rightarrow> string \<Rightarrow> int option" where
  "i64_of_digits negative ds =
    (let v = (if negative then - int (decimal ds) else int (decimal ds))
     in if ds = [] \<or> \<not> list_all is_ascii_digit ds \<or> v < i64_MIN \<or> v > i64_MAX then None else Some v)"

definition i64_from_str :: "string \<Rightarrow> int option" where
  "i64_from_str s =
    (case s of [] \<Rightarrow> None
     | c # rest \<Rightarrow> if c = CHR ''-'' then i64_of_digits True rest
                    else if c = CHR ''+'' then i64_of_digits False rest
                    else i64_of_digits False s)"

definition ok_or :: "'e \<Rightarrow> 'a option \<Rightarrow> 'e + 'a" where
  "ok_or e x = (case x of None \<Rightarrow> Err e | Some v \<Rightarrow> Ok v)"

lemma ok_or_simps [simp]: "ok_or e None = Err e" "ok_or e (Some v) = Ok v"
  by (simp_all add: ok_or_def)

lemma ok_or_Ok [simp]: "ok_or e x = Ok v \<longleftrightarrow> x = Some v"
  by (cases x) auto

subsection \<open>Names and encodings\<close>

definition is_valid_device_id :: "string \<Rightarrow> bool" where
  "is_valid_device_id s \<longleftrightarrow> length s = 24 \<and> take 2 s = ''d-''
    \<and> list_all (\<lambda>c. is_ascii_alphanumeric c \<or> c = CHR ''_'' \<or> c = CHR ''-'') (drop 2 s)"

definition is_valid_device_name :: "string \<Rightarrow> bool" where
  "is_valid_device_name s \<longleftrightarrow> 1 \<le> length s \<and> length s \<le> 64 \<and> is_ascii_alphanumeric (s ! 0)
    \<and> list_all (\<lambda>c. is_ascii_alphanumeric c \<or> c = CHR ''.'' \<or> c = CHR ''_'' \<or> c = CHR ''-'') (drop 1 s)"

definition decode_bounded_base64 ::
  "('pk, 'sg, 'tm) crates \<Rightarrow> string \<Rightarrow> nat \<Rightarrow> device_auth_error \<Rightarrow> device_auth_error + bytes" where
  "decode_bounded_base64 c encoded maximum_decoded_size error =
    (let maximum_encoded_size = ((maximum_decoded_size + 2) div 3) * 4 in
     if encoded = [] \<or> length encoded > maximum_encoded_size then Err error
     else rbind (ok_or error (b64_decode c encoded)) (\<lambda>decoded.
       if decoded = [] \<or> length decoded > maximum_decoded_size then Err error else Ok decoded))"

definition parse_nonce :: "('pk, 'sg, 'tm) crates \<Rightarrow> string \<Rightarrow> device_auth_error + bytes" where
  "parse_nonce c encoded =
    (if length encoded \<noteq> 22 then Err InvalidNonce
     else rbind (ok_or InvalidNonce (b64_decode c encoded)) (\<lambda>decoded.
       if length decoded = NONCE_SIZE then Ok decoded else Err InvalidNonce))"

definition token_binding :: "('pk, 'sg, 'tm) crates \<Rightarrow> string \<Rightarrow> string" where
  "token_binding c token = b64_encode c (sha256 c (as_bytes token))"

text \<open>The newline between the fields of the payload.\<close>

abbreviation newline :: char where "newline \<equiv> CHR 0x0A"

definition signature_payload :: "('pk, 'sg, 'tm) crates \<Rightarrow> device_proof \<Rightarrow> string \<Rightarrow> string \<Rightarrow> string \<Rightarrow> bytes" where
  "signature_payload c p token method path =
    as_bytes (DOMAIN @ [newline] @ to_uppercase c method @ [newline] @ path @ [newline] @ device_id_of p @ [newline]
      @ name_of p @ [newline] @ timestamp_of p @ [newline] @ nonce_of p @ [newline] @ token_binding c token)"

definition header_value ::
  "(string \<Rightarrow> 'v option) \<Rightarrow> ('v \<Rightarrow> string option) \<Rightarrow> string \<Rightarrow> device_auth_error + string" where
  "header_value headers to_str name =
    (case headers name of None \<Rightarrow> Ok [] | Some v \<Rightarrow> ok_or InvalidHeader (to_str v))"

definition from_headers ::
  "(string \<Rightarrow> 'v option) \<Rightarrow> ('v \<Rightarrow> string option) \<Rightarrow> device_auth_error + device_proof" where
  "from_headers headers to_str =
    rbind (header_value headers to_str HEADER_CLIENT_ID) (\<lambda>i.
    rbind (header_value headers to_str HEADER_NAME) (\<lambda>n.
    rbind (header_value headers to_str HEADER_PUBLIC_KEY) (\<lambda>k.
    rbind (header_value headers to_str HEADER_TIMESTAMP) (\<lambda>t.
    rbind (header_value headers to_str HEADER_NONCE) (\<lambda>x.
    rbind (header_value headers to_str HEADER_SIGNATURE) (\<lambda>s.
      Ok \<lparr>device_id_of = i, name_of = n, public_key_of = k, timestamp_of = t, nonce_of = x, signature_of = s\<rparr>))))))"

subsection \<open>Keys\<close>

text \<open>\<open>read_der_value\<close>: a tag, a definite length in its shortest form, the value and what follows it.
  The length is a \<open>usize\<close> of 64 bits: \<open>checked_mul\<close> and \<open>checked_add\<close> give up beyond it.\<close>

definition usize_MAX :: nat where "usize_MAX = 2 ^ 64 - 1"

definition checked_digit :: "nat option \<Rightarrow> u8 \<Rightarrow> nat option" where
  "checked_digit v b = Option.bind v (\<lambda>v. if v * 256 > usize_MAX \<or> v * 256 + unat b > usize_MAX then None
     else Some (v * 256 + unat b))"

definition der_length :: "bytes \<Rightarrow> (nat \<times> nat) option" where
  "der_length input =
    (if length input < 2 then None
     else let first_length = input ! 1 in
       if first_length AND 0x80 = 0 then Some (unat first_length, 2)
       else let length_bytes = unat (first_length AND 0x7f) in
         if length_bytes = 0 \<or> length_bytes > 8 then None
         else if length input < 2 + length_bytes then None
         else let bytes = range_of 2 (2 + length_bytes) input in
           if bytes ! 0 = 0 then None
           else Option.bind (foldl checked_digit (Some 0) bytes) (\<lambda>n.
             if n < 128 then None else Some (n, 2 + length_bytes)))"

definition read_der_value :: "bytes \<Rightarrow> u8 \<Rightarrow> (bytes \<times> bytes) option" where
  "read_der_value input expected_tag =
    (if input = [] \<or> input ! 0 \<noteq> expected_tag then None
     else Option.bind (der_length input) (\<lambda>(len, header_length).
       if header_length + len > usize_MAX then None
       else if header_length + len > length input then None
       else Some (range_of header_length (header_length + len) input, drop (header_length + len) input)))"

definition EC_PUBLIC_KEY_OID :: bytes where
  "EC_PUBLIC_KEY_OID = [0x2a, 0x86, 0x48, 0xce, 0x3d, 0x02, 0x01]"

definition P256_OID :: bytes where
  "P256_OID = [0x2a, 0x86, 0x48, 0xce, 0x3d, 0x03, 0x01, 0x07]"

definition spki_declares_non_p256 :: "bytes \<Rightarrow> bool" where
  "spki_declares_non_p256 encoded =
    (case read_der_value encoded 0x30 of None \<Rightarrow> False
     | Some (outer, remainder) \<Rightarrow>
       if remainder \<noteq> [] then False
       else case read_der_value outer 0x30 of None \<Rightarrow> False
       | Some (algorithm, _) \<Rightarrow>
         (case read_der_value algorithm 0x06 of None \<Rightarrow> False
          | Some (algorithm_oid, parameters) \<Rightarrow>
            if algorithm_oid \<noteq> EC_PUBLIC_KEY_OID then True
            else case read_der_value parameters 0x06 of None \<Rightarrow> False
            | Some (curve_oid, remainder) \<Rightarrow> remainder = [] \<and> curve_oid \<noteq> P256_OID))"

definition parse_p256_public_key :: "('pk, 'sg, 'tm) crates \<Rightarrow> bytes \<Rightarrow> device_auth_error + 'pk" where
  "parse_p256_public_key c encoded =
    (case public_key_from_der c encoded of
       Some key \<Rightarrow> Ok key
     | None \<Rightarrow> if spki_declares_non_p256 encoded then Err PublicKeyNotP256 else Err InvalidPublicKey)"

text \<open>A \<open>VerifyingKey\<close> is the public key it is made from.\<close>

definition parse_public_key_spki :: "('pk, 'sg, 'tm) crates \<Rightarrow> bytes \<Rightarrow> device_auth_error + 'pk" where
  "parse_public_key_spki c encoded =
    (if encoded = [] \<or> length encoded > MAX_PUBLIC_KEY_SIZE then Err InvalidPublicKey
     else parse_p256_public_key c encoded)"

definition device_id :: "('pk, 'sg, 'tm) crates \<Rightarrow> 'pk \<Rightarrow> device_auth_error + string" where
  "device_id c public_key =
    rbind (ok_or InvalidPublicKey (public_key_to_der c public_key)) (\<lambda>encoded.
      Ok (''d-'' @ b64_encode c (take 16 (sha256 c encoded))))"

definition device_id_from_encoded :: "('pk, 'sg, 'tm) crates \<Rightarrow> bytes \<Rightarrow> device_auth_error + string" where
  "device_id_from_encoded c encoded = rbind (parse_p256_public_key c encoded) (device_id c)"

subsection \<open>Verification\<close>

definition outside_window :: "int \<Rightarrow> int \<Rightarrow> bool" where
  "outside_window at now \<longleftrightarrow> at < i64_saturate (now - MAX_CLOCK_SKEW_SECONDS) \<or> at > i64_saturate (now + MAX_CLOCK_SKEW_SECONDS)"

definition verify ::
  "('pk, 'sg, 'tm) crates \<Rightarrow> device_proof \<Rightarrow> string \<Rightarrow> string \<Rightarrow> string \<Rightarrow> int \<Rightarrow> device_auth_error + 'tm verified_proof" where
  "verify c p token method path now =
    (if \<not> is_valid_device_id (device_id_of p) then Err InvalidDeviceId
     else if \<not> is_valid_device_name (name_of p) then Err InvalidDeviceName
     else
       rbind (decode_bounded_base64 c (public_key_of p) MAX_PUBLIC_KEY_SIZE InvalidPublicKey) (\<lambda>key_bytes.
       rbind (parse_p256_public_key c key_bytes) (\<lambda>key.
       rbind (map_err (\<lambda>_. InvalidPublicKey) (device_id c key)) (\<lambda>derived_id.
       if derived_id \<noteq> device_id_of p then Err DeviceIdMismatch
       else rbind (ok_or InvalidTimestamp (i64_from_str (timestamp_of p))) (\<lambda>at.
       if outside_window at now then Err TimestampOutsideWindow
       else rbind (ok_or InvalidTimestamp (from_unix_timestamp c at)) (\<lambda>time.
       rbind (parse_nonce c (nonce_of p)) (\<lambda>nonce.
       rbind (decode_bounded_base64 c (signature_of p) MAX_SIGNATURE_SIZE InvalidSignature) (\<lambda>signature_bytes.
       rbind (ok_or InvalidSignature (signature_from_der c signature_bytes)) (\<lambda>signature.
       if \<not> verify_prehash c key (sha256 c (signature_payload c p token method path)) signature
       then Err InvalidSignature
       else Ok \<lparr>encoded_public_key = key_bytes, signed_at = time, verified_nonce = nonce\<rparr>)))))))))"

text \<open>A \<open>SystemTime\<close> is its distance from the Unix epoch in nanoseconds.\<close>

definition verify_at_system_time ::
  "('pk, 'sg, 'tm) crates \<Rightarrow> device_proof \<Rightarrow> string \<Rightarrow> string \<Rightarrow> string \<Rightarrow> int \<Rightarrow> device_auth_error + 'tm verified_proof" where
  "verify_at_system_time c p token method path now =
    (if now < 0 then Err InvalidSystemTime
     else let seconds = now div 1000000000 in
       if seconds > i64_MAX then Err InvalidSystemTime else verify c p token method path seconds)"

subsection \<open>DER values\<close>

text \<open>The shortest definite-length encoding of a value.\<close>

fun byte_count :: "nat \<Rightarrow> nat" where
  "byte_count n = (if n = 0 then 0 else Suc (byte_count (n div 256)))"

declare byte_count.simps [simp del]

definition der_encode :: "u8 \<Rightarrow> bytes \<Rightarrow> bytes" where
  "der_encode tag v =
    tag # (if length v < 128 then [byte_of (length v)]
           else byte_of (128 + byte_count (length v)) # to_be (byte_count (length v)) (length v)) @ v"

lemma byte_halves:
  assumes "x < (256 :: nat)"
  shows "x div 128 = of_bool (128 \<le> x)" and "128 \<le> x \<Longrightarrow> 128 + x mod 128 = x"
proof -
  have "(128 + y) div 128 = (1 :: nat) \<and> (128 + y) mod 128 = y" if "y < 128" for y :: nat
    using that by simp
  from this [of "x - 128"] have "128 \<le> x \<Longrightarrow> x div 128 = 1 \<and> x mod 128 = x - 128" using assms by simp
  then show "x div 128 = of_bool (128 \<le> x)" "128 \<le> x \<Longrightarrow> 128 + x mod 128 = x" by auto
qed

lemma high_bit_clear: "(b :: u8) AND 0x80 = 0 \<longleftrightarrow> unat b < 128"
proof -
  have "(b AND 0x80 = 0) \<longleftrightarrow> \<not> bit b 7" using and_exp_eq_0_iff_not_bit [of b 7] by simp
  also have "\<dots> \<longleftrightarrow> \<not> bit (unat b) 7" by (simp add: bit_unsigned_iff)
  also have "\<dots> \<longleftrightarrow> even (unat b div 128)" by (simp add: bit_iff_odd)
  also have "\<dots> \<longleftrightarrow> unat b < 128"
    using byte_halves [OF unat_u8_less [of b]] by simp
  finally show ?thesis .
qed

lemma low_bits: "unat ((b :: u8) AND 0x7f) = unat b mod 128"
  by (simp only: mask_numerals(4) unat_and_mask) simp

lemma usize_power: "usize_MAX + 1 = 256 ^ 8"
  by (simp add: usize_MAX_def)

lemma foldl_checked: "length bs \<le> 8 \<Longrightarrow> foldl checked_digit (Some 0) bs = Some (from_be bs)"
proof (induction bs rule: rev_induct)
  case (snoc b bs)
  have "from_be (bs @ [b]) < 256 ^ length (bs @ [b])" by (rule from_be_less)
  also have "\<dots> \<le> 256 ^ 8" by (rule power_increasing) (use snoc.prems in simp_all)
  finally have "from_be bs * 256 + unat b \<le> usize_MAX"
    by (simp add: usize_MAX_def mult.commute)
  then show ?case using snoc by (simp add: checked_digit_def mult.commute)
qed simp

lemma byte_count_from_be: "bs \<noteq> [] \<Longrightarrow> bs ! 0 \<noteq> 0 \<Longrightarrow> byte_count (from_be bs) = length bs"
proof (induction bs rule: rev_induct)
  case (snoc b bs)
  show ?case
  proof (cases "bs = []")
    case True
    have "from_be [b] = unat b" by (simp add: from_be_Cons)
    moreover have "unat b \<noteq> 0" using True snoc.prems by (simp add: unat_eq_0)
    ultimately show ?thesis
      using True unat_u8_less [of b] by (simp add: byte_count.simps [of "unat b"] byte_count.simps [of 0])
  next
    case False
    then have "byte_count (from_be bs) = length bs" using snoc by (simp add: nth_append)
    moreover have "from_be (bs @ [b]) div 256 = from_be bs" by simp
    moreover have "from_be bs \<noteq> 0" using calculation(1) False by (metis byte_count.simps length_0_conv)
    ultimately show ?thesis
      using byte_count.simps [of "from_be (bs @ [b])"] by (simp del: mult_eq_0_iff)
  qed
qed simp

lemma byte_count_bounds:
  "n < 256 ^ byte_count n" "n > 0 \<Longrightarrow> 256 ^ (byte_count n - 1) \<le> n"
proof (induction n rule: byte_count.induct)
  case (1 n)
  {
    case 1
    show ?case
    proof (cases "n = 0")
      case False
      then have "n div 256 < 256 ^ byte_count (n div 256)" using "1.IH"(1) by blast
      then show ?thesis using False by (simp add: byte_count.simps [of n] div_less_iff_less_mult mult.commute)
    qed (simp add: byte_count.simps)
  next
    case 2
    show ?case
    proof (cases "n div 256 = 0")
      case True
      then show ?thesis using 2 by (simp add: byte_count.simps [of n] byte_count.simps [of 0])
    next
      case False
      then have "256 ^ (byte_count (n div 256) - 1) \<le> n div 256" using "1.IH"(2) 2 by simp
      moreover have "byte_count (n div 256) > 0" using False by (simp add: byte_count.simps [of "n div 256"])
      ultimately have "256 * 256 ^ (byte_count (n div 256) - 1) \<le> n"
        by (metis less_eq_div_iff_mult_less_eq mult.commute zero_less_numeral)
      then show ?thesis
        using 2 \<open>byte_count (n div 256) > 0\<close> by (simp add: byte_count.simps [of n] flip: power_Suc)
    qed
  }
qed

lemma to_be_nonzero:
  assumes "n > 0" and "k = byte_count n"
  shows "to_be k n \<noteq> []" and "to_be k n ! 0 \<noteq> 0"
proof -
  have k: "k > 0" using assms by (simp add: byte_count.simps [of n])
  then show ne: "to_be k n \<noteq> []" by (metis length_to_be less_numeral_extra(3) list.size(3))
  show "to_be k n ! 0 \<noteq> 0"
  proof
    assume "to_be k n ! 0 = 0"
    then obtain bs where bs: "to_be k n = 0 # bs" using ne by (cases "to_be k n") auto
    then have "from_be (to_be k n) = from_be bs" by (simp add: from_be_Cons)
    moreover have "from_be bs < 256 ^ length bs" by (rule from_be_less)
    moreover have "length bs = k - 1" using bs length_to_be [of k n] by simp
    moreover have "from_be (to_be k n) = n" using byte_count_bounds(1) [of n] assms(2) by simp
    ultimately show False using byte_count_bounds(2) [OF assms(1)] assms(2) by simp
  qed
qed

definition length_header :: "nat \<Rightarrow> bytes" where
  "length_header n = (if n < 128 then [byte_of n] else byte_of (128 + byte_count n) # to_be (byte_count n) n)"

lemma der_encode_header: "der_encode tag v = tag # length_header (length v) @ v"
  by (simp add: der_encode_def length_header_def)

lemma byte_count_le: "n \<le> usize_MAX \<Longrightarrow> byte_count n \<le> 8"
proof (rule ccontr)
  assume n: "n \<le> usize_MAX" "\<not> byte_count n \<le> 8"
  then have "n > 0" by (cases "n = 0") (simp_all add: byte_count.simps [of 0])
  then have "256 ^ (byte_count n - 1) \<le> n" by (rule byte_count_bounds(2))
  moreover have "(256 :: nat) ^ 8 \<le> 256 ^ (byte_count n - 1)"
    by (rule power_increasing) (use n(2) in simp_all)
  ultimately show False using n(1) usize_power by simp
qed

text \<open>The length of the code is the one the shortest header announces, and no other header is read.\<close>

lemma der_length_reads:
  assumes "der_length (tag # input) = Some (n, h)"
  shows "h = Suc (length (length_header n))" and "take (h - 1) input = length_header n" and "h - 1 \<le> length input"
proof -
  obtain b rest where input: "input = b # rest" using assms by (cases input) (auto simp: der_length_def)
  have "h = Suc (length (length_header n)) \<and> take (h - 1) input = length_header n \<and> h - 1 \<le> length input"
  proof (cases "b AND 0x80 = 0")
    case True
    then have "n = unat b" "h = 2" using assms input by (simp_all add: der_length_def)
    then show ?thesis using True input by (simp add: length_header_def high_bit_clear)
  next
    case False
    let ?k = "unat (b AND 0x7f)" and ?bs = "take (unat (b AND 0x7f)) rest"
    have k: "0 < ?k" "?k \<le> 8" "?k \<le> length rest" and bs: "?bs ! 0 \<noteq> 0" and h: "h = 2 + ?k"
      and fold: "foldl checked_digit (Some 0) ?bs = Some n" and n: "\<not> n < 128"
      using assms input False
      by (auto simp: der_length_def Let_def range_of_def bind_eq_Some_conv split: if_splits)
    have len: "length ?bs = ?k" using k by simp
    have n_be: "n = from_be ?bs" using fold foldl_checked [of ?bs] k(2) len by simp
    then have count: "byte_count n = ?k" using byte_count_from_be [OF _ bs] k(1) len by fastforce
    have "to_be ?k n = ?bs" using to_be_from_be [of ?bs] len n_be by simp
    moreover have "byte_of (128 + ?k) = b"
      using False unat_u8_less [of b] by (intro word_eqI_unat) (simp add: high_bit_clear low_bits byte_halves)
    ultimately show ?thesis using input h n count k(3) by (simp add: length_header_def)
  qed
  then show "h = Suc (length (length_header n))" "take (h - 1) input = length_header n" "h - 1 \<le> length input"
    by blast+
qed

lemma der_length_of_header:
  assumes "n \<le> usize_MAX"
  shows "der_length (tag # length_header n @ rest) = Some (n, Suc (length (length_header n)))"
proof (cases "n < 128")
  case True
  then have "byte_of n AND 0x80 = 0" by (simp add: high_bit_clear)
  then show ?thesis using True by (simp add: der_length_def length_header_def)
next
  case False
  let ?k = "byte_count n"
  have k: "0 < ?k" "?k \<le> 8" using False byte_count_le [OF assms] by (auto simp: byte_count.simps [of n])
  let ?b = "byte_of (128 + ?k)"
  have b: "?b AND 0x80 \<noteq> 0" "unat (?b AND 0x7f) = ?k" using k by (simp_all add: high_bit_clear low_bits)
  have bs: "to_be ?k n ! 0 \<noteq> 0" using to_be_nonzero(2) [of n] False by simp
  have "foldl checked_digit (Some 0) (to_be ?k n) = Some (from_be (to_be ?k n))" using k by (intro foldl_checked) simp
  then have fold: "foldl checked_digit (Some 0) (to_be ?k n) = Some n" using byte_count_bounds(1) [of n] by simp
  show ?thesis
    using False k b bs fold by (simp add: der_length_def length_header_def range_of_def Let_def)
qed

text \<open>\<open>read_der_value\<close> accepts exactly the canonical encodings: it returns a value and the rest
  when, and only when, the input is the shortest definite-length encoding of that value under the
  expected tag, followed by the rest. (A slice is never longer than \<open>usize::MAX\<close>.)\<close>

lemma read_der_value_exact:
  assumes "length input \<le> usize_MAX"
  shows "read_der_value input tag = Some (v, rest) \<longleftrightarrow> input = der_encode tag v @ rest"
proof
  assume read: "read_der_value input tag = Some (v, rest)"
  then obtain body where input: "input = tag # body" by (cases input) (auto simp: read_der_value_def split: if_splits)
  obtain n h where len: "der_length input = Some (n, h)" and fits: "h + n \<le> length input"
    and v: "v = range_of h (h + n) input" and rest: "rest = drop (h + n) input"
    using read by (auto simp: read_der_value_def bind_eq_Some_conv split: if_splits)
  note hdr = der_length_reads [OF len [unfolded input]]
  have "length v = n" using v fits by simp
  moreover have "drop (h - 1) body = v @ rest"
    using v rest input hdr(1) range_of_split [of h "h + n" input] by (cases h) auto
  then have "body = length_header n @ v @ rest" using hdr(2) append_take_drop_id [of "h - 1" body] by simp
  ultimately show "input = der_encode tag v @ rest"
    using input by (simp add: der_encode_header)
next
  assume input: "input = der_encode tag v @ rest"
  let ?h = "Suc (length (length_header (length v)))"
  have "length v \<le> usize_MAX" using assms input by (simp add: der_encode_header)
  from der_length_of_header [OF this, of tag "v @ rest"]
  have "der_length input = Some (length v, ?h)" using input by (simp add: der_encode_header)
  moreover have "?h + length v \<le> length input" using input by (simp add: der_encode_header)
  ultimately show "read_der_value input tag = Some (v, rest)"
    using assms input by (simp add: read_der_value_def der_encode_header range_of_def)
qed

text \<open>Crates for the examples: base64 and SHA-256 with the right lengths, one key, every signature good.\<close>

definition example_crates :: "(unit, unit, int) crates" where
  "example_crates = \<lparr>b64_decode = (\<lambda>s. if list_all (\<lambda>c. is_ascii_alphanumeric c \<or> c = CHR ''-'') s
       then Some (take (length s * 3 div 4) (as_bytes s)) else None),
     b64_encode = (\<lambda>bs. replicate ((length bs * 4 + 2) div 3) CHR ''A''),
     sha256 = (\<lambda>_. replicate 32 0), public_key_from_der = (\<lambda>bs. if bs = [0x41] then Some () else None),
     public_key_to_der = (\<lambda>_. Some [0x41]), signature_from_der = (\<lambda>_. Some ()), verify_prehash = (\<lambda>_ _ _. True),
     from_unix_timestamp = Some, to_uppercase = (\<lambda>s. s)\<rparr>"

definition example_proof :: device_proof where
  "example_proof = \<lparr>device_id_of = ''d-AAAAAAAAAAAAAAAAAAAAAA'', name_of = ''laptop'', public_key_of = [CHR 0x41, CHR 0x41],
     timestamp_of = ''1000'', nonce_of = ''AAAAAAAAAAAAAAAAAAAAAA'', signature_of = ''AAAA''\<rparr>"

definition example_verified :: "int verified_proof" where
  "example_verified = \<lparr>encoded_public_key = [0x41], signed_at = 1000, verified_nonce = replicate 16 0x41\<rparr>"

lemma example_verify: "verify example_crates example_proof ''token'' ''GET'' ''/'' 900 = Ok example_verified"
  by code_simp

lemma der_encode_length: "length v < length (der_encode tag v)"
  by (simp add: der_encode_header)

lemma inner_fits: "length (der_encode t v @ r) \<le> usize_MAX \<Longrightarrow> length v \<le> usize_MAX"
  using der_encode_length [of v t] by simp

text \<open>An SPKI structure whose algorithm is not EC, or whose named curve is not P-256.\<close>

definition non_p256_spki :: "bytes \<Rightarrow> bytes \<Rightarrow> bytes \<Rightarrow> bytes \<Rightarrow> bool" where
  "non_p256_spki encoded oid params key \<longleftrightarrow>
    encoded = der_encode 0x30 (der_encode 0x30 (der_encode 0x06 oid @ params) @ key)
    \<and> (oid \<noteq> EC_PUBLIC_KEY_OID \<or> (\<exists>curve. params = der_encode 0x06 curve \<and> curve \<noteq> P256_OID))"

lemma spki_declares_sound:
  assumes "length encoded \<le> usize_MAX" and "spki_declares_non_p256 encoded"
  shows "\<exists>oid params key. non_p256_spki encoded oid params key"
proof -
  obtain outer alg key oid params where reads: "read_der_value encoded 0x30 = Some (outer, [])"
      "read_der_value outer 0x30 = Some (alg, key)" "read_der_value alg 0x06 = Some (oid, params)"
      "oid \<noteq> EC_PUBLIC_KEY_OID \<or> (\<exists>curve. read_der_value params 0x06 = Some (curve, []) \<and> curve \<noteq> P256_OID)"
    using assms(2) by (auto simp: spki_declares_non_p256_def split: option.splits prod.splits if_splits)
  have 1: "encoded = der_encode 0x30 outer @ []" using reads(1) read_der_value_exact [OF assms(1)] by blast
  then have l1: "length outer \<le> usize_MAX" using inner_fits assms(1) by metis
  then have 2: "outer = der_encode 0x30 alg @ key" using reads(2) read_der_value_exact by blast
  then have l2: "length alg \<le> usize_MAX" using inner_fits l1 by metis
  then have 3: "alg = der_encode 0x06 oid @ params" using reads(3) read_der_value_exact by blast
  then have "length params \<le> usize_MAX" using l2 by simp
  then have "oid \<noteq> EC_PUBLIC_KEY_OID \<or> (\<exists>curve. params = der_encode 0x06 curve @ [] \<and> curve \<noteq> P256_OID)"
    using reads(4) read_der_value_exact by blast
  then have "non_p256_spki encoded oid params key" using 1 2 3 by (simp add: non_p256_spki_def)
  then show ?thesis by blast
qed

lemma spki_declares_complete:
  assumes "length encoded \<le> usize_MAX" and spki: "non_p256_spki encoded oid params key"
  shows "spki_declares_non_p256 encoded"
proof -
  let ?alg = "der_encode 0x06 oid @ params"
  let ?outer = "der_encode 0x30 ?alg @ key"
  have enc: "encoded = der_encode 0x30 ?outer @ []" using spki by (simp add: non_p256_spki_def)
  then have l1: "length ?outer \<le> usize_MAX" using assms(1) inner_fits by metis
  then have l2: "length ?alg \<le> usize_MAX" by (rule inner_fits)
  then have l3: "length params \<le> usize_MAX" by simp
  have "read_der_value encoded 0x30 = Some (?outer, [])" using read_der_value_exact [OF assms(1)] enc by blast
  moreover have "read_der_value ?outer 0x30 = Some (?alg, key)" using read_der_value_exact [OF l1] by blast
  moreover have "read_der_value ?alg 0x06 = Some (oid, params)" using read_der_value_exact [OF l2] by blast
  moreover have "read_der_value params 0x06 = Some (curve, [])" if "params = der_encode 0x06 curve" for curve
    using read_der_value_exact [OF l3] that by simp
  ultimately show ?thesis using spki by (auto simp: spki_declares_non_p256_def non_p256_spki_def)
qed

text \<open>C27: a key that does not parse is reported as being on another curve exactly when it is a
  canonical SPKI structure whose algorithm is not EC, or is EC with another named curve and nothing
  after it; every other input is an invalid key.\<close>

theorem key_errors_classified:
  assumes "length encoded \<le> usize_MAX" and "public_key_from_der c encoded = None"
  shows "parse_p256_public_key c encoded =
    Err (if \<exists>oid params key. non_p256_spki encoded oid params key then PublicKeyNotP256 else InvalidPublicKey)"
  using assms spki_declares_sound spki_declares_complete by (auto simp: parse_p256_public_key_def)

theorem key_errors_classified_witness:
  "parse_p256_public_key example_crates (der_encode 0x30 (der_encode 0x30 (der_encode 0x06 [0x2a]) @ [0, 1]))
    = Err PublicKeyNotP256"
proof -
  let ?e = "der_encode 0x30 (der_encode 0x30 (der_encode 0x06 [0x2a]) @ [0, 1])"
  have "non_p256_spki ?e [0x2a] [] [0, 1]" by (simp add: non_p256_spki_def EC_PUBLIC_KEY_OID_def)
  moreover have "length ?e \<le> usize_MAX" "public_key_from_der example_crates ?e = None" by code_simp+
  ultimately show ?thesis using key_errors_classified [of ?e example_crates] by auto
qed

subsection \<open>What an accepted proof stands for\<close>

text \<open>The saturating bounds of the window are the exact ones.\<close>

lemma window_exact:
  assumes "i64_MIN \<le> at" "at \<le> i64_MAX" "i64_MIN \<le> now" "now \<le> i64_MAX"
  shows "outside_window at now \<longleftrightarrow> \<bar>at - now\<bar> > 300"
  using assms by (auto simp: outside_window_def i64_saturate_def MAX_CLOCK_SKEW_SECONDS_def)

lemma i64_from_str_range: "i64_from_str s = Some v \<Longrightarrow> i64_MIN \<le> v \<and> v \<le> i64_MAX"
  by (auto simp: i64_from_str_def i64_of_digits_def Let_def split: list.splits if_splits)

lemma parse_nonce_Ok: "parse_nonce c s = Ok n \<longleftrightarrow> length s = 22 \<and> b64_decode c s = Some n \<and> length n = 16"
  by (auto simp: parse_nonce_def NONCE_SIZE_def split: if_splits)

lemma decode_bounded_Ok: "decode_bounded_base64 c s m e = Ok bs \<Longrightarrow> b64_decode c s = Some bs \<and> bs \<noteq> [] \<and> length bs \<le> m"
  by (auto simp: decode_bounded_base64_def Let_def split: if_splits)

lemma parse_key_Ok: "parse_p256_public_key c bs = Ok key \<longleftrightarrow> public_key_from_der c bs = Some key"
  by (auto simp: parse_p256_public_key_def split: option.splits if_splits)

lemma verify_Ok:
  assumes "verify c p token method path now = Ok v"
  obtains key at sg where "is_valid_device_id (device_id_of p)" "is_valid_device_name (name_of p)"
    "b64_decode c (public_key_of p) = Some (encoded_public_key v)" "length (encoded_public_key v) \<le> 512"
    "public_key_from_der c (encoded_public_key v) = Some key" "device_id c key = Ok (device_id_of p)"
    "i64_from_str (timestamp_of p) = Some at" "\<not> outside_window at now" "from_unix_timestamp c at = Some (signed_at v)"
    "parse_nonce c (nonce_of p) = Ok (verified_nonce v)"
    "Option.bind (b64_decode c (signature_of p)) (signature_from_der c) = Some sg"
    "verify_prehash c key (sha256 c (signature_payload c p token method path)) sg"
  using assms by (auto simp: verify_def parse_key_Ok MAX_PUBLIC_KEY_SIZE_def dest!: decode_bounded_Ok split: if_splits)

text \<open>C20: what an accepted proof shows: the device ID is the one derived from the key in the proof, the
  signature over the payload of this very request verifies under that key, the timestamp is within
  five minutes of the server's clock (no saturation at the ends of \<open>i64\<close> widens the window) and the
  nonce has 16 bytes.\<close>

theorem accepted_proof_sound:
  assumes "verify c p token method path now = Ok v" and "i64_MIN \<le> now" and "now \<le> i64_MAX"
  shows "\<exists>key at sg. public_key_from_der c (encoded_public_key v) = Some key
    \<and> device_id c key = Ok (device_id_of p)
    \<and> Option.bind (b64_decode c (signature_of p)) (signature_from_der c) = Some sg
    \<and> verify_prehash c key (sha256 c (signature_payload c p token method path)) sg
    \<and> i64_from_str (timestamp_of p) = Some at \<and> \<bar>at - now\<bar> \<le> 300 \<and> from_unix_timestamp c at = Some (signed_at v)
    \<and> b64_decode c (nonce_of p) = Some (verified_nonce v) \<and> length (verified_nonce v) = 16"
proof -
  from assms(1) obtain key at sg where v: "public_key_from_der c (encoded_public_key v) = Some key"
    "device_id c key = Ok (device_id_of p)" "i64_from_str (timestamp_of p) = Some at" "\<not> outside_window at now"
    "from_unix_timestamp c at = Some (signed_at v)" "parse_nonce c (nonce_of p) = Ok (verified_nonce v)"
    "Option.bind (b64_decode c (signature_of p)) (signature_from_der c) = Some sg"
    "verify_prehash c key (sha256 c (signature_payload c p token method path)) sg"
    by (rule verify_Ok)
  then have "\<bar>at - now\<bar> \<le> 300" using window_exact [of at now] i64_from_str_range [of _ at] assms(2,3) by auto
  then show ?thesis using v by (auto simp: parse_nonce_Ok)
qed

theorem accepted_proof_sound_witness:
  "\<exists>at. i64_from_str ''1000'' = Some at \<and> \<bar>at - 900\<bar> \<le> 300 \<and> length (verified_nonce example_verified) = 16"
  using accepted_proof_sound [OF example_verify] by (auto simp: example_proof_def)

lemma as_bytes_inj: "as_bytes s = as_bytes t \<Longrightarrow> s = t"
proof -
  have "inj (\<lambda>c :: char. byte_of (of_char c))"
  proof (rule injI)
    fix x y :: char
    assume "byte_of (of_char x) = byte_of (of_char y)"
    then have "(of_char x :: nat) mod 256 = of_char y mod 256" by (metis unat_byte_of)
    then show "x = y" by simp
  qed
  then show "as_bytes s = as_bytes t \<Longrightarrow> s = t" by (simp add: as_bytes_def inj_map_eq_map)
qed

lemma line_split: "x \<notin> set a \<Longrightarrow> x \<notin> set b \<Longrightarrow> a @ x # r = b @ x # s \<longleftrightarrow> a = b \<and> r = s"
proof (induction a arbitrary: b)
  case Nil
  then show ?case by (cases b) auto
next
  case (Cons c a)
  then show ?case by (cases b) auto
qed

lemma no_newline:
  "is_valid_device_id s \<Longrightarrow> newline \<notin> set s" "is_valid_device_name s \<Longrightarrow> newline \<notin> set s"
  "i64_from_str s = Some v \<Longrightarrow> newline \<notin> set s"
proof -
  have plain: "\<not> is_ascii_alphanumeric newline" "\<not> is_ascii_digit newline"
    by (simp_all add: is_ascii_alphanumeric_def is_ascii_digit_def)
  show "is_valid_device_id s \<Longrightarrow> newline \<notin> set s"
  proof
    assume ok: "is_valid_device_id s" "newline \<in> set s"
    have "set s = set (take 2 s) \<union> set (drop 2 s)" by (metis append_take_drop_id set_append)
    then show False using ok plain by (auto simp: is_valid_device_id_def list_all_iff)
  qed
  show "is_valid_device_name s \<Longrightarrow> newline \<notin> set s"
    using plain by (cases s) (auto simp: is_valid_device_name_def list_all_iff)
  show "i64_from_str s = Some v \<Longrightarrow> newline \<notin> set s"
    using plain by (auto simp: i64_from_str_def i64_of_digits_def Let_def list_all_iff split: list.splits if_splits)
qed



end
