(* ===== verification/Admission.thy ===== *)
theory Admission
  imports Wire_Masque "HOL-Library.Multiset"
begin

text \<open>
  Connection admission (porta-server/src/ops/admission.rs): the counters that bound the public
  connections of the server. The counters are atomics and the per-source tables sit behind one
  mutex per shard, so several threads run \<open>admit\<close>, the destructor of a permit and
  \<open>mark_verified\<close> at the same time. The sequential operations are translated first; then every
  operation is cut into its atomic actions, and the limits are proved for every interleaving of
  them.
\<close>

subsection \<open>Addresses of peers\<close>

definition to_ipv4_mapped :: "u128 \<Rightarrow> u32 option" where
  "to_ipv4_mapped a = (if unat a div 2 ^ 32 = 65535 then Some (u32_of (unat a)) else None)"

fun normalize_address :: "ip_addr \<Rightarrow> ip_addr" where
  "normalize_address (V6 a) = (case to_ipv4_mapped a of Some b \<Rightarrow> V4 b | None \<Rightarrow> V6 a)"
| "normalize_address (V4 a) = V4 a"

fun address_octets :: "ip_addr \<Rightarrow> bytes" where
  "address_octets (V4 a) = to_be 4 (unat a)"
| "address_octets (V6 a) = to_be 16 (unat a)"

definition address_shard :: "ip_addr \<Rightarrow> nat \<Rightarrow> nat" where
  "address_shard a shards =
    unat (foldl (\<lambda>hash b. (hash XOR u32_of (unat b)) * 16777619) (2166136261 :: u32) (address_octets a)) mod shards"

definition SOURCE_SHARDS :: nat where "SOURCE_SHARDS = 64"

lemma address_shard_less [simp]: "address_shard a SOURCE_SHARDS < SOURCE_SHARDS"
  by (simp add: address_shard_def SOURCE_SHARDS_def)

lemma normalize_address_idem [simp]: "normalize_address (normalize_address a) = normalize_address a"
  by (cases a) (auto split: option.splits)

subsection \<open>Metrics of public connections\<close>

datatype rejection = Global | Source | Unverified

fun rejection_as_str :: "rejection \<Rightarrow> string" where
  "rejection_as_str Global = ''global''"
| "rejection_as_str Source = ''source''"
| "rejection_as_str Unverified = ''unverified''"

datatype transport = OverTcp | OverQuic

fun transport_as_str :: "transport \<Rightarrow> string" where
  "transport_as_str OverTcp = ''tcp''"
| "transport_as_str OverQuic = ''quic''"

record connection_metrics =
  public_connections :: "u64 list"
  public_connections_total :: "u64 list"
  public_connection_rejections :: "u64 list"

definition bump :: "nat \<Rightarrow> u64 \<Rightarrow> u64 list \<Rightarrow> u64 list" where
  "bump i d xs = xs[i := xs ! i + d]"

definition public_transport_index :: "string \<Rightarrow> nat option" where
  "public_transport_index t = (if t = ''tcp'' then Some 0 else if t = ''quic'' then Some 1 else None)"

definition public_connection_opened :: "string \<Rightarrow> connection_metrics \<Rightarrow> connection_metrics" where
  "public_connection_opened t m =
    (case public_transport_index t of None \<Rightarrow> m
     | Some i \<Rightarrow> m\<lparr>public_connections := bump i 1 (public_connections m),
                   public_connections_total := bump i 1 (public_connections_total m)\<rparr>)"

definition public_connection_closed :: "string \<Rightarrow> connection_metrics \<Rightarrow> connection_metrics" where
  "public_connection_closed t m =
    (case public_transport_index t of None \<Rightarrow> m
     | Some i \<Rightarrow> m\<lparr>public_connections := bump i (- 1) (public_connections m)\<rparr>)"

definition rejection_index :: "string \<Rightarrow> string \<Rightarrow> nat option" where
  "rejection_index t r =
    (if (t, r) = (''tcp'', ''global'') then Some 0
     else if (t, r) = (''tcp'', ''source'') then Some 1
     else if (t, r) = (''quic'', ''global'') then Some 2
     else if (t, r) = (''quic'', ''source'') then Some 3
     else if (t, r) = (''quic'', ''unverified'') then Some 4
     else None)"

definition public_connection_rejected :: "string \<Rightarrow> string \<Rightarrow> connection_metrics \<Rightarrow> connection_metrics" where
  "public_connection_rejected t r m =
    (case rejection_index t r of None \<Rightarrow> m
     | Some i \<Rightarrow> m\<lparr>public_connection_rejections := bump i 1 (public_connection_rejections m)\<rparr>)"

definition default_connection_metrics :: connection_metrics where
  "default_connection_metrics = \<lparr>public_connections = replicate 2 0, public_connections_total = replicate 2 0,
     public_connection_rejections = replicate 5 0\<rparr>"

subsection \<open>The admission counters\<close>

record admission =
  active_tcp :: u64
  active_quic :: u64
  unverified_quic :: u64
  tcp_sources :: "(ip_addr \<rightharpoonup> u64) list"
  quic_sources :: "(ip_addr \<rightharpoonup> u64) list"
  max_global :: u64
  max_per_source :: u64
  max_unverified :: u64
  retry_threshold :: u64
  conn_metrics :: connection_metrics

record permit =
  permit_transport :: transport
  permit_source :: "ip_addr option"
  permit_verified :: bool

text \<open>\<open>with_limits\<close> asserts that both limits are positive.\<close>

definition with_limits :: "u64 \<Rightarrow> u64 \<Rightarrow> u64 \<Rightarrow> u64 \<Rightarrow> admission option" where
  "with_limits global per_source unverified threshold =
    (if global > 0 \<and> unverified > 0 then
       Some \<lparr>active_tcp = 0, active_quic = 0, unverified_quic = 0,
             tcp_sources = replicate SOURCE_SHARDS Map.empty, quic_sources = replicate SOURCE_SHARDS Map.empty,
             max_global = global, max_per_source = per_source, max_unverified = unverified,
             retry_threshold = threshold, conn_metrics = default_connection_metrics\<rparr>
     else None)"

definition new_admission :: "admission option" where
  "new_admission = with_limits 4096 256 512 384"

fun active :: "admission \<Rightarrow> transport \<Rightarrow> u64" where
  "active a OverTcp = active_tcp a"
| "active a OverQuic = active_quic a"

fun add_active :: "transport \<Rightarrow> u64 \<Rightarrow> admission \<Rightarrow> admission" where
  "add_active OverTcp d a = a\<lparr>active_tcp := active_tcp a + d\<rparr>"
| "add_active OverQuic d a = a\<lparr>active_quic := active_quic a + d\<rparr>"

definition add_unverified :: "u64 \<Rightarrow> admission \<Rightarrow> admission" where
  "add_unverified d a = a\<lparr>unverified_quic := unverified_quic a + d\<rparr>"

fun sources :: "admission \<Rightarrow> transport \<Rightarrow> (ip_addr \<rightharpoonup> u64) list" where
  "sources a OverTcp = tcp_sources a"
| "sources a OverQuic = quic_sources a"

fun set_sources :: "transport \<Rightarrow> (ip_addr \<rightharpoonup> u64) list \<Rightarrow> admission \<Rightarrow> admission" where
  "set_sources OverTcp ss a = a\<lparr>tcp_sources := ss\<rparr>"
| "set_sources OverQuic ss a = a\<lparr>quic_sources := ss\<rparr>"

definition reject :: "transport \<Rightarrow> rejection \<Rightarrow> admission \<Rightarrow> admission" where
  "reject t r a =
    a\<lparr>conn_metrics := public_connection_rejected (transport_as_str t) (rejection_as_str r) (conn_metrics a)\<rparr>"

definition opened :: "transport \<Rightarrow> admission \<Rightarrow> admission" where
  "opened t a = a\<lparr>conn_metrics := public_connection_opened (transport_as_str t) (conn_metrics a)\<rparr>"

definition closed :: "transport \<Rightarrow> admission \<Rightarrow> admission" where
  "closed t a = a\<lparr>conn_metrics := public_connection_closed (transport_as_str t) (conn_metrics a)\<rparr>"

text \<open>\<open>entry(source).or_default()\<close> under the lock of the source's shard, then the comparison with
  the limit and the increment: one more connection of the source, or none (the entry stays, created
  with 0 when it was missing).\<close>

definition take_source :: "transport \<Rightarrow> ip_addr \<Rightarrow> admission \<Rightarrow> bool \<times> admission" where
  "take_source t s a =
    (let i = address_shard s SOURCE_SHARDS;
         shard = sources a t ! i;
         count = (case shard s of None \<Rightarrow> 0 | Some n \<Rightarrow> n)
     in if count \<ge> max_per_source a
        then (False, set_sources t ((sources a t)[i := shard(s \<mapsto> count)]) a)
        else (True, set_sources t ((sources a t)[i := shard(s \<mapsto> count + 1)]) a))"

definition release_source :: "transport \<Rightarrow> ip_addr \<Rightarrow> admission \<Rightarrow> admission" where
  "release_source t s a =
    (let i = address_shard s SOURCE_SHARDS;
         shard = sources a t ! i
     in case shard s of None \<Rightarrow> a
        | Some n \<Rightarrow>
            set_sources t ((sources a t)[i := (if n - 1 = 0 then shard(s := None) else shard(s \<mapsto> n - 1))]) a)"

definition admit :: "transport \<Rightarrow> ip_addr \<Rightarrow> bool \<Rightarrow> admission \<Rightarrow> (rejection + permit) \<times> admission" where
  "admit t source verified a =
    (let a1 = add_active t 1 a in
     if active a t \<ge> max_global a then (Err Global, reject t Global (add_active t (- 1) a1))
     else
       let a2 = (if t = OverQuic \<and> \<not> verified then add_unverified 1 a1 else a1) in
       if t = OverQuic \<and> \<not> verified \<and> unverified_quic a1 \<ge> max_unverified a1 then
         (Err Unverified, reject t Unverified (add_active t (- 1) (add_unverified (- 1) a2)))
       else
         let s = normalize_address source;
             (granted, a3) = (if verified \<and> max_per_source a > 0 then take_source t s a2 else (True, a2))
         in if granted
            then (Ok \<lparr>permit_transport = t, permit_source = (if verified then Some s else None),
                      permit_verified = verified\<rparr>, opened t a3)
            else (Err Source, reject t Source (add_active t (- 1) a3)))"

definition admit_tcp :: "ip_addr \<Rightarrow> admission \<Rightarrow> (rejection + permit) \<times> admission" where
  "admit_tcp remote = admit OverTcp remote True"

definition admit_quic :: "ip_addr \<Rightarrow> bool \<Rightarrow> admission \<Rightarrow> (rejection + permit) \<times> admission" where
  "admit_quic remote verified = admit OverQuic remote verified"

definition under_unverified_pressure :: "admission \<Rightarrow> bool" where
  "under_unverified_pressure a \<longleftrightarrow> unverified_quic a \<ge> retry_threshold a"

definition drop_permit :: "permit \<Rightarrow> admission \<Rightarrow> admission" where
  "drop_permit p a =
    (let t = permit_transport p;
         a1 = add_active t (- 1) a;
         a2 = (if t = OverQuic \<and> \<not> permit_verified p then add_unverified (- 1) a1 else a1);
         a3 = (case permit_source p of None \<Rightarrow> a2 | Some s \<Rightarrow> release_source t s a2)
     in closed t a3)"

definition mark_verified :: "permit \<Rightarrow> ip_addr \<Rightarrow> admission \<Rightarrow> (rejection + unit) \<times> permit \<times> admission" where
  "mark_verified p remote a =
    (if permit_transport p \<noteq> OverQuic \<or> permit_verified p then (Ok (), p, a)
     else
       let s = normalize_address remote;
           (granted, a1) = (if max_per_source a > 0 then take_source OverQuic s a else (True, a))
       in if granted
          then (Ok (), p\<lparr>permit_source := Some s, permit_verified := True\<rparr>, add_unverified (- 1) a1)
          else (Err Source, p, reject OverQuic Source a1))"

subsection \<open>The atomic actions of one thread\<close>

text \<open>
  Where a thread is inside an operation, named by its next atomic action: the calls of \<open>admit\<close>,
  the destructor of a permit and \<open>mark_verified\<close>. A thread that holds a permit by value or by
  \<open>&mut\<close> carries it. The comparison of a shard's count and the decrement of \<open>active\<close> that
  follows a rejection happen under the shard's lock; they are two actions here, which allows more
  interleavings than the code has.
\<close>

datatype admission_pc =
    Idle
  | AtActive transport ip_addr bool
  | AtUnverified ip_addr
  | UndoUnverified
  | AtSource transport ip_addr bool
  | UndoActive transport rejection
  | DropActive permit
  | DropUnverified permit
  | DropSource permit
  | VerifySource permit ip_addr
  | VerifyUnverified permit ip_addr

text \<open>One atomic action: the new counters, the thread's next action and the permits it hands out.\<close>

fun atomic_action :: "admission_pc \<Rightarrow> admission \<Rightarrow> admission \<times> admission_pc \<times> permit list" where
  "atomic_action Idle a = (a, Idle, [])"
| "atomic_action (AtActive t s v) a =
    (add_active t 1 a,
     (if active a t \<ge> max_global a then UndoActive t Global
      else if t = OverQuic \<and> \<not> v then AtUnverified s
      else AtSource t (normalize_address s) v), [])"
| "atomic_action (AtUnverified s) a =
    (add_unverified 1 a,
     (if unverified_quic a \<ge> max_unverified a then UndoUnverified
      else AtSource OverQuic (normalize_address s) False), [])"
| "atomic_action UndoUnverified a = (add_unverified (- 1) a, UndoActive OverQuic Unverified, [])"
| "atomic_action (AtSource t s v) a =
    (let (granted, a1) = (if v \<and> max_per_source a > 0 then take_source t s a else (True, a))
     in if granted
        then (opened t a1, Idle,
              [\<lparr>permit_transport = t, permit_source = (if v then Some s else None), permit_verified = v\<rparr>])
        else (a1, UndoActive t Source, []))"
| "atomic_action (UndoActive t r) a = (reject t r (add_active t (- 1) a), Idle, [])"
| "atomic_action (DropActive p) a =
    (add_active (permit_transport p) (- 1) a,
     (if permit_transport p = OverQuic \<and> \<not> permit_verified p then DropUnverified p else DropSource p), [])"
| "atomic_action (DropUnverified p) a = (add_unverified (- 1) a, DropSource p, [])"
| "atomic_action (DropSource p) a =
    (closed (permit_transport p)
      (case permit_source p of None \<Rightarrow> a | Some s \<Rightarrow> release_source (permit_transport p) s a), Idle, [])"
| "atomic_action (VerifySource p s) a =
    (let (granted, a1) = (if max_per_source a > 0 then take_source OverQuic s a else (True, a))
     in if granted then (a1, VerifyUnverified p s, [])
        else (reject OverQuic Source a1, Idle, [p]))"
| "atomic_action (VerifyUnverified p s) a =
    (add_unverified (- 1) a, Idle, [p\<lparr>permit_source := Some s, permit_verified := True\<rparr>])"

text \<open>The whole system: the counters, the threads and the permits that nobody is working on.\<close>

record admission_system =
  counters :: admission
  threads :: "admission_pc multiset"
  held :: "permit multiset"

inductive admission_step :: "admission_system \<Rightarrow> admission_system \<Rightarrow> bool" where
  call_admit:
    "admission_step \<lparr>counters = a, threads = add_mset Idle ts, held = ps\<rparr>
       \<lparr>counters = a, threads = add_mset (AtActive t s (t = OverTcp \<or> v)) ts, held = ps\<rparr>"
| call_drop:
    "admission_step \<lparr>counters = a, threads = add_mset Idle ts, held = add_mset p ps\<rparr>
       \<lparr>counters = a, threads = add_mset (DropActive p) ts, held = ps\<rparr>"
| call_mark_verified:
    "permit_transport p = OverQuic \<Longrightarrow> \<not> permit_verified p \<Longrightarrow>
     admission_step \<lparr>counters = a, threads = add_mset Idle ts, held = add_mset p ps\<rparr>
       \<lparr>counters = a, threads = add_mset (VerifySource p (normalize_address s)) ts, held = ps\<rparr>"
| act:
    "atomic_action pc a = (a', pc', granted) \<Longrightarrow>
     admission_step \<lparr>counters = a, threads = add_mset pc ts, held = ps\<rparr>
       \<lparr>counters = a', threads = add_mset pc' ts, held = mset granted + ps\<rparr>"

definition admission_start :: "nat \<Rightarrow> admission \<Rightarrow> admission_system" where
  "admission_start n a = \<lparr>counters = a, threads = replicate_mset n Idle, held = {#}\<rparr>"

text \<open>A thread that runs alone to the end of its call.\<close>

fun run_alone :: "nat \<Rightarrow> admission_pc \<Rightarrow> admission \<Rightarrow> admission \<times> admission_pc \<times> permit list" where
  "run_alone n pc a =
    (if n = 0 \<or> pc = Idle then (a, pc, [])
     else let (a1, pc1, ps) = atomic_action pc a; (a2, pc2, qs) = run_alone (n - 1) pc1 a1 in (a2, pc2, ps @ qs))"

declare run_alone.simps [simp del]

lemma run_alone_Idle [simp]: "run_alone n Idle a = (a, Idle, [])"
  by (simp add: run_alone.simps)

lemma run_alone_step:
  "pc \<noteq> Idle \<Longrightarrow> n > 0 \<Longrightarrow> run_alone n pc a =
    (let (a1, pc1, ps) = atomic_action pc a; (a2, pc2, qs) = run_alone (n - 1) pc1 a1 in (a2, pc2, ps @ qs))"
  by (subst run_alone.simps) simp

definition permits_of :: "rejection + permit \<Rightarrow> permit list" where
  "permits_of r = (case r of Err _ \<Rightarrow> [] | Ok p \<Rightarrow> [p])"

lemma metrics_commute [simp]:
  "active (opened t a) u = active a u" "active (reject t r a) u = active a u" "active (closed t a) u = active a u"
  "active (set_sources t ss a) u = active a u" "active (add_unverified d a) u = active a u"
  "unverified_quic (opened t a) = unverified_quic a" "unverified_quic (reject t r a) = unverified_quic a"
  "unverified_quic (closed t a) = unverified_quic a" "unverified_quic (set_sources t ss a) = unverified_quic a"
  "unverified_quic (add_active t d a) = unverified_quic a"
  "unverified_quic (add_unverified d a) = unverified_quic a + d"
  "sources (opened t a) u = sources a u" "sources (reject t r a) u = sources a u" "sources (closed t a) u = sources a u"
  "sources (add_active t d a) u = sources a u" "sources (add_unverified d a) u = sources a u"
  "sources (set_sources t ss a) u = (if u = t then ss else sources a u)"
  "active (add_active t d a) u = (if u = t then active a u + d else active a u)"
  by (cases u; cases t; simp add: opened_def reject_def closed_def add_unverified_def)+

lemma limits_constant [simp]:
  "max_global (opened t a) = max_global a" "max_global (reject t r a) = max_global a"
  "max_global (closed t a) = max_global a" "max_global (set_sources t ss a) = max_global a"
  "max_global (add_active t d a) = max_global a" "max_global (add_unverified d a) = max_global a"
  "max_unverified (opened t a) = max_unverified a" "max_unverified (reject t r a) = max_unverified a"
  "max_unverified (closed t a) = max_unverified a" "max_unverified (set_sources t ss a) = max_unverified a"
  "max_unverified (add_active t d a) = max_unverified a" "max_unverified (add_unverified d a) = max_unverified a"
  "max_per_source (opened t a) = max_per_source a" "max_per_source (reject t r a) = max_per_source a"
  "max_per_source (closed t a) = max_per_source a" "max_per_source (set_sources t ss a) = max_per_source a"
  "max_per_source (add_active t d a) = max_per_source a" "max_per_source (add_unverified d a) = max_per_source a"
  by (cases t; simp add: opened_def reject_def closed_def add_unverified_def)+

declare active.simps [simp del] add_active.simps [simp del] sources.simps [simp del] set_sources.simps [simp del]

lemma admit_runs_alone:
  assumes "admit t s v a = (r, a')"
  shows "run_alone 4 (AtActive t s v) a = (a', Idle, permits_of r)"
  using assms by (cases t) (auto simp: run_alone_step admit_def permits_of_def Let_def split: if_splits prod.splits)

lemma drop_runs_alone: "run_alone 3 (DropActive p) a = (drop_permit p a, Idle, [])"
  by (cases "permit_source p") (auto simp: run_alone_step drop_permit_def Let_def)

lemma mark_verified_runs_alone:
  assumes "permit_transport p = OverQuic" and "\<not> permit_verified p" and "mark_verified p remote a = (r, p', a')"
  shows "run_alone 2 (VerifySource p (normalize_address remote)) a = (a', Idle, [p'])"
  using assms by (auto simp: run_alone_step mark_verified_def Let_def split: if_splits prod.splits)

subsection \<open>What every interleaving keeps\<close>

text \<open>What a held permit and a running thread account for in each counter: in \<open>active\<close>, in
  \<open>unverified_quic\<close>, in the table of sources and in the gauge of open connections.\<close>

definition permit_active :: "transport \<Rightarrow> permit \<Rightarrow> nat" where
  "permit_active t p = of_bool (permit_transport p = t)"

definition permit_unverified :: "permit \<Rightarrow> nat" where
  "permit_unverified p = of_bool (permit_transport p = OverQuic \<and> \<not> permit_verified p)"

definition permit_from :: "transport \<Rightarrow> ip_addr \<Rightarrow> permit \<Rightarrow> nat" where
  "permit_from t s p = of_bool (permit_transport p = t \<and> permit_source p = Some s)"

fun pc_active :: "transport \<Rightarrow> admission_pc \<Rightarrow> nat" where
  "pc_active t (AtUnverified _) = of_bool (t = OverQuic)"
| "pc_active t UndoUnverified = of_bool (t = OverQuic)"
| "pc_active t (AtSource u _ _) = of_bool (u = t)"
| "pc_active t (UndoActive u _) = of_bool (u = t)"
| "pc_active t (DropActive p) = permit_active t p"
| "pc_active t (VerifySource p _) = permit_active t p"
| "pc_active t (VerifyUnverified p _) = permit_active t p"
| "pc_active t _ = 0"

fun pc_granted :: "transport \<Rightarrow> admission_pc \<Rightarrow> nat" where
  "pc_granted t (UndoActive _ _) = 0"
| "pc_granted t pc = pc_active t pc"

fun pc_unverified :: "admission_pc \<Rightarrow> nat" where
  "pc_unverified UndoUnverified = 1"
| "pc_unverified (AtSource t _ v) = of_bool (t = OverQuic \<and> \<not> v)"
| "pc_unverified (DropActive p) = permit_unverified p"
| "pc_unverified (DropUnverified p) = permit_unverified p"
| "pc_unverified (VerifySource p _) = permit_unverified p"
| "pc_unverified (VerifyUnverified p _) = permit_unverified p"
| "pc_unverified _ = 0"

fun pc_granted_unverified :: "admission_pc \<Rightarrow> nat" where
  "pc_granted_unverified UndoUnverified = 0"
| "pc_granted_unverified pc = pc_unverified pc"

fun pc_from :: "transport \<Rightarrow> ip_addr \<Rightarrow> admission_pc \<Rightarrow> nat" where
  "pc_from t s (DropActive p) = permit_from t s p"
| "pc_from t s (DropUnverified p) = permit_from t s p"
| "pc_from t s (DropSource p) = permit_from t s p"
| "pc_from t s (VerifyUnverified _ s') = of_bool (t = OverQuic \<and> s' = s)"
| "pc_from t s _ = 0"

fun pc_open :: "transport \<Rightarrow> admission_pc \<Rightarrow> nat" where
  "pc_open t (DropActive p) = permit_active t p"
| "pc_open t (DropUnverified p) = permit_active t p"
| "pc_open t (DropSource p) = permit_active t p"
| "pc_open t (VerifySource p _) = permit_active t p"
| "pc_open t (VerifyUnverified p _) = permit_active t p"
| "pc_open t _ = 0"

definition load :: "(permit \<Rightarrow> nat) \<Rightarrow> (admission_pc \<Rightarrow> nat) \<Rightarrow> admission_pc multiset \<Rightarrow> permit multiset \<Rightarrow> nat" where
  "load wp wt ts ps = (\<Sum>p \<in># ps. wp p) + (\<Sum>pc \<in># ts. wt pc)"

abbreviation load_of :: "(permit \<Rightarrow> nat) \<Rightarrow> (admission_pc \<Rightarrow> nat) \<Rightarrow> admission_system \<Rightarrow> nat" where
  "load_of wp wt s \<equiv> load wp wt (threads s) (held s)"

lemma load_add [simp]:
  "load wp wt (add_mset pc ts) ps = wt pc + load wp wt ts ps"
  "load wp wt ts (add_mset p ps) = wp p + load wp wt ts ps"
  by (simp_all add: load_def)

text \<open>A thread's place fits its call, and a permit records a source exactly when it is verified.\<close>

definition permit_ok :: "permit \<Rightarrow> bool" where
  "permit_ok p \<longleftrightarrow> (permit_verified p \<longleftrightarrow> permit_source p \<noteq> None) \<and> (permit_transport p = OverTcp \<longrightarrow> permit_verified p)"

definition still_unverified :: "permit \<Rightarrow> bool" where
  "still_unverified p \<longleftrightarrow> permit_transport p = OverQuic \<and> \<not> permit_verified p \<and> permit_source p = None"

fun pc_ok :: "admission_pc \<Rightarrow> bool" where
  "pc_ok (AtActive t _ v) \<longleftrightarrow> (t = OverTcp \<longrightarrow> v)"
| "pc_ok (AtSource t _ v) \<longleftrightarrow> (t = OverTcp \<longrightarrow> v)"
| "pc_ok (DropActive p) \<longleftrightarrow> permit_ok p"
| "pc_ok (DropUnverified p) \<longleftrightarrow> still_unverified p"
| "pc_ok (DropSource p) \<longleftrightarrow> permit_ok p"
| "pc_ok (VerifySource p _) \<longleftrightarrow> still_unverified p"
| "pc_ok (VerifyUnverified p _) \<longleftrightarrow> still_unverified p"
| "pc_ok _ \<longleftrightarrow> True"

definition places_ok :: "admission_system \<Rightarrow> bool" where
  "places_ok s \<longleftrightarrow> (\<forall>p \<in># held s. permit_ok p) \<and> (\<forall>pc \<in># threads s. pc_ok pc)"

text \<open>The value of a table of sources: an entry only for a source that has connections, in its
  own shard, and there the exact number.\<close>

definition entry :: "nat \<Rightarrow> u64 option" where
  "entry n = (if n = 0 then None else Some (of_nat n))"

definition table_is :: "admission \<Rightarrow> (transport \<Rightarrow> ip_addr \<Rightarrow> nat) \<Rightarrow> bool" where
  "table_is a f \<longleftrightarrow>
    (\<forall>t. length (sources a t) = SOURCE_SHARDS \<and>
      (\<forall>i < SOURCE_SHARDS. \<forall>x. (sources a t ! i) x =
        (if address_shard x SOURCE_SHARDS = i then entry (f t x) else None)))"

definition tables_exact :: "admission_system \<Rightarrow> bool" where
  "tables_exact s \<longleftrightarrow> table_is (counters s)
    (\<lambda>t x. if max_per_source (counters s) > 0 then load_of (permit_from t x) (pc_from t x) s else 0)"

definition sources_bounded :: "admission_system \<Rightarrow> bool" where
  "sources_bounded s \<longleftrightarrow> (max_per_source (counters s) > 0 \<longrightarrow>
    (\<forall>t x. load_of (permit_from t x) (pc_from t x) s \<le> unat (max_per_source (counters s))))"

definition counters_exact :: "admission_system \<Rightarrow> bool" where
  "counters_exact s \<longleftrightarrow>
    (\<forall>t. active (counters s) t = of_nat (load_of (permit_active t) (pc_active t) s)) \<and>
    unverified_quic (counters s) = of_nat (load_of permit_unverified pc_unverified s)"

definition grants_bounded :: "admission_system \<Rightarrow> bool" where
  "grants_bounded s \<longleftrightarrow>
    (\<forall>t. load_of (permit_active t) (pc_granted t) s \<le> unat (max_global (counters s))) \<and>
    load_of permit_unverified pc_granted_unverified s \<le> unat (max_unverified (counters s))"

lemma places_ok_step: "admission_step s s' \<Longrightarrow> places_ok s \<Longrightarrow> places_ok s'"
proof (induction rule: admission_step.induct)
  case (act pc a a' pc' granted ts ps)
  then show ?case
    by (cases pc) (auto simp: places_ok_def permit_ok_def still_unverified_def Let_def split: if_splits prod.splits)
qed (auto simp: places_ok_def permit_ok_def still_unverified_def)

lemma take_source_counters:
  "take_source t s a = (g, a') \<Longrightarrow> active a' u = active a u"
  "take_source t s a = (g, a') \<Longrightarrow> unverified_quic a' = unverified_quic a"
  "take_source t s a = (g, a') \<Longrightarrow> max_global a' = max_global a"
  "take_source t s a = (g, a') \<Longrightarrow> max_unverified a' = max_unverified a"
  "take_source t s a = (g, a') \<Longrightarrow> max_per_source a' = max_per_source a"
  by (auto simp: take_source_def Let_def split: if_splits)

lemma release_source_counters [simp]:
  "active (release_source t s a) u = active a u"
  "unverified_quic (release_source t s a) = unverified_quic a"
  "max_global (release_source t s a) = max_global a"
  "max_unverified (release_source t s a) = max_unverified a"
  "max_per_source (release_source t s a) = max_per_source a"
  by (auto simp: release_source_def Let_def split: option.splits)

lemma limits_step:
  "admission_step s s' \<Longrightarrow>
    max_global (counters s') = max_global (counters s) \<and> max_unverified (counters s') = max_unverified (counters s)
      \<and> max_per_source (counters s') = max_per_source (counters s) \<and> size (threads s') = size (threads s)"
proof (induction rule: admission_step.induct)
  case (act pc a a' pc' granted ts ps)
  then show ?case by (cases pc) (auto simp: take_source_counters Let_def split: if_splits prod.splits option.splits)
qed simp_all

lemma permit_simps [simp]:
  "permit_ok p \<Longrightarrow> permit_unverified (p\<lparr>permit_source := Some s, permit_verified := True\<rparr>) = 0"
  "permit_active t (p\<lparr>permit_source := Some s, permit_verified := True\<rparr>) = permit_active t p"
  by (simp_all add: permit_unverified_def permit_active_def)

lemma counters_exact_step:
  "admission_step s s' \<Longrightarrow> places_ok s \<Longrightarrow> counters_exact s \<Longrightarrow> counters_exact s'"
proof (induction rule: admission_step.induct)
  case (act pc a a' pc' granted ts ps)
  then show ?case
    by (cases pc) (auto simp: take_source_counters counters_exact_def places_ok_def permit_active_def permit_unverified_def permit_ok_def
        still_unverified_def Let_def split: if_splits prod.splits option.splits)
qed (auto simp: counters_exact_def places_ok_def permit_active_def permit_unverified_def still_unverified_def)

lemma load_le: "(\<And>pc. wt pc \<le> wt' pc) \<Longrightarrow> load wp wt ts ps \<le> load wp wt' ts ps"
  by (simp add: load_def sum_mset_mono)

lemma load_slack: "(\<And>pc. wt pc \<le> wt' pc + 1) \<Longrightarrow> load wp wt ts ps \<le> load wp wt' ts ps + size ts"
proof (induction ts)
  case (add pc ts)
  have "wt pc + load wp wt ts ps \<le> (wt' pc + 1) + (load wp wt' ts ps + size ts)"
    by (rule add_mono [OF add.prems add.IH [OF add.prems]])
  then show ?case by simp
qed (simp add: load_def)

lemma granted_le:
  "load wp (pc_granted t) ts ps \<le> load wp (pc_active t) ts ps"
  "load wp pc_granted_unverified ts ps \<le> load wp pc_unverified ts ps"
proof -
  show "load wp (pc_granted t) ts ps \<le> load wp (pc_active t) ts ps"
    by (rule load_le, case_tac pc) auto
  show "load wp pc_granted_unverified ts ps \<le> load wp pc_unverified ts ps"
    by (rule load_le, case_tac pc) auto
qed

lemma active_slack:
  "load wp (pc_active t) ts ps \<le> load wp (pc_granted t) ts ps + size ts"
  "load wp pc_unverified ts ps \<le> load wp pc_granted_unverified ts ps + size ts"
proof -
  show "load wp (pc_active t) ts ps \<le> load wp (pc_granted t) ts ps + size ts"
    by (rule load_slack, case_tac pc) auto
  show "load wp pc_unverified ts ps \<le> load wp pc_granted_unverified ts ps + size ts"
    by (rule load_slack, case_tac pc) auto
qed

text \<open>No counter wraps as long as the limits leave room for one unit per thread.\<close>

definition room :: "admission_system \<Rightarrow> bool" where
  "room s \<longleftrightarrow> unat (max_global (counters s)) + size (threads s) < 2 ^ 64
     \<and> unat (max_unverified (counters s)) + size (threads s) < 2 ^ 64"

lemma u64_less_limit: "\<not> (m :: u64) \<le> of_nat n \<Longrightarrow> n < 2 ^ 64 \<Longrightarrow> n < unat m"
  by (simp add: not_le word_less_nat_alt unat_of_nat)

lemma grants_bounded_step:
  "admission_step s s' \<Longrightarrow> places_ok s \<Longrightarrow> room s \<Longrightarrow> counters_exact s \<Longrightarrow> grants_bounded s \<Longrightarrow> grants_bounded s'"
proof (induction rule: admission_step.induct)
  case (act pc a a' pc' granted ts ps)
  have below: "load (permit_active t) (pc_granted t) ts ps < unat (max_global a)"
    if "pc = AtActive t s v" "\<not> max_global a \<le> active a t" for t s v
  proof -
    let ?n = "load (permit_active t) (pc_active t) ts ps"
    have "?n \<le> unat (max_global a) + size ts"
      using active_slack(1) [of "permit_active t" t ts ps] act.prems(4) that(1)
      by (auto simp: grants_bounded_def) (metis add_le_mono1 dual_order.trans)
    then have "?n < 2 ^ 64" using act.prems(2) by (simp add: room_def)
    moreover have "active a t = of_nat ?n" using act.prems(3) that(1) by (simp add: counters_exact_def)
    ultimately have "?n < unat (max_global a)" using that(2) u64_less_limit by metis
    then show ?thesis using granted_le(1) [of "permit_active t" t ts ps] by simp
  qed
  have below_u: "load permit_unverified pc_granted_unverified ts ps < unat (max_unverified a)"
    if "pc = AtUnverified s" "\<not> max_unverified a \<le> unverified_quic a" for s
  proof -
    let ?n = "load permit_unverified pc_unverified ts ps"
    have "?n \<le> unat (max_unverified a) + size ts"
      using active_slack(2) [of permit_unverified ts ps] act.prems(4) that(1) by (simp add: grants_bounded_def)
    then have "?n < 2 ^ 64" using act.prems(2) by (simp add: room_def)
    moreover have "unverified_quic a = of_nat ?n" using act.prems(3) that(1) by (simp add: counters_exact_def)
    ultimately have "?n < unat (max_unverified a)" using that(2) u64_less_limit by metis
    then show ?thesis using granted_le(2) [of permit_unverified ts ps] by simp
  qed
  have "load_of (permit_active t) (pc_granted t) \<lparr>counters = a', threads = add_mset pc' ts, held = mset granted + ps\<rparr>
    \<le> unat (max_global a')" for t
    using act.hyps act.prems(1) below [of t] act.prems(4) [unfolded grants_bounded_def, THEN conjunct1, rule_format, of t]
    by (cases pc) (auto simp: take_source_counters places_ok_def permit_active_def of_bool_def Let_def Suc_le_eq
        split: if_splits prod.splits option.splits)
  moreover have "load_of permit_unverified pc_granted_unverified
      \<lparr>counters = a', threads = add_mset pc' ts, held = mset granted + ps\<rparr> \<le> unat (max_unverified a')"
    using act.hyps act.prems(1) below_u act.prems(4) [unfolded grants_bounded_def, THEN conjunct2]
    by (cases pc) (auto simp: take_source_counters places_ok_def permit_unverified_def permit_ok_def still_unverified_def of_bool_def Let_def
        Suc_le_eq split: if_splits prod.splits option.splits)
  ultimately show ?case by (simp add: grants_bounded_def)
qed (auto simp: grants_bounded_def places_ok_def permit_active_def permit_unverified_def still_unverified_def)

subsection \<open>The tables of sources\<close>

abbreviation shard_of :: "ip_addr \<Rightarrow> nat" where
  "shard_of x \<equiv> address_shard x SOURCE_SHARDS"

lemma entry_simps [simp]: "entry 0 = None" "entry (Suc n) = Some (of_nat (Suc n))"
  by (simp_all add: entry_def)

lemma unat_u64_less: "unat (w :: u64) < 2 ^ 64"
  using unsigned_less [of w] by simp

lemma table_is_write:
  assumes "table_is a f"
  shows "table_is (set_sources t ((sources a t)[shard_of s := (sources a t ! shard_of s)(s := entry n)]) a)
    (f(t := (f t)(s := n)))"
  using assms by (auto simp: table_is_def nth_list_update)

lemma table_is_lookup: "table_is a f \<Longrightarrow> (sources a t ! shard_of s) s = entry (f t s)"
  by (simp add: table_is_def)

lemma table_is_same [simp]:
  "table_is (opened t a) f = table_is a f" "table_is (reject t r a) f = table_is a f"
  "table_is (closed t a) f = table_is a f" "table_is (add_active t d a) f = table_is a f"
  "table_is (add_unverified d a) f = table_is a f"
  by (simp_all add: table_is_def)

lemma take_source_table:
  assumes "take_source t s a = (g, a')" and "table_is a f"
    and n: "f t s \<le> unat (max_per_source a)" and pos: "max_per_source a > 0"
  shows "g \<longleftrightarrow> f t s < unat (max_per_source a)" and "table_is a' (if g then f(t := (f t)(s := Suc (f t s))) else f)"
proof -
  let ?n = "f t s" and ?shard = "sources a t ! shard_of s"
  have "?n < 2 ^ 64" using n unat_u64_less [of "max_per_source a"] by simp
  then have full: "max_per_source a \<le> of_nat ?n \<longleftrightarrow> unat (max_per_source a) \<le> ?n"
    by (simp add: word_le_nat_alt unat_of_nat)
  have "?shard s = entry ?n" by (rule table_is_lookup [OF assms(2)])
  then have count: "(case ?shard s of None \<Rightarrow> 0 | Some m \<Rightarrow> m) = (of_nat ?n :: u64)" by (simp add: entry_def)
  have out: "take_source t s a = (if unat (max_per_source a) \<le> ?n
    then (False, set_sources t ((sources a t)[shard_of s := ?shard(s \<mapsto> of_nat ?n)]) a)
    else (True, set_sources t ((sources a t)[shard_of s := ?shard(s \<mapsto> of_nat ?n + 1)]) a))"
    unfolding take_source_def Let_def count full ..
  have "g \<longleftrightarrow> \<not> unat (max_per_source a) \<le> ?n" using out assms(1) by (simp split: if_splits)
  then show g: "g \<longleftrightarrow> ?n < unat (max_per_source a)" by auto
  show "table_is a' (if g then f(t := (f t)(s := Suc ?n)) else f)"
  proof (cases g)
    case True
    have "a' = set_sources t ((sources a t)[shard_of s := ?shard(s := entry (Suc ?n))]) a"
      using out assms(1) True by (simp add: add.commute split: if_splits)
    then show ?thesis using True table_is_write [OF assms(2), of t s "Suc ?n"] by simp
  next
    case False
    then have "?n > 0" using g pos by (simp add: word_less_nat_alt)
    then have "a' = set_sources t ((sources a t)[shard_of s := ?shard(s := entry ?n)]) a"
      using out assms(1) False by (simp add: entry_def split: if_splits)
    then show ?thesis using False table_is_write [OF assms(2), of t s ?n] by simp
  qed
qed

lemma release_source_table:
  assumes "table_is a f" and "f t s = Suc n" and "Suc n < 2 ^ 64"
  shows "table_is (release_source t s a) (f(t := (f t)(s := n)))"
proof -
  have last: "(of_nat (Suc n) :: u64) - 1 = 0 \<longleftrightarrow> n = 0"
    using assms(3) by (simp add: word_unat_eq_iff unat_of_nat)
  have shape: "release_source t s a = set_sources t ((sources a t)[shard_of s :=
      (sources a t ! shard_of s)(s := entry n)]) a"
    using table_is_lookup [OF assms(1), of t s] assms(2) last
    by (auto simp: release_source_def Let_def entry_def)
  then show ?thesis using table_is_write [OF assms(1)] by simp
qed

lemma release_source_absent: "table_is a f \<Longrightarrow> f t s = 0 \<Longrightarrow> release_source t s a = a"
  using table_is_lookup [of a f t s] by (simp add: release_source_def Let_def)

text \<open>What a thread adds to or takes from the entry of a source is what it adds to or takes from the
  connections counted for it. Here \<open>n\<close> counts what the other threads and the held permits have.\<close>

definition after_action :: "admission_pc \<Rightarrow> permit list \<Rightarrow> transport \<Rightarrow> ip_addr \<Rightarrow> nat" where
  "after_action pc granted t x = (\<Sum>p \<leftarrow> granted. permit_from t x p) + pc_from t x pc"

lemma fun_upd2_eq: "(f(t := (f t)(s := v))) = (\<lambda>u x. if u = t \<and> x = s then v else f u x)"
  by (auto simp: fun_eq_iff)

lemma table_step:
  assumes ok: "pc_ok pc" and act: "atomic_action pc a = (a', pc', granted)"
    and tab: "table_is a (\<lambda>t x. pc_from t x pc + n t x)"
    and bound: "\<And>t x. pc_from t x pc + n t x \<le> unat (max_per_source a)"
    and pos: "max_per_source a > 0"
  shows "table_is a' (\<lambda>t x. after_action pc' granted t x + n t x) \<and>
    (\<forall>t x. after_action pc' granted t x + n t x \<le> unat (max_per_source a))"
proof -
  have take: "g \<longleftrightarrow> n t s < unat (max_per_source a)"
      "table_is b (\<lambda>u x. of_bool (g \<and> u = t \<and> x = s) + n u x)"
    if "take_source t s a = (g, b)" "\<And>t x. pc_from t x pc = 0" for t s g b
  proof -
    have n: "table_is a n" "n t s \<le> unat (max_per_source a)"
      using tab bound [of t s] that(2) by simp_all
    show "g \<longleftrightarrow> n t s < unat (max_per_source a)" by (rule take_source_table(1) [OF that(1) n pos])
    have "(if g then n(t := (n t)(s := Suc (n t s))) else n) = (\<lambda>u x. of_bool (g \<and> u = t \<and> x = s) + n u x)"
      by (auto simp: fun_eq_iff)
    then show "table_is b (\<lambda>u x. of_bool (g \<and> u = t \<and> x = s) + n u x)"
      using take_source_table(2) [OF that(1) n pos] by simp
  qed
  show ?thesis
  proof (cases pc)
    case (AtSource t s v)
    then show ?thesis
      using act bound take [of t s] tab pos
      by (cases v; cases "take_source t s a")
        (auto simp: after_action_def permit_from_def of_bool_def conj_commute eq_commute split: if_splits)
  next
    case (VerifySource p s)
    then show ?thesis
      using act ok bound take [of OverQuic s] tab pos
      by (cases "take_source OverQuic s a")
        (auto simp: after_action_def permit_from_def still_unverified_def of_bool_def eq_commute split: if_splits)
  next
    case (DropSource p)
    show ?thesis
    proof (cases "permit_source p")
      case None
      then show ?thesis using DropSource act bound tab by (auto simp: after_action_def permit_from_def)
    next
      case (Some s)
      let ?t = "permit_transport p" and ?f = "\<lambda>t x. pc_from t x pc + n t x"
      have own: "?f ?t s = Suc (n ?t s)" using DropSource Some by (simp add: permit_from_def)
      then have "Suc (n ?t s) < 2 ^ 64"
        using bound [of ?t s] unat_u64_less [of "max_per_source a"] by simp
      from release_source_table [OF tab own this]
      have "table_is (release_source ?t s a) (?f(?t := (?f ?t)(s := n ?t s)))" .
      moreover have "?f(?t := (?f ?t)(s := n ?t s)) = n"
        using DropSource Some by (auto simp: fun_eq_iff permit_from_def)
      ultimately show ?thesis
        using DropSource act Some bound by (auto simp: after_action_def intro: order_trans [OF le_add2])
    qed
  next
    case (DropActive p)
    then show ?thesis using act bound tab by (auto simp: after_action_def)
  next
    case (VerifyUnverified p s)
    then show ?thesis
      using act ok bound tab by (auto simp: after_action_def permit_from_def still_unverified_def eq_commute)
  qed (use act bound tab in \<open>auto simp: after_action_def\<close>)
qed

lemma load_empty [simp]: "load wp wt {#} {#} = 0"
  by (simp add: load_def)

lemma load_mset [simp]: "load wp wt ts (mset qs + ps) = (\<Sum>p \<leftarrow> qs. wp p) + load wp wt ts ps"
  by (induction qs) (simp_all add: load_def)

lemma no_table_step:
  assumes act: "atomic_action pc a = (a', pc', granted)" and "table_is a (\<lambda>_ _. 0)" and "max_per_source a = 0"
  shows "table_is a' (\<lambda>_ _. 0)"
  using assms by (cases pc) (auto simp: release_source_absent split: if_splits option.splits)

lemma tables_step:
  "admission_step s s' \<Longrightarrow> places_ok s \<Longrightarrow> tables_exact s \<and> sources_bounded s \<Longrightarrow> tables_exact s' \<and> sources_bounded s'"
proof (induction rule: admission_step.induct)
  case (act pc a a' pc' granted ts ps)
  have same: "max_per_source a' = max_per_source a"
    using limits_step [OF admission_step.act [OF act.hyps]] by simp
  show ?case
  proof (cases "max_per_source a > 0")
    case True
    let ?n = "\<lambda>t x. load (permit_from t x) (pc_from t x) ts ps"
    have pre: "pc_ok pc" "table_is a (\<lambda>t x. pc_from t x pc + ?n t x)"
        "\<And>t x. pc_from t x pc + ?n t x \<le> unat (max_per_source a)"
      using act.prems True by (simp_all add: places_ok_def tables_exact_def sources_bounded_def)
    from table_step [OF pre(1) act.hyps pre(2,3) True] show ?thesis
      using True same by (simp add: tables_exact_def sources_bounded_def after_action_def add.assoc)
  next
    case False
    then have zero: "max_per_source a = 0" by (simp add: word_neq_0_conv [symmetric])
    then have "table_is a (\<lambda>_ _. 0)" using act.prems by (simp add: tables_exact_def)
    from no_table_step [OF act.hyps this zero] show ?thesis
      using zero same by (simp add: tables_exact_def sources_bounded_def)
  qed
qed (auto simp: tables_exact_def sources_bounded_def places_ok_def permit_ok_def permit_from_def cong: if_cong)

text \<open>The gauge \<open>porta_public_connections\<close>.\<close>

fun gauge_index :: "transport \<Rightarrow> nat" where
  "gauge_index OverTcp = 0"
| "gauge_index OverQuic = 1"

definition gauge :: "admission \<Rightarrow> transport \<Rightarrow> u64" where
  "gauge a t = public_connections (conn_metrics a) ! gauge_index t"

definition gauge_exact :: "admission_system \<Rightarrow> bool" where
  "gauge_exact s \<longleftrightarrow> length (public_connections (conn_metrics (counters s))) = 2 \<and>
    (\<forall>t. gauge (counters s) t = of_nat (load_of (permit_active t) (pc_open t) s))"

abbreviation gauges :: "admission \<Rightarrow> u64 list" where
  "gauges a \<equiv> public_connections (conn_metrics a)"

lemma gauges_simps [simp]:
  "gauges (add_active t d a) = gauges a" "gauges (add_unverified d a) = gauges a"
  "gauges (set_sources t ss a) = gauges a" "gauges (reject t r a) = gauges a"
  "gauges (release_source t s a) = gauges a"
  "gauges (opened t a) = bump (gauge_index t) 1 (gauges a)"
  "gauges (closed t a) = bump (gauge_index t) (- 1) (gauges a)"
  by (cases t; simp add: add_active.simps set_sources.simps add_unverified_def reject_def opened_def closed_def
      public_connection_rejected_def public_connection_opened_def public_connection_closed_def
      public_transport_index_def release_source_def Let_def split: option.split)+

lemma gauge_bump:
  "length xs = 2 \<Longrightarrow> bump (gauge_index t) d xs ! gauge_index u = xs ! gauge_index u + (if u = t then d else 0)"
  by (cases t; cases u) (auto simp: bump_def)

lemma take_source_gauges: "take_source t s a = (g, a') \<Longrightarrow> gauges a' = gauges a"
  by (auto simp: take_source_def Let_def split: if_splits)

lemma length_bump [simp]: "length (bump i d xs) = length xs"
  by (simp add: bump_def)

lemma gauge_exact_step: "admission_step s s' \<Longrightarrow> gauge_exact s \<Longrightarrow> gauge_exact s'"
proof (induction rule: admission_step.induct)
  case (act pc a a' pc' granted ts ps)
  then show ?case
    by (cases pc) (auto simp: gauge_exact_def gauge_def gauge_bump take_source_gauges permit_active_def Let_def
        split: if_splits prod.splits option.splits)
qed (auto simp: gauge_exact_def gauge_def permit_active_def)

subsection \<open>Reachable states\<close>

definition admission_inv :: "admission_system \<Rightarrow> bool" where
  "admission_inv s \<longleftrightarrow> room s \<and> places_ok s \<and> counters_exact s \<and> grants_bounded s \<and> tables_exact s
     \<and> sources_bounded s \<and> gauge_exact s"

lemma admission_inv_step: "admission_step s s' \<Longrightarrow> admission_inv s \<Longrightarrow> admission_inv s'"
  using limits_step [of s s'] places_ok_step [of s s'] counters_exact_step [of s s'] grants_bounded_step [of s s']
    tables_step [of s s'] gauge_exact_step [of s s']
  by (simp add: admission_inv_def room_def)

lemma admission_inv_start:
  assumes "with_limits g p u r = Some a" and "unat g + n < 2 ^ 64" and "unat u + n < 2 ^ 64"
  shows "admission_inv (admission_start n a)"
proof -
  have empty: "load wp wt (replicate_mset n Idle) {#} = 0" if "wt Idle = 0" for wp and wt :: "admission_pc \<Rightarrow> nat"
    using that by (simp add: load_def)
  have a: "active a t = 0" "sources a t = replicate SOURCE_SHARDS Map.empty" "gauge a t = 0" for t
    using assms(1) by (cases t; auto simp: with_limits_def active.simps sources.simps gauge_def
        default_connection_metrics_def split: if_splits)+
  have b: "unverified_quic a = 0" "max_global a = g" "max_unverified a = u" "length (gauges a) = 2"
    using assms(1) by (auto simp: with_limits_def default_connection_metrics_def split: if_splits)
  show ?thesis
    using assms(2,3) a b
    by (auto simp: admission_inv_def admission_start_def room_def places_ok_def counters_exact_def grants_bounded_def
        tables_exact_def table_is_def sources_bounded_def gauge_exact_def empty)
qed

lemma admission_reachable_inv:
  assumes "admission_step\<^sup>*\<^sup>* (admission_start n a) s" and "with_limits g p u r = Some a"
    and "unat g + n < 2 ^ 64" and "unat u + n < 2 ^ 64"
  shows "admission_inv s"
  using assms(1) by (induction rule: rtranclp_induct)
    (auto intro: admission_inv_step admission_inv_start [OF assms(2-4)])

lemma reachable_limits:
  assumes "admission_step\<^sup>*\<^sup>* (admission_start n a) s"
  shows "max_global (counters s) = max_global a \<and> max_unverified (counters s) = max_unverified a
     \<and> max_per_source (counters s) = max_per_source a"
  using assms by (induction rule: rtranclp_induct) (auto simp: admission_start_def dest: limits_step)

subsection \<open>The properties of admission\<close>

abbreviation connections :: "(permit \<Rightarrow> bool) \<Rightarrow> admission_system \<Rightarrow> nat" where
  "connections P s \<equiv> size (filter_mset P (held s))"

lemma sum_of_bool: "(\<Sum>p \<in># ps. of_bool (P p)) = size (filter_mset P ps)"
  by (induction ps) auto

lemma held_le_load: "connections P s \<le> load_of (\<lambda>p. of_bool (P p)) wt s"
  by (simp add: load_def sum_of_bool)

lemma idle_load:
  assumes "\<forall>pc \<in># threads s. pc = Idle" and "wt Idle = 0"
  shows "load_of (\<lambda>p. of_bool (P p)) wt s = connections P s"
proof -
  have "(\<Sum>pc \<in># ts. wt pc) = 0" if "\<forall>pc \<in># ts. pc = Idle" for ts :: "admission_pc multiset"
    using that assms(2) by (induction ts) auto
  then show ?thesis using assms(1) by (simp add: load_def sum_of_bool)
qed

lemma weights:
  "permit_active t = (\<lambda>p. of_bool (permit_transport p = t))"
  "permit_unverified = (\<lambda>p. of_bool (permit_transport p = OverQuic \<and> \<not> permit_verified p))"
  "permit_from t x = (\<lambda>p. of_bool (permit_transport p = t \<and> permit_source p = Some x))"
  by (auto simp: fun_eq_iff permit_active_def permit_unverified_def permit_from_def)

text \<open>The sequential operations are runs of the system in which one thread is scheduled until it is
  done.\<close>

lemma run_alone_reaches:
  "run_alone n pc a = (a', pc', qs) \<Longrightarrow> admission_step\<^sup>*\<^sup>* \<lparr>counters = a, threads = add_mset pc ts, held = ps\<rparr>
    \<lparr>counters = a', threads = add_mset pc' ts, held = mset qs + ps\<rparr>"
proof (induction n arbitrary: pc a qs ps)
  case 0
  then show ?case by (simp add: run_alone.simps)
next
  case (Suc n)
  show ?case
  proof (cases "pc = Idle")
    case False
    obtain a1 pc1 qs1 where one: "atomic_action pc a = (a1, pc1, qs1)" by (metis prod_cases3)
    obtain qs2 where rest: "run_alone n pc1 a1 = (a', pc', qs2)" and qs: "qs = qs1 @ qs2"
      using Suc.prems False one by (auto simp: run_alone_step split: prod.splits)
    have "admission_step \<lparr>counters = a, threads = add_mset pc ts, held = ps\<rparr>
        \<lparr>counters = a1, threads = add_mset pc1 ts, held = mset qs1 + ps\<rparr>"
      by (rule act [OF one])
    also have "admission_step\<^sup>*\<^sup>* \<lparr>counters = a1, threads = add_mset pc1 ts, held = mset qs1 + ps\<rparr>
        \<lparr>counters = a', threads = add_mset pc' ts, held = mset qs2 + (mset qs1 + ps)\<rparr>"
      by (rule Suc.IH [OF rest])
    finally show ?thesis by (simp add: qs ac_simps)
  qed (use Suc.prems in simp)
qed

lemma admit_reaches:
  assumes "admit t s (t = OverTcp \<or> v) a = (r, a')"
  shows "admission_step\<^sup>*\<^sup>* \<lparr>counters = a, threads = add_mset Idle ts, held = ps\<rparr>
    \<lparr>counters = a', threads = add_mset Idle ts, held = mset (permits_of r) + ps\<rparr>"
  by (rule converse_rtranclp_into_rtranclp [OF call_admit run_alone_reaches [OF admit_runs_alone [OF assms]]])

text \<open>A run with two threads and one admitted connection, for the examples.\<close>

definition example_admission :: admission where
  "example_admission = the (with_limits 4 1 2 1)"

definition example_permit :: permit where
  "example_permit = \<lparr>permit_transport = OverTcp, permit_source = Some (V4 7), permit_verified = True\<rparr>"

definition example_connected :: admission_system where
  "example_connected = \<lparr>counters = snd (admit OverTcp (V4 7) True example_admission),
     threads = {#Idle, Idle#}, held = {#example_permit#}\<rparr>"

lemma example_with_limits: "with_limits 4 1 2 1 = Some example_admission"
  by (simp add: example_admission_def with_limits_def)

lemma example_reachable: "admission_step\<^sup>*\<^sup>* (admission_start 2 example_admission) example_connected"
proof -
  have "fst (admit OverTcp (V4 7) True example_admission) = Ok example_permit"
    by code_simp
  then have "admit OverTcp (V4 7) (OverTcp = OverTcp \<or> True) example_admission
      = (Ok example_permit, snd (admit OverTcp (V4 7) True example_admission))"
    by (simp add: prod_eq_iff)
  from admit_reaches [OF this, of "{#Idle#}" "{#}"] show ?thesis
    by (simp add: admission_start_def example_connected_def permits_of_def numeral_2_eq_2)
qed

text \<open>C8: whatever the interleaving of the threads that admit, verify and drop connections, the
  connections that hold a permit never exceed the global limit of their transport, the QUIC
  connections whose address is not verified never exceed their limit, and no source has more
  verified connections than the limit per source.\<close>

theorem admission_limits_hold:
  assumes "with_limits g p u r = Some a" and "unat g + n < 2 ^ 64" and "unat u + n < 2 ^ 64"
    and "admission_step\<^sup>*\<^sup>* (admission_start n a) s"
  shows "connections (\<lambda>q. permit_transport q = t) s \<le> unat g
    \<and> connections (\<lambda>q. permit_transport q = OverQuic \<and> \<not> permit_verified q) s \<le> unat u
    \<and> (p > 0 \<longrightarrow> connections (\<lambda>q. permit_transport q = t \<and> permit_source q = Some x) s \<le> unat p)"
proof -
  have inv: "admission_inv s" by (rule admission_reachable_inv [OF assms(4,1,2,3)])
  have "max_global a = g" "max_unverified a = u" "max_per_source a = p"
    using assms(1) by (auto simp: with_limits_def split: if_splits)
  then have lims: "max_global (counters s) = g" "max_unverified (counters s) = u" "max_per_source (counters s) = p"
    using reachable_limits [OF assms(4)] by simp_all
  have "load_of (permit_active t) (pc_granted t) s \<le> unat g"
      "load_of permit_unverified pc_granted_unverified s \<le> unat u"
      "p > 0 \<longrightarrow> load_of (permit_from t x) (pc_from t x) s \<le> unat p"
    using inv lims by (simp_all add: admission_inv_def grants_bounded_def sources_bounded_def)
  then show ?thesis
    unfolding weights by (intro conjI impI) (auto intro: order_trans [OF held_le_load])
qed

theorem admission_limits_hold_witness:
  "connections (\<lambda>q. permit_transport q = OverTcp) example_connected = 1
    \<and> connections (\<lambda>q. permit_transport q = OverTcp) example_connected \<le> 4
    \<and> connections (\<lambda>q. permit_transport q = OverTcp \<and> permit_source q = Some (V4 7)) example_connected \<le> 1"
proof -
  have "connections (\<lambda>q. permit_transport q = OverTcp) example_connected = 1"
    by (simp add: example_connected_def example_permit_def)
  then show ?thesis
    using admission_limits_hold [OF example_with_limits _ _ example_reachable, of OverTcp "V4 7"] by simp
qed

text \<open>C19: when no thread is inside an operation, every counter is exact: \<open>active\<close>, the
  unverified count and the gauge equal the number of permits, and a table has an entry for a source
  exactly when the source has connections, in its own shard. So nothing leaks once the
  connections are gone.\<close>

theorem admission_counters_exact:
  assumes "with_limits g p u r = Some a" and "unat g + n < 2 ^ 64" and "unat u + n < 2 ^ 64"
    and "admission_step\<^sup>*\<^sup>* (admission_start n a) s" and "\<forall>pc \<in># threads s. pc = Idle"
    and "i < SOURCE_SHARDS"
  shows "active (counters s) t = of_nat (connections (\<lambda>q. permit_transport q = t) s)
    \<and> gauge (counters s) t = of_nat (connections (\<lambda>q. permit_transport q = t) s)
    \<and> unverified_quic (counters s) = of_nat (connections (\<lambda>q. permit_transport q = OverQuic \<and> \<not> permit_verified q) s)
    \<and> (sources (counters s) t ! i) x =
        (if p > 0 \<and> address_shard x SOURCE_SHARDS = i
         then entry (connections (\<lambda>q. permit_transport q = t \<and> permit_source q = Some x) s) else None)"
proof -
  have inv: "admission_inv s" by (rule admission_reachable_inv [OF assms(4,1,2,3)])
  have "max_per_source a = p" using assms(1) by (auto simp: with_limits_def split: if_splits)
  then have lim: "max_per_source (counters s) = p" using reachable_limits [OF assms(4)] by simp
  note idle = idle_load [OF assms(5)]
  show ?thesis
    using inv lim assms(6) idle
    by (auto simp: admission_inv_def counters_exact_def tables_exact_def table_is_def gauge_exact_def weights)
qed

theorem admission_counters_exact_witness:
  "active (counters example_connected) OverTcp = 1 \<and> gauge (counters example_connected) OverTcp = 1
    \<and> (sources (counters example_connected) OverTcp ! address_shard (V4 7) SOURCE_SHARDS) (V4 7) = Some 1"
proof -
  have "connections (\<lambda>q. permit_transport q = OverTcp) example_connected = 1"
      "connections (\<lambda>q. permit_transport q = OverTcp \<and> permit_source q = Some (V4 7)) example_connected = 1"
      "\<forall>pc \<in># threads example_connected. pc = Idle"
    by (simp_all add: example_connected_def example_permit_def)
  then show ?thesis
    using admission_counters_exact [OF example_with_limits _ _ example_reachable _ address_shard_less [of "V4 7"],
      of OverTcp "V4 7"] by (simp add: entry_def)
qed

lemma add_back [simp]:
  "add_active t (- d) (add_active t d a) = a" "add_unverified (- d) (add_unverified d a) = a"
  by (cases t; simp add: add_active.simps add_unverified_def)+

lemma add_back_unverified [simp]:
  "add_active t (- d) (add_unverified e (add_active t d a)) = add_unverified e a"
  by (cases t) (simp_all add: add_active.simps add_unverified_def)

lemma take_source_refused:
  assumes "take_source t s a = (False, a')" and "max_per_source a > 0"
  shows "a' = a"
proof -
  let ?shard = "sources a t ! shard_of s"
  let ?count = "case ?shard s of None \<Rightarrow> 0 | Some n \<Rightarrow> n"
  have full: "max_per_source a \<le> ?count" and a': "a' = set_sources t ((sources a t)[shard_of s := ?shard(s \<mapsto> ?count)]) a"
    using assms(1) by (auto simp: take_source_def Let_def split: if_splits)
  have "?shard(s \<mapsto> ?count) = ?shard"
    using full assms(2) by (auto simp: fun_eq_iff split: option.splits)
  then show ?thesis unfolding a' by (cases t) (simp_all add: set_sources.simps sources.simps)
qed

text \<open>C26: a refused connection leaves no trace but the metric of its rejection: every counter and
  every table is as it was before the attempt.\<close>

theorem rejection_leaves_no_trace:
  assumes "admit t source verified a = (Err r, a')"
  shows "a' = reject t r a"
proof -
  have kept: "b = add_active t 1 a" if "take_source t s (add_active t 1 a) = (False, b)" "max_per_source a > 0" for s b
    using that by (auto dest!: take_source_refused)
  show ?thesis using assms by (auto simp: admit_def Let_def dest!: kept split: if_splits prod.splits)
qed

theorem rejection_leaves_no_trace_witness:
  "snd (admit OverTcp (V4 7) True (snd (admit OverTcp (V4 7) True example_admission)))
     = reject OverTcp Source (snd (admit OverTcp (V4 7) True example_admission))"
proof -
  have "fst (admit OverTcp (V4 7) True (snd (admit OverTcp (V4 7) True example_admission))) = Err Source"
    by code_simp
  then show ?thesis
    using rejection_leaves_no_trace [of OverTcp "V4 7" True "snd (admit OverTcp (V4 7) True example_admission)" Source]
    by (metis prod.collapse)
qed

end
