(* ===== verification/Live_Sessions.thy ===== *)
theory Live_Sessions
  imports Prelude "HOL-Library.AList" "HOL-Library.Multiset"
begin

text \<open>
  Live sessions (porta-server/src/state/sessions.rs): the table of sessions that accounts and
  devices have open, the guards that remove their entry when they are dropped, and the operation
  that cancels the sessions of an account or device and waits for them to end.

  A \<open>HashMap\<close> is an association list with distinct keys; its order is not relied on. An
  \<open>Arc<ActiveSession>\<close> is an index into the store of token pairs. A \<open>CancellationToken\<close> is a flag
  that is set once; \<open>cancelled().await\<close> goes on when the flag is set. The session identifiers are
  64-bit and wrap.
\<close>

record session_key =
  key_account :: string
  key_device :: string

record active_session =
  cancellation :: bool
  finished :: bool

type_synonym session_table = "(session_key \<times> (u64 \<times> nat) list) list"

record live_sessions =
  table :: session_table
  next_id :: u64
  store :: "active_session list"
  alive :: bool

record session_guard =
  guard_key :: session_key
  guard_id :: u64
  guard_session :: nat

definition default_live :: live_sessions where
  "default_live = \<lparr>table = [], next_id = 1, store = [], alive = True\<rparr>"

text \<open>\<open>register\<close>: a fresh identifier, fresh tokens, and an entry under the key.\<close>

definition register_session :: "string \<Rightarrow> string \<Rightarrow> live_sessions \<Rightarrow> session_guard \<times> live_sessions" where
  "register_session account device s =
    (let key = \<lparr>key_account = account, key_device = device\<rparr>;
         i = next_id s;
         session = length (store s);
         active = (case map_of (table s) key of None \<Rightarrow> [] | Some m \<Rightarrow> m)
     in (\<lparr>guard_key = key, guard_id = i, guard_session = session\<rparr>,
         s\<lparr>next_id := i + 1, store := store s @ [\<lparr>cancellation = False, finished = False\<rparr>],
           table := AList.update key (AList.update i session active) (table s)\<rparr>))"

text \<open>The destructor of a guard. Its weak reference can no longer be upgraded once the table itself
  is gone; the session is marked as finished in any case.\<close>

definition remove_entry :: "session_guard \<Rightarrow> session_table \<Rightarrow> session_table" where
  "remove_entry g t =
    (case map_of t (guard_key g) of None \<Rightarrow> t
     | Some active \<Rightarrow>
         let left = AList.delete (guard_id g) active
         in if left = [] then AList.delete (guard_key g) t else AList.update (guard_key g) left t)"

definition mark_finished :: "nat \<Rightarrow> active_session list \<Rightarrow> active_session list" where
  "mark_finished i ss = ss[i := (ss ! i)\<lparr>finished := True\<rparr>]"

definition drop_guard :: "session_guard \<Rightarrow> live_sessions \<Rightarrow> live_sessions" where
  "drop_guard g s =
    (if alive s then s\<lparr>table := remove_entry g (table s)\<rparr> else s)\<lparr>store := mark_finished (guard_session g) (store s)\<rparr>"

definition matches :: "string \<Rightarrow> string option \<Rightarrow> session_key \<Rightarrow> bool" where
  "matches account device key \<longleftrightarrow> key_account key = account \<and> (case device of None \<Rightarrow> True | Some d \<Rightarrow> key_device key = d)"

definition active_count :: "string \<Rightarrow> string option \<Rightarrow> live_sessions \<Rightarrow> nat" where
  "active_count account device s =
    sum_list (map (\<lambda>(_, active). length active) (filter (\<lambda>(key, _). matches account device key) (table s)))"

text \<open>\<open>cancel_and_drain\<close>: the snapshot under the lock, the cancellation of every session of it, and
  the wait for each of them in turn. The wait is a step of its own, taken when the first session
  that is still awaited has finished.\<close>

definition snapshot :: "string \<Rightarrow> string option \<Rightarrow> session_table \<Rightarrow> nat list" where
  "snapshot account device t =
    concat (map (\<lambda>(_, active). map snd active) (filter (\<lambda>(key, _). matches account device key) t))"

definition cancel_session :: "active_session list \<Rightarrow> nat \<Rightarrow> active_session list" where
  "cancel_session ss i = ss[i := (ss ! i)\<lparr>cancellation := True\<rparr>]"

definition begin_drain :: "string \<Rightarrow> string option \<Rightarrow> live_sessions \<Rightarrow> nat list \<times> live_sessions" where
  "begin_drain account device s =
    (let active = snapshot account device (table s)
     in (active, s\<lparr>store := foldl cancel_session (store s) active\<rparr>))"

fun drain_wait :: "nat list \<Rightarrow> live_sessions \<Rightarrow> nat list" where
  "drain_wait [] s = []"
| "drain_wait (i # rest) s = (if finished (store s ! i) then drain_wait rest s else i # rest)"

text \<open>\<open>cancel_account\<close> and \<open>cancel_device\<close> are \<open>cancel_and_drain\<close> without and with a device. A
  \<open>SessionRegistration\<close> carries its guard until \<open>into_parts\<close> takes it out (a second time is a
  panic, \<open>None\<close>) or \<open>finish\<close> drops it.\<close>

record session_registration =
  reg_cancellation :: nat
  reg_guard :: "session_guard option"

definition registration :: "session_guard \<Rightarrow> session_registration" where
  "registration g = \<lparr>reg_cancellation = guard_session g, reg_guard = Some g\<rparr>"

definition into_parts :: "session_registration \<Rightarrow> (nat \<times> session_guard) option" where
  "into_parts r = map_option (\<lambda>g. (reg_cancellation r, g)) (reg_guard r)"

definition finish_registration :: "session_registration \<Rightarrow> live_sessions \<Rightarrow> live_sessions" where
  "finish_registration r s = (case reg_guard r of None \<Rightarrow> s | Some g \<Rightarrow> drop_guard g s)"

definition cancel_account :: "string \<Rightarrow> live_sessions \<Rightarrow> nat list \<times> live_sessions" where
  "cancel_account account s = begin_drain account None s"

definition cancel_device :: "string \<Rightarrow> string \<Rightarrow> live_sessions \<Rightarrow> nat list \<times> live_sessions" where
  "cancel_device account device s = begin_drain account (Some device) s"

subsection \<open>The table as a multiset of entries\<close>

definition tagged :: "session_key \<Rightarrow> (u64 \<times> nat) list \<Rightarrow> session_guard multiset" where
  "tagged k m = image_mset (\<lambda>(i, r). \<lparr>guard_key = k, guard_id = i, guard_session = r\<rparr>) (mset m)"

definition entries :: "session_table \<Rightarrow> session_guard multiset" where
  "entries t = (\<Sum>(k, m) \<in># mset t. tagged k m)"

lemma mset_delete:
  assumes "distinct (map fst xs)" and "map_of xs k = Some v"
  shows "mset xs = add_mset (k, v) (mset (AList.delete k xs))"
  using assms
proof (induction xs)
  case (Cons x xs)
  show ?case
  proof (cases "fst x = k")
    case True
    then have "AList.delete k xs = xs" using Cons.prems by (simp add: delete_id)
    then show ?thesis using True Cons.prems by (cases x) auto
  next
    case False
    then show ?thesis using Cons by (cases x) auto
  qed
qed simp

lemma mset_update:
  assumes "distinct (map fst xs)"
  shows "mset (AList.update k v xs) = add_mset (k, v) (mset (AList.delete k xs))"
  using assms
proof (induction xs)
  case (Cons x xs)
  show ?case
  proof (cases "fst x = k")
    case True
    then have "AList.delete k xs = xs" using Cons.prems by (simp add: delete_id)
    then show ?thesis using True by (cases x) auto
  next
    case False
    then show ?thesis using Cons by (cases x) auto
  qed
qed simp

lemma map_of_in: "map_of t k = Some m \<Longrightarrow> (k, m) \<in> set t"
  by (rule map_of_SomeD)

lemma entries_update: "distinct (map fst t) \<Longrightarrow> entries (AList.update k m t) = tagged k m + entries (AList.delete k t)"
  by (simp add: entries_def mset_update)

lemma entries_split:
  "distinct (map fst t) \<Longrightarrow> map_of t k = Some m \<Longrightarrow> entries t = tagged k m + entries (AList.delete k t)"
  by (simp add: entries_def mset_delete [of t k m])

lemma entries_absent: "map_of t k = None \<Longrightarrow> entries (AList.delete k t) = entries t"
  by (simp add: delete_id map_of_eq_None_iff)

lemma tagged_simps [simp]: "tagged k [] = {#}"
  by (simp add: tagged_def)

lemma tagged_update: "distinct (map fst m) \<Longrightarrow> tagged k (AList.update i r m) =
    add_mset \<lparr>guard_key = k, guard_id = i, guard_session = r\<rparr> (tagged k (AList.delete i m))"
  by (simp add: tagged_def mset_update)

lemma tagged_delete: "distinct (map fst m) \<Longrightarrow> map_of m i = Some r \<Longrightarrow>
    tagged k m = add_mset \<lparr>guard_key = k, guard_id = i, guard_session = r\<rparr> (tagged k (AList.delete i m))"
  by (simp add: tagged_def mset_delete [of m i r])

lemma in_entries: "g \<in># entries t \<longleftrightarrow> (\<exists>m. (guard_key g, m) \<in> set t \<and> (guard_id g, guard_session g) \<in> set m)"
proof -
  have "g \<in># tagged k m \<longleftrightarrow> guard_key g = k \<and> (guard_id g, guard_session g) \<in> set m" for k m
    by (cases g) (force simp: tagged_def image_iff)
  then show ?thesis by (force simp: entries_def)
qed

lemma set_update_pairs: "distinct (map fst xs) \<Longrightarrow> set (AList.update k v xs) = insert (k, v) {x \<in> set xs. fst x \<noteq> k}"
proof -
  assume "distinct (map fst xs)"
  then have "set (AList.update k v xs) = insert (k, v) (set (AList.delete k xs))"
    using mset_update [of xs k v] by (metis set_mset_add_mset_insert set_mset_mset)
  then show ?thesis by (auto simp: AList.delete_eq)
qed

definition table_ok :: "session_table \<Rightarrow> bool" where
  "table_ok t \<longleftrightarrow> distinct (map fst t) \<and> (\<forall>(k, m) \<in> set t. m \<noteq> [] \<and> distinct (map fst m))"

lemma table_ok_update:
  "table_ok t \<Longrightarrow> m \<noteq> [] \<Longrightarrow> distinct (map fst m) \<Longrightarrow> table_ok (AList.update k m t)"
  by (auto simp: table_ok_def distinct_update set_update_pairs)

lemma table_ok_delete: "table_ok t \<Longrightarrow> table_ok (AList.delete k t)"
  by (auto simp: table_ok_def AList.delete_eq distinct_map_filter)

lemma remove_entry_entries:
  assumes ok: "table_ok t" and g: "g \<in># entries t"
  shows "entries t = add_mset g (entries (remove_entry g t))" and "table_ok (remove_entry g t)"
proof -
  have dist: "distinct (map fst t)" using ok by (simp add: table_ok_def)
  obtain m where m: "(guard_key g, m) \<in> set t" "(guard_id g, guard_session g) \<in> set m" using g by (auto simp: in_entries)
  then have look: "map_of t (guard_key g) = Some m" using dist by simp
  have md: "distinct (map fst m)" using m(1) ok by (auto simp: table_ok_def)
  let ?left = "AList.delete (guard_id g) m"
  have tag: "tagged (guard_key g) m = add_mset g (tagged (guard_key g) ?left)"
    using tagged_delete [OF md, of "guard_id g" "guard_session g" "guard_key g"] m(2) md by simp
  have rem: "remove_entry g t = (if ?left = [] then AList.delete (guard_key g) t else AList.update (guard_key g) ?left t)"
    by (simp add: remove_entry_def look Let_def)
  show "entries t = add_mset g (entries (remove_entry g t))"
    using entries_split [OF dist look] tag entries_update [OF dist, of "guard_key g" ?left] by (auto simp: rem)
  show "table_ok (remove_entry g t)"
    using table_ok_delete [OF ok] table_ok_update [OF ok] md by (auto simp: rem distinct_delete)
qed

lemma register_entries:
  assumes ok: "table_ok (table s)" and reg: "register_session a d s = (g, s')"
    and fresh: "\<And>g. g \<in># entries (table s) \<Longrightarrow> guard_id g \<noteq> next_id s"
  shows "entries (table s') = add_mset g (entries (table s))" and "table_ok (table s')"
proof -
  let ?k = "\<lparr>key_account = a, key_device = d\<rparr>" and ?t = "table s"
  let ?m = "case map_of ?t ?k of None \<Rightarrow> [] | Some m \<Rightarrow> m"
  have dist: "distinct (map fst ?t)" using ok by (simp add: table_ok_def)
  have g: "g = \<lparr>guard_key = ?k, guard_id = next_id s, guard_session = length (store s)\<rparr>"
    and t': "table s' = AList.update ?k (AList.update (next_id s) (length (store s)) ?m) ?t"
    using reg by (auto simp: register_session_def Let_def)
  have md: "distinct (map fst ?m)" using ok by (auto simp: table_ok_def dest!: map_of_SomeD split: option.split)
  have "next_id s \<notin> fst ` set ?m"
  proof
    assume "next_id s \<in> fst ` set ?m"
    then obtain r m where "map_of ?t ?k = Some m" "(next_id s, r) \<in> set m"
      by (cases "map_of ?t ?k") auto
    then have "\<lparr>guard_key = ?k, guard_id = next_id s, guard_session = r\<rparr> \<in># entries ?t"
      by (auto simp: in_entries dest: map_of_SomeD)
    then show False using fresh by fastforce
  qed
  then have new: "tagged ?k (AList.update (next_id s) (length (store s)) ?m) = add_mset g (tagged ?k ?m)"
    using tagged_update [OF md] g by (simp add: delete_id)
  have "entries ?t = tagged ?k ?m + entries (AList.delete ?k ?t)"
    using entries_split [OF dist] entries_absent [of ?t ?k] by (auto split: option.split)
  then show "entries (table s') = add_mset g (entries ?t)"
    unfolding t' entries_update [OF dist] new by simp
  show "table_ok (table s')"
    unfolding t' by (rule table_ok_update [OF ok]) (simp_all add: md distinct_update)
qed

subsection \<open>Runs of the table and the guards\<close>

record live_system =
  live :: live_sessions
  guards :: "session_guard multiset"

inductive live_step :: "live_system \<Rightarrow> live_system \<Rightarrow> bool" where
  open_session:
    "alive s \<Longrightarrow> register_session a d s = (g, s') \<Longrightarrow>
     live_step \<lparr>live = s, guards = gs\<rparr> \<lparr>live = s', guards = add_mset g gs\<rparr>"
| close_session:
    "live_step \<lparr>live = s, guards = add_mset g gs\<rparr> \<lparr>live = drop_guard g s, guards = gs\<rparr>"
| cancel:
    "alive s \<Longrightarrow> begin_drain a d s = (waiting, s') \<Longrightarrow>
     live_step \<lparr>live = s, guards = gs\<rparr> \<lparr>live = s', guards = gs\<rparr>"
| table_dropped:
    "live_step \<lparr>live = s, guards = gs\<rparr> \<lparr>live = s\<lparr>alive := False\<rparr>, guards = gs\<rparr>"

abbreviation holders :: "nat \<Rightarrow> session_guard multiset \<Rightarrow> session_guard multiset" where
  "holders r gs \<equiv> filter_mset (\<lambda>g. guard_session g = r) gs"

definition live_inv :: "live_system \<Rightarrow> bool" where
  "live_inv sys \<longleftrightarrow>
    (alive (live sys) \<longrightarrow> table_ok (table (live sys)) \<and> entries (table (live sys)) = guards sys)
    \<and> next_id (live sys) = of_nat (Suc (length (store (live sys))))
    \<and> (\<forall>g \<in># guards sys. guard_session g < length (store (live sys)) \<and> guard_id g = of_nat (Suc (guard_session g)))
    \<and> (\<forall>r < length (store (live sys)).
         size (holders r (guards sys)) = (if finished (store (live sys) ! r) then 0 else 1))"

lemma store_cancelled:
  "length (foldl cancel_session ss is) = length ss"
  "finished (foldl cancel_session ss is ! r) = finished (ss ! r)"
proof -
  show "length (foldl cancel_session ss is) = length ss"
    by (induction "is" arbitrary: ss) (simp_all add: cancel_session_def)
  have one: "finished (cancel_session ss i ! r) = finished (ss ! r)" for ss i
    by (cases "i < length ss") (auto simp: cancel_session_def nth_list_update list_update_beyond)
  show "finished (foldl cancel_session ss is ! r) = finished (ss ! r)"
    by (induction "is" arbitrary: ss) (simp_all add: one)
qed

lemma next_id_fresh:
  assumes "live_inv sys" and "alive (live sys)" and "Suc (length (store (live sys))) < 2 ^ 64"
    and "g \<in># entries (table (live sys))"
  shows "guard_id g \<noteq> next_id (live sys)"
proof
  assume eq: "guard_id g = next_id (live sys)"
  let ?n = "length (store (live sys))"
  have g: "guard_session g < ?n" "guard_id g = of_nat (Suc (guard_session g))" and n: "next_id (live sys) = of_nat (Suc ?n)"
    using assms by (auto simp: live_inv_def)
  have "unat (of_nat (Suc (guard_session g)) :: u64) = unat (of_nat (Suc ?n) :: u64)" using eq g(2) n by metis
  then show False using g(1) assms(3) by (simp add: unat_of_nat del: of_nat_Suc)
qed

lemma live_inv_step:
  "live_step sys sys' \<Longrightarrow> length (store (live sys')) < 2 ^ 64 - 1 \<Longrightarrow> live_inv sys \<Longrightarrow> live_inv sys'"
proof (induction rule: live_step.induct)
  case (open_session s a d g s' gs)
  note inv = open_session.prems(2) [unfolded live_inv_def, simplified]
  have s': "store s' = store s @ [\<lparr>cancellation = False, finished = False\<rparr>]" "next_id s' = next_id s + 1" "alive s'"
    and g: "guard_session g = length (store s)" "guard_id g = next_id s"
    using open_session.hyps by (auto simp: register_session_def Let_def)
  have "guard_id h \<noteq> next_id s" if "h \<in># entries (table s)" for h
    using next_id_fresh [OF open_session.prems(2)] open_session.hyps(1) open_session.prems(1) s' that by simp
  from register_entries [OF _ open_session.hyps(2) this] inv open_session.hyps(1)
  have t: "entries (table s') = add_mset g gs" "table_ok (table s')" by simp_all
  have none: "holders (length (store s)) gs = {#}" using inv by auto
  show ?case using inv t s' g none by (auto simp: live_inv_def nth_append less_Suc_eq)
next
  case (close_session s g gs)
  note inv = close_session.prems(2) [unfolded live_inv_def, simplified]
  let ?r = "guard_session g"
  have r: "?r < length (store s)" using inv by simp
  have only: "\<not> finished (store s ! ?r)" "holders ?r gs = {#}" using inv r by (auto split: if_splits)
  have t: "entries (remove_entry g (table s)) = gs" "table_ok (remove_entry g (table s))" if "alive s"
    using inv that remove_entry_entries [of "table s" g] by auto
  have "size (holders i gs) = (if finished (mark_finished ?r (store s) ! i) then 0 else 1)" if "i < length (store s)" for i
  proof (cases "i = ?r")
    case False
    have "size (holders i (add_mset g gs)) = (if finished (store s ! i) then 0 else 1)"
      using close_session.prems(2) that unfolding live_inv_def by simp
    then show ?thesis using False by (simp add: mark_finished_def)
  qed (use only r in \<open>simp add: mark_finished_def\<close>)
  moreover have "length (mark_finished ?r (store s)) = length (store s)" by (simp add: mark_finished_def)
  ultimately show ?case
    using inv t by (auto simp: live_inv_def drop_guard_def simp del: filter_mset_eq_mempty_iff size_eq_0_iff_empty)
next
  case (cancel s a d waiting s' gs)
  then have "s' = s\<lparr>store := foldl cancel_session (store s) (snapshot a d (table s))\<rparr>"
    by (auto simp: begin_drain_def Let_def)
  then show ?case using cancel.prems(2) by (simp add: live_inv_def store_cancelled)
next
  case (table_dropped s gs)
  then show ?case by (simp add: live_inv_def)
qed

definition live_start :: live_system where
  "live_start = \<lparr>live = default_live, guards = {#}\<rparr>"

lemma live_step_store: "live_step s s' \<Longrightarrow> length (store (live s)) \<le> length (store (live s'))"
  by (induction rule: live_step.induct)
    (auto simp: register_session_def begin_drain_def drop_guard_def mark_finished_def store_cancelled Let_def)

lemma live_inv_steps:
  "live_step\<^sup>*\<^sup>* s s' \<Longrightarrow> live_inv s \<Longrightarrow> length (store (live s')) < 2 ^ 64 - 1 \<Longrightarrow> live_inv s'"
proof (induction rule: rtranclp_induct)
  case (step y z)
  have "length (store (live y)) < 2 ^ 64 - 1" using live_step_store [OF step.hyps(2)] step.prems(2) by simp
  then show ?case using live_inv_step [OF step.hyps(2) step.prems(2)] step.IH step.prems(1) by blast
qed

lemma live_inv_start: "live_inv live_start"
  by (simp add: live_inv_def live_start_def default_live_def table_ok_def entries_def)

lemma live_reachable_inv:
  "live_step\<^sup>*\<^sup>* live_start s \<Longrightarrow> length (store (live s)) < 2 ^ 64 - 1 \<Longrightarrow> live_inv s"
  using live_inv_steps [OF _ live_inv_start] .

abbreviation in_scope :: "string \<Rightarrow> string option \<Rightarrow> session_guard multiset \<Rightarrow> session_guard multiset" where
  "in_scope a d gs \<equiv> filter_mset (\<lambda>g. matches a d (guard_key g)) gs"

lemma in_scope_tagged: "in_scope a d (tagged k m) = (if matches a d k then tagged k m else {#})"
  by (induction m) (auto simp: tagged_def)

lemma snapshot_entries: "mset (snapshot a d t) = image_mset guard_session (in_scope a d (entries t))"
proof (induction t)
  case (Cons x t)
  have "image_mset guard_session (tagged (fst x) (snd x)) = mset (map snd (snd x))"
    by (auto simp: tagged_def multiset.map_comp comp_def case_prod_unfold)
  then show ?case using Cons.IH by (cases x) (auto simp: snapshot_def entries_def in_scope_tagged)
qed (simp add: snapshot_def entries_def)

lemma active_count_snapshot: "active_count a d s = length (snapshot a d (table s))"
  by (simp add: active_count_def snapshot_def length_concat comp_def case_prod_unfold)

lemma active_count_entries: "active_count a d s = size (in_scope a d (entries (table s)))"
  by (metis active_count_snapshot size_image_mset size_mset snapshot_entries)

text \<open>C22: the table of live sessions is exact at all times: the count of an account, or of one of its
  devices, is the number of guards that are held for it, and a table without guards is empty.\<close>

theorem live_sessions_exact:
  assumes "live_step\<^sup>*\<^sup>* live_start s" and "length (store (live s)) < 2 ^ 64 - 1" and "alive (live s)"
  shows "active_count a d (live s) = size (in_scope a d (guards s)) \<and> (guards s = {#} \<longrightarrow> table (live s) = [])"
proof -
  have "entries (table (live s)) = guards s" and ok: "table_ok (table (live s))"
    using live_reachable_inv [OF assms(1,2)] assms(3) by (simp_all add: live_inv_def)
  moreover have "table (live s) = []" if empty: "entries (table (live s)) = {#}"
  proof (cases "table (live s)")
    case (Cons x t)
    then obtain y ys where "snd x = y # ys" using ok by (cases "snd x") (auto simp: table_ok_def case_prod_unfold)
    then show ?thesis using Cons empty by (cases x) (simp add: entries_def tagged_def)
  qed simp
  ultimately show ?thesis by (simp add: active_count_entries)
qed

lemma drain_wait_done: "drain_wait ws s = [] \<longleftrightarrow> (\<forall>r \<in> set ws. finished (store s ! r))"
  by (induction ws) auto

lemma finished_step:
  "live_step s s' \<Longrightarrow> r < length (store (live s)) \<Longrightarrow> finished (store (live s) ! r) \<Longrightarrow> finished (store (live s') ! r)"
proof (induction rule: live_step.induct)
  case (close_session s g gs)
  then show ?case by (cases "guard_session g = r") (simp_all add: drop_guard_def mark_finished_def)
qed (auto simp: register_session_def begin_drain_def store_cancelled Let_def nth_append)

text \<open>A wait that has passed some sessions does not have to look at them again.\<close>

lemma drain_wait_resume:
  "live_step s s' \<Longrightarrow> \<forall>r \<in> set ws. r < length (store (live s)) \<Longrightarrow>
    drain_wait (drain_wait ws (live s)) (live s') = drain_wait ws (live s')"
  by (induction ws) (auto dest: finished_step)

lemma finished_iff:
  assumes "live_inv s" and "r < length (store (live s))"
  shows "finished (store (live s) ! r) \<longleftrightarrow> (\<forall>g \<in># guards s. guard_session g \<noteq> r)"
proof -
  have "size (holders r (guards s)) = (if finished (store (live s) ! r) then 0 else 1)"
    using assms unfolding live_inv_def by blast
  then have "finished (store (live s) ! r) \<longleftrightarrow> holders r (guards s) = {#}"
    by (metis size_empty size_eq_0_iff_empty zero_neq_one)
  then show ?thesis by auto
qed

lemma live_steps_store: "live_step\<^sup>*\<^sup>* s s' \<Longrightarrow> length (store (live s)) \<le> length (store (live s'))"
  by (induction rule: rtranclp_induct) (auto dest: live_step_store)

text \<open>A guard is determined by its session, and sessions of the past are not handed out again.\<close>

lemma guard_unique:
  assumes "live_inv s" and "g \<in># guards s" and "h \<in># guards s" and "guard_session h = guard_session g"
  shows "h = g"
proof -
  let ?m = "holders (guard_session g) (guards s)"
  have "guard_session g < length (store (live s))" using assms(1,2) by (auto simp: live_inv_def)
  then have "size ?m = (if finished (store (live s) ! guard_session g) then 0 else 1)"
    using assms(1) unfolding live_inv_def by blast
  moreover have "g \<in># ?m" "h \<in># ?m" using assms by simp_all
  ultimately have "size ?m = 1" by (metis empty_iff set_mset_empty size_eq_0_iff_empty)
  then obtain x where "?m = {#x#}" using size_1_singleton_mset by metis
  then have "g \<in># {#x#}" "h \<in># {#x#}" using \<open>g \<in># ?m\<close> \<open>h \<in># ?m\<close> by metis+
  then show ?thesis by simp
qed

lemma old_guards:
  "live_step\<^sup>*\<^sup>* s s' \<Longrightarrow> h \<in># guards s' \<Longrightarrow> h \<in># guards s \<or> length (store (live s)) \<le> guard_session h"
proof (induction rule: rtranclp_induct)
  case (step y z)
  have "h \<in># guards y \<or> guard_session h = length (store (live y))"
    using step.hyps(2) step.prems by (cases rule: live_step.cases) (auto simp: register_session_def Let_def)
  then show ?case using step.IH live_steps_store [OF step.hyps(1)] by auto
qed simp

text \<open>C12: cancelling the sessions of an account or a device returns when, and only when, every guard
  that was held for it at the snapshot has been dropped, and it reports how many those were.
  Sessions opened in the meantime do not delay it.\<close>

theorem drain_waits_for_its_sessions:
  assumes "live_step\<^sup>*\<^sup>* live_start s" and "alive (live s)" and "begin_drain a d (live s) = (waiting, l)"
    and "live_step\<^sup>*\<^sup>* \<lparr>live = l, guards = guards s\<rparr> s'" and "length (store (live s')) < 2 ^ 64 - 1"
  shows "(drain_wait waiting (live s') = [] \<longleftrightarrow> (\<forall>g \<in># in_scope a d (guards s). g \<notin># guards s'))
    \<and> length waiting = active_count a d (live s)"
proof -
  have waiting: "waiting = snapshot a d (table (live s))" and l: "store l = foldl cancel_session (store (live s)) waiting"
    using assms(3) by (auto simp: begin_drain_def Let_def)
  then have count: "length waiting = active_count a d (live s)" by (simp add: active_count_snapshot)
  have grows: "length (store (live s)) \<le> length (store (live s'))"
    using live_steps_store [OF assms(4)] l by (simp add: store_cancelled)
  then have inv: "live_inv s" using live_reachable_inv [OF assms(1)] assms(5) by simp
  have "live_step s \<lparr>live = l, guards = guards s\<rparr>"
    using live_step.cancel [OF assms(2,3)] by (cases s) simp
  then have inv': "live_inv s'"
    using live_inv_steps [OF converse_rtranclp_into_rtranclp [OF _ assms(4)] inv assms(5)] by blast
  have scope: "set waiting = guard_session ` set_mset (in_scope a d (guards s))"
    using snapshot_entries [of a d "table (live s)"] inv assms(2) waiting
    by (metis live_inv_def set_image_mset set_mset_mset)
  have known: "guard_session g < length (store (live s'))" if "g \<in># guards s" for g
    using inv that grows by (fastforce simp: live_inv_def)
  have same: "h = g" if "g \<in># guards s" "h \<in># guards s'" "guard_session h = guard_session g" for g h
  proof (rule guard_unique [OF inv that(1) _ that(3)])
    have "guard_session h < length (store (live s))" using inv that(1,3) by (auto simp: live_inv_def)
    then show "h \<in># guards s" using old_guards [OF assms(4) that(2)] l by (auto simp: store_cancelled)
  qed
  have "drain_wait waiting (live s') = [] \<longleftrightarrow> (\<forall>g \<in># in_scope a d (guards s). g \<notin># guards s')"
    using scope known same finished_iff [OF inv'] by (auto simp: drain_wait_done) metis+
  then show ?thesis using count by blast
qed

lemma cancelled_fold:
  assumes "r < length ss" and "set is \<subseteq> {..<length ss}"
  shows "cancellation (foldl cancel_session ss is ! r) \<longleftrightarrow> cancellation (ss ! r) \<or> r \<in> set is"
  using assms
proof (induction "is" arbitrary: ss)
  case (Cons i "is")
  have "cancellation (cancel_session ss i ! r) \<longleftrightarrow> cancellation (ss ! r) \<or> r = i"
    using Cons.prems by (cases "i = r") (auto simp: cancel_session_def)
  moreover have "length (cancel_session ss i) = length ss" by (simp add: cancel_session_def)
  ultimately show ?case using Cons by auto
qed simp

text \<open>a cancellation reaches exactly the sessions of its account (and device): the token of every
  held guard in its scope is set, and no other token changes.\<close>

theorem cancellation_scope:
  assumes "live_step\<^sup>*\<^sup>* live_start s" and "length (store (live s)) < 2 ^ 64 - 1" and "alive (live s)"
    and "begin_drain a d (live s) = (waiting, l)" and "g \<in># guards s"
  shows "cancellation (store l ! guard_session g) \<longleftrightarrow>
    cancellation (store (live s) ! guard_session g) \<or> matches a d (guard_key g)"
proof -
  have inv: "live_inv s" by (rule live_reachable_inv [OF assms(1,2)])
  have l: "store l = foldl cancel_session (store (live s)) waiting" and w: "waiting = snapshot a d (table (live s))"
    using assms(4) by (auto simp: begin_drain_def Let_def)
  have scope: "set waiting = guard_session ` set_mset (in_scope a d (guards s))"
    using snapshot_entries [of a d "table (live s)"] inv assms(3) w by (metis live_inv_def set_image_mset set_mset_mset)
  have bound: "guard_session h < length (store (live s))" if "h \<in># guards s" for h
    using inv that by (auto simp: live_inv_def)
  have "guard_session g \<in> set waiting \<longleftrightarrow>
      (\<exists>h. h \<in># guards s \<and> matches a d (guard_key h) \<and> guard_session h = guard_session g)"
    unfolding scope by (auto simp: image_iff)
  then have "guard_session g \<in> set waiting \<longleftrightarrow> matches a d (guard_key g)"
    using guard_unique [OF inv assms(5)] assms(5) by blast
  moreover have "set waiting \<subseteq> {..<length (store (live s))}" using scope bound by auto
  ultimately show ?thesis unfolding l using cancelled_fold [OF bound [OF assms(5)]] by blast
qed

subsection \<open>Examples\<close>

definition example_guard :: session_guard where
  "example_guard = \<lparr>guard_key = \<lparr>key_account = ''alice'', key_device = ''d1''\<rparr>, guard_id = 1, guard_session = 0\<rparr>"

definition example_open :: live_system where
  "example_open = \<lparr>live = snd (register_session ''alice'' ''d1'' default_live), guards = {#example_guard#}\<rparr>"

lemma example_open_reachable: "live_step\<^sup>*\<^sup>* live_start example_open"
proof -
  have "live_step live_start example_open"
    unfolding live_start_def example_open_def
    by (rule live_step.open_session [of _ "''alice''" "''d1''"])
      (simp_all add: default_live_def register_session_def example_guard_def Let_def)
  then show ?thesis by simp
qed

lemma example_open_fields [simp]:
  "length (store (live example_open)) = 1" "alive (live example_open)" "guards example_open = {#example_guard#}"
  by (simp_all add: example_open_def register_session_def default_live_def Let_def)

theorem live_sessions_exact_witness:
  "active_count ''alice'' None (live example_open) = 1 \<and> active_count ''bob'' None (live example_open) = 0"
  using live_sessions_exact [OF example_open_reachable, of "''alice''" None]
    live_sessions_exact [OF example_open_reachable, of "''bob''" None]
  by (simp add: matches_def example_guard_def)

definition example_draining :: live_sessions where
  "example_draining = snd (begin_drain ''alice'' None (live example_open))"

lemma example_drain: "begin_drain ''alice'' None (live example_open) = ([0], example_draining)"
proof -
  have "fst (begin_drain ''alice'' None (live example_open)) = [0]" by code_simp
  then show ?thesis by (simp add: example_draining_def prod_eq_iff)
qed

theorem cancellation_scope_witness: "cancellation (store example_draining ! 0)"
  using cancellation_scope [OF example_open_reachable _ _ example_drain, of example_guard]
  by (simp add: matches_def example_guard_def)

theorem drain_waits_for_its_sessions_witness:
  "drain_wait [0] example_draining \<noteq> [] \<and> drain_wait [0] (drop_guard example_guard example_draining) = []"
proof -
  have len: "length (store example_draining) = 1" "length (store (drop_guard example_guard example_draining)) = 1"
    by code_simp+
  have in_alice: "matches ''alice'' None (guard_key example_guard)" by code_simp
  have drop: "live_step\<^sup>*\<^sup>* \<lparr>live = example_draining, guards = guards example_open\<rparr>
      \<lparr>live = drop_guard example_guard example_draining, guards = {#}\<rparr>"
    using live_step.close_session [of example_draining example_guard "{#}"] by simp
  show ?thesis
    using drain_waits_for_its_sessions [OF example_open_reachable _ example_drain drop, THEN conjunct1]
      drain_waits_for_its_sessions [OF example_open_reachable _ example_drain rtranclp.rtrancl_refl, THEN conjunct1] in_alice
    by (simp add: len del: drain_wait.simps)
qed

end
