(* ===== verification/H2_Lane.thy ===== *)
theory H2_Lane
  imports Wire_Ip Wire_Frame Fifo_Spec
begin

text \<open>
  The packet streams of an HTTP/2 lane: how the client frames the batches it takes from its upload
  queue and hands them to the h2 stream (\<open>upload_lane\<close>, \<open>send_h2_data\<close> of
  porta-client/src/tunnel/h2.rs), how the server takes the packets out of the body again and injects
  them (\<open>consume_uploads\<close>, \<open>run_tunnel\<close> of porta-server/src/transport/http2.rs), how it batches the
  downlink (\<open>frame_downlink_batch\<close>), and how the client reads that (\<open>download_lane\<close>).

  The \<open>h2\<close> and \<open>hyper\<close> streams are what they yield: capacities, chunks of data, ends and errors. The
  trait objects behind a session (\<open>PacketRouter\<close>, \<open>PacketSource\<close>, the channel to the tun device) are
  functions on a state of their own; the calls of \<open>Metrics\<close> and \<open>UsageSession\<close> are recorded.
\<close>

definition UPLOAD_BATCH_PACKETS :: nat where "UPLOAD_BATCH_PACKETS = 16"
definition UPLOAD_BATCH_BYTES :: nat where "UPLOAD_BATCH_BYTES = 16384"
definition PACKET_BATCH :: nat where "PACKET_BATCH = 16"
definition BATCH_BYTES :: nat where "BATCH_BYTES = 16384"

datatype client_error = ClientClosed | Retryable string | Permanent string

datatype session_call =
    ReceivedFromClient | DroppedFromClient | SentToClient | Uploaded nat nat | Downloaded nat nat
  | MtuFragmented | MtuIcmpSent | MtuIcmpRateLimited | MtuIcmpSuppressed | InvalidTun
  | DatagramOversize | DatagramMtuReduced

subsection \<open>The client's side of the uplink\<close>

fun frame_batch :: "bytes \<Rightarrow> bytes list \<Rightarrow> client_error + bytes" where
  "frame_batch framed [] = Ok framed"
| "frame_batch framed (packet # batch) =
    (if length packet > 65535 then Err (Permanent ''packet exceeds HTTP/2 frame size'')
     else frame_batch (framed @ u16_to_be_bytes (u16_of (length packet)) @ packet) batch)"

text \<open>What \<open>poll_capacity\<close> yields (with a failing \<open>send_data\<close> after it), or the cancellation of the group. \<open>send_h2_data\<close> returns its result
  once it is done (\<open>None\<close> while it waits), the data left and the chunks it has handed to the stream.\<close>

datatype capacity_event = CapacityIs nat | SendFailed nat string | StreamClosed | CapacityFailed string | GroupCancelled

fun send_h2_data :: "capacity_event list \<Rightarrow> bytes \<Rightarrow> bytes list \<Rightarrow> (client_error + unit) option \<times> bytes \<times> bytes list" where
  "send_h2_data [] data sent = (if data = [] then Some (Ok ()) else None, data, sent)"
| "send_h2_data (ev # evs) data sent =
    (if data = [] then (Some (Ok ()), data, sent)
     else case ev of
       GroupCancelled \<Rightarrow> (Some (Err ClientClosed), data, sent)
     | StreamClosed \<Rightarrow> (Some (Err (Retryable ''HTTP/2 upload stream closed'')), data, sent)
     | CapacityFailed e \<Rightarrow> (Some (Err (Retryable e)), data, sent)
     | SendFailed n e \<Rightarrow> (Some (Err (Retryable e)), drop (min n (length data)) data, sent)
     | CapacityIs n \<Rightarrow>
         let len = min n (length data) in send_h2_data evs (drop len data) (sent @ [take len data]))"

text \<open>\<open>upload_lane\<close> over the batches that \<open>take_batch\<close> yields, with the events of the stream for each.\<close>

fun upload_lane :: "(bytes list \<times> capacity_event list) list \<Rightarrow> bytes list \<Rightarrow> (client_error + unit) option \<times> bytes list" where
  "upload_lane [] sent = (None, sent)"
| "upload_lane ((batch, evs) # rest) sent =
    (case frame_batch [] batch of
       Err e \<Rightarrow> (Some (Err e), sent)
     | Ok framed \<Rightarrow>
         (case send_h2_data evs framed sent of
            (Some (Ok _), _, sent') \<Rightarrow> upload_lane rest sent'
          | (r, _, sent') \<Rightarrow> (r, sent')))"

subsection \<open>The server's side\<close>

text \<open>The packets that the server lets through: not above the MTU, valid IPv4, from the lease.\<close>

function consume_uploads ::
  "('r \<Rightarrow> bytes \<Rightarrow> ('e + unit) \<times> 'r) \<Rightarrow> ipv4_addr \<Rightarrow> nat \<Rightarrow> bytes \<Rightarrow> 'r \<Rightarrow> session_call list
    \<Rightarrow> ('e + unit) \<times> bytes \<times> 'r \<times> session_call list" where
  "consume_uploads inject lease mtu input r calls =
    (if length input < 2 then (Ok (), input, r, calls)
     else
       let size = unat (u16_from_be_bytes (input ! 0) (input ! 1)) in
       if length input < size + 2 then (Ok (), input, r, calls)
       else if size = 0 then consume_uploads inject lease mtu (drop 2 input) r calls
       else
         let packet = take size (drop 2 input);
             rest = drop (size + 2) input in
         if size > mtu then consume_uploads inject lease mtu rest r (calls @ [DroppedFromClient])
         else case parse_ipv4 packet of
           Err _ \<Rightarrow> consume_uploads inject lease mtu rest r (calls @ [DroppedFromClient])
         | Ok info \<Rightarrow>
             if info_source info \<noteq> lease then consume_uploads inject lease mtu rest r (calls @ [DroppedFromClient])
             else (case inject r packet of
                 (Err e, r') \<Rightarrow> (Err e, rest, r', calls)
               | (Ok _, r') \<Rightarrow> consume_uploads inject lease mtu rest r'
                   (calls @ [ReceivedFromClient, Uploaded (length packet) 1])))"
  by pat_completeness auto
termination by (relation "measure (\<lambda>(_, _, _, input, _, _). length input)") auto

declare consume_uploads.simps [simp del]

text \<open>The loop of \<open>frame_downlink_batch\<close>: at least the first packet, then whatever is queued until
  the batch is full.\<close>

function downlink_batch_loop ::
  "('q \<Rightarrow> bytes option \<times> 'q) \<Rightarrow> nat \<Rightarrow> nat \<Rightarrow> bytes \<Rightarrow> bytes \<Rightarrow> 'q \<Rightarrow> session_call list
    \<Rightarrow> bytes \<times> 'q \<times> session_call list" where
  "downlink_batch_loop try_packet count packet_bytes output packet q calls =
    (let output = output @ u16_to_be_bytes (u16_of (length packet)) @ packet;
         packet_bytes = packet_bytes + length packet;
         count = count + 1;
         calls = calls @ [SentToClient, Downloaded (length packet) 1]
     in if count \<ge> PACKET_BATCH \<or> packet_bytes \<ge> BATCH_BYTES then (output, q, calls)
        else case try_packet q of
          (None, q') \<Rightarrow> (output, q', calls)
        | (Some next, q') \<Rightarrow> downlink_batch_loop try_packet count packet_bytes output next q' calls)"
  by pat_completeness auto
termination by (relation "measure (\<lambda>(_, count, _). PACKET_BATCH - count)") auto

declare downlink_batch_loop.simps [simp del]

definition frame_downlink_batch ::
  "('q \<Rightarrow> bytes option \<times> 'q) \<Rightarrow> bytes \<Rightarrow> 'q \<Rightarrow> session_call list \<Rightarrow> bytes \<times> 'q \<times> session_call list" where
  "frame_downlink_batch try_packet first q calls = downlink_batch_loop try_packet 0 0 [] first q calls"

text \<open>The loop of \<open>run_tunnel\<close>: one step per branch of its \<open>select!\<close>. The channel to the response body
  accepts a chunk or not (\<open>sent\<close>: it is closed, or the session is cancelled meanwhile).\<close>

datatype tunnel_event =
    SessionCancelled | BodyEnd | BodyError | BodyTrailers | BodyData bytes
  | DownlinkEnd | DownlinkPacket bytes bool | KeepaliveTick bool

record ('r, 'q) tunnel =
  t_input :: bytes
  t_router :: 'r
  t_downlink :: 'q
  t_output :: "bytes list"
  t_calls :: "session_call list"

datatype 'e tunnel_end = TunnelDone | TunnelBody | TunnelRoute 'e

definition send_output :: "bool \<Rightarrow> bytes \<Rightarrow> ('r, 'q) tunnel \<Rightarrow> 'e tunnel_end option \<times> ('r, 'q) tunnel" where
  "send_output sent chunk t = (if sent then (None, t\<lparr>t_output := t_output t @ [chunk]\<rparr>) else (Some TunnelDone, t))"

fun tunnel_step ::
  "('r \<Rightarrow> bytes \<Rightarrow> ('e + unit) \<times> 'r) \<Rightarrow> ('q \<Rightarrow> bytes option \<times> 'q) \<Rightarrow> ipv4_addr \<Rightarrow> nat
    \<Rightarrow> ('r, 'q) tunnel \<Rightarrow> tunnel_event \<Rightarrow> 'e tunnel_end option \<times> ('r, 'q) tunnel" where
  "tunnel_step inject try_packet lease mtu t SessionCancelled = (Some TunnelDone, t)"
| "tunnel_step inject try_packet lease mtu t BodyEnd = (Some TunnelDone, t)"
| "tunnel_step inject try_packet lease mtu t BodyError = (Some TunnelBody, t)"
| "tunnel_step inject try_packet lease mtu t BodyTrailers = (None, t)"
| "tunnel_step inject try_packet lease mtu t (BodyData data) =
    (case consume_uploads inject lease mtu (t_input t @ data) (t_router t) (t_calls t) of
       (res, input, r, calls) \<Rightarrow>
         (case res of Err e \<Rightarrow> Some (TunnelRoute e) | Ok _ \<Rightarrow> None,
          t\<lparr>t_input := input, t_router := r, t_calls := calls\<rparr>))"
| "tunnel_step inject try_packet lease mtu t DownlinkEnd = (Some TunnelDone, t)"
| "tunnel_step inject try_packet lease mtu t (DownlinkPacket packet sent) =
    (case frame_downlink_batch try_packet packet (t_downlink t) (t_calls t) of
       (batch, q, calls) \<Rightarrow> send_output sent batch (t\<lparr>t_downlink := q, t_calls := calls\<rparr>))"
| "tunnel_step inject try_packet lease mtu t (KeepaliveTick sent) = send_output sent [0, 0] t"

fun run_tunnel ::
  "('r \<Rightarrow> bytes \<Rightarrow> ('e + unit) \<times> 'r) \<Rightarrow> ('q \<Rightarrow> bytes option \<times> 'q) \<Rightarrow> ipv4_addr \<Rightarrow> nat
    \<Rightarrow> ('r, 'q) tunnel \<Rightarrow> tunnel_event list \<Rightarrow> 'e tunnel_end option \<times> ('r, 'q) tunnel" where
  "run_tunnel inject try_packet lease mtu t [] = (None, t)"
| "run_tunnel inject try_packet lease mtu t (ev # evs) =
    (case tunnel_step inject try_packet lease mtu t ev of
       (None, t') \<Rightarrow> run_tunnel inject try_packet lease mtu t' evs
     | (Some e, t') \<Rightarrow> (Some e, t'))"

subsection \<open>The client's side of the downlink\<close>

text \<open>\<open>deliver\<close> is \<open>downstream.send\<close> raced with the cancellation: \<open>False\<close> ends the lane.\<close>

function drain_frames ::
  "('d \<Rightarrow> bytes \<Rightarrow> bool \<times> 'd) \<Rightarrow> ipv4_addr \<Rightarrow> nat \<Rightarrow> bytes \<Rightarrow> 'd \<Rightarrow> (client_error + unit) \<times> bytes \<times> 'd" where
  "drain_frames deliver address mtu framed d =
    (if length framed < 2 then (Ok (), framed, d)
     else
       let packet_length = unat (u16_from_be_bytes (framed ! 0) (framed ! 1)) in
       if length framed < packet_length + 2 then (Ok (), framed, d)
       else
         let packet = take packet_length (drop 2 framed);
             rest = drop (packet_length + 2) framed in
         if packet = [] \<or> length packet > mtu then drain_frames deliver address mtu rest d
         else case parse_ipv4 packet of
           Err _ \<Rightarrow> drain_frames deliver address mtu rest d
         | Ok info \<Rightarrow>
             if info_destination info \<noteq> address then drain_frames deliver address mtu rest d
             else (case deliver d packet of
                 (False, d') \<Rightarrow> (Err ClientClosed, rest, d')
               | (True, d') \<Rightarrow> drain_frames deliver address mtu rest d'))"
  by pat_completeness auto
termination by (relation "measure (\<lambda>(_, _, _, framed, _). length framed)") auto

declare drain_frames.simps [simp del]

text \<open>The data of the response stream; \<open>release_capacity\<close> may fail after a chunk has been taken.\<close>

datatype download_event = DownloadCancelled | DownloadEnd | DownloadError string
  | DownloadData bytes | DownloadUnreleased bytes string

fun download_lane ::
  "('d \<Rightarrow> bytes \<Rightarrow> bool \<times> 'd) \<Rightarrow> ipv4_addr \<Rightarrow> nat \<Rightarrow> download_event list \<Rightarrow> bytes \<Rightarrow> 'd
    \<Rightarrow> (client_error + unit) option \<times> bytes \<times> 'd" where
  "download_lane deliver address mtu [] framed d = (None, framed, d)"
| "download_lane deliver address mtu (ev # evs) framed d =
    (case ev of
       DownloadCancelled \<Rightarrow> (Some (Err ClientClosed), framed, d)
     | DownloadEnd \<Rightarrow>
         (Some (Err (Retryable (if framed = [] then ''HTTP/2 response stream ended'' else ''truncated HTTP/2 packet frame''))),
          framed, d)
     | DownloadError e \<Rightarrow> (Some (Err (Retryable e)), framed, d)
     | DownloadUnreleased data e \<Rightarrow> (Some (Err (Retryable e)), framed @ data, d)
     | DownloadData data \<Rightarrow>
         (case drain_frames deliver address mtu (framed @ data) d of
            (Err e, framed', d') \<Rightarrow> (Some (Err e), framed', d')
          | (Ok _, framed', d') \<Rightarrow> download_lane deliver address mtu evs framed' d'))"

subsection \<open>Frames in a buffer\<close>

text \<open>Both ends cut complete frames off the front of a buffer. The reference is the list of all complete
  frames and what is left; it does not depend on how the buffer was filled.\<close>

function split_frames :: "bytes \<Rightarrow> bytes list \<times> bytes" where
  "split_frames input =
    (if length input < 2 then ([], input)
     else
       let size = unat (u16_from_be_bytes (input ! 0) (input ! 1)) in
       if length input < size + 2 then ([], input)
       else case split_frames (drop (size + 2) input) of
         (packets, rest) \<Rightarrow> (take size (drop 2 input) # packets, rest))"
  by pat_completeness auto
termination by (relation "measure length") auto

declare split_frames.simps [simp del]

definition frame_size :: "bytes \<Rightarrow> nat" where
  "frame_size input = unat (u16_from_be_bytes (input ! 0) (input ! 1))"

lemma split_frames_incomplete [simp]:
  "length input < 2 \<Longrightarrow> split_frames input = ([], input)"
  "2 \<le> length input \<Longrightarrow> length input < frame_size input + 2 \<Longrightarrow> split_frames input = ([], input)"
  by (simp_all add: split_frames.simps [of input] frame_size_def)

lemma split_frames_complete:
  "2 \<le> length input \<Longrightarrow> frame_size input + 2 \<le> length input \<Longrightarrow> split_frames input =
    (take (frame_size input) (drop 2 input) # fst (split_frames (drop (frame_size input + 2) input)),
     snd (split_frames (drop (frame_size input + 2) input)))"
  by (subst split_frames.simps) (auto simp: Let_def case_prod_unfold frame_size_def)

lemma split_frames_append:
  "split_frames (a @ b) = (fst (split_frames a) @ fst (split_frames (snd (split_frames a) @ b)),
     snd (split_frames (snd (split_frames a) @ b)))"
proof (induction a rule: split_frames.induct)
  case (1 a)
  show ?case
  proof (cases "2 \<le> length a \<and> frame_size a + 2 \<le> length a")
    case True
    then have same: "frame_size (a @ b) = frame_size a" by (auto simp: nth_append frame_size_def)
    have "split_frames (drop (frame_size a + 2) a @ b) =
        (fst (split_frames (drop (frame_size a + 2) a)) @ fst (split_frames (snd (split_frames (drop (frame_size a + 2) a)) @ b)),
         snd (split_frames (snd (split_frames (drop (frame_size a + 2) a)) @ b)))"
      using True by (intro "1.IH") (auto simp: frame_size_def)
    then show ?thesis
      using True split_frames_complete [of a] split_frames_complete [of "a @ b"] by (simp add: same)
  next
    case False
    then have "split_frames a = ([], a)" by (metis not_less split_frames_incomplete)
    then show ?thesis by simp
  qed
qed

lemma frame_split:
  assumes "length packet \<le> 65535"
  shows "split_frames (frame_of packet @ rest) = (packet # fst (split_frames rest), snd (split_frames rest))"
proof -
  have "frame_size (frame_of packet @ rest) = length packet"
    using assms by (simp add: frame_of_def numeral_2_eq_2 unat_u16_from_be_bytes frame_size_def)
  moreover have "length (frame_of packet) = length packet + 2" by (simp add: frame_of_def)
  moreover have "drop 2 (frame_of packet) = packet" by (simp add: frame_of_def)
  ultimately show ?thesis using split_frames_complete [of "frame_of packet @ rest"] by simp
qed

lemma frames_split:
  "list_all (\<lambda>p. length p \<le> 65535) packets \<Longrightarrow>
    split_frames (concat (map frame_of packets) @ rest) = (packets @ fst (split_frames rest), snd (split_frames rest))"
  by (induction packets) (auto simp: frame_split)

lemma frame_bytes:
  "length packet \<le> 65535 \<Longrightarrow> u16_to_be_bytes (u16_of (length packet)) @ packet = frame_of packet"
  by (simp add: u16_to_be_bytes_def frame_of_def)

lemma frame_batch_Ok:
  "frame_batch framed batch = Ok out \<longleftrightarrow>
    list_all (\<lambda>p. length p \<le> 65535) batch \<and> out = framed @ concat (map frame_of batch)"
  by (induction batch arbitrary: framed) (auto simp: frame_bytes)

subsection \<open>The uplink\<close>

text \<open>What the server accepts of the packets on the wire.\<close>

definition uplink_ok :: "ipv4_addr \<Rightarrow> nat \<Rightarrow> bytes \<Rightarrow> bool" where
  "uplink_ok lease mtu packet \<longleftrightarrow> packet \<noteq> [] \<and> length packet \<le> mtu
     \<and> (case parse_ipv4 packet of Err _ \<Rightarrow> False | Ok info \<Rightarrow> info_source info = lease)"

lemma consume_step:
  fixes inject :: "'r \<Rightarrow> bytes \<Rightarrow> ('e + unit) \<times> 'r"
  assumes "2 \<le> length input" and "frame_size input + 2 \<le> length input"
  defines "packet \<equiv> take (frame_size input) (drop 2 input)" and "rest \<equiv> drop (frame_size input + 2) input"
  shows "consume_uploads inject lease mtu input r calls =
    (if uplink_ok lease mtu packet
     then (case inject r packet of
         (Err e, r') \<Rightarrow> (Err e, rest, r', calls)
       | (Ok _, r') \<Rightarrow> consume_uploads inject lease mtu rest r' (calls @ [ReceivedFromClient, Uploaded (length packet) 1]))
     else consume_uploads inject lease mtu rest r (calls @ (if packet = [] then [] else [DroppedFromClient])))"
proof -
  let ?n = "frame_size input"
  have len: "length (take ?n (drop 2 input)) = ?n" using assms(2) by simp
  then have empty: "take ?n (drop 2 input) = [] \<longleftrightarrow> ?n = 0" by (metis length_0_conv)
  have once: "consume_uploads inject lease mtu input r calls =
    (if ?n = 0 then consume_uploads inject lease mtu (drop 2 input) r calls
     else if ?n > mtu then consume_uploads inject lease mtu (drop (?n + 2) input) r (calls @ [DroppedFromClient])
     else case parse_ipv4 (take ?n (drop 2 input)) of
         Err _ \<Rightarrow> consume_uploads inject lease mtu (drop (?n + 2) input) r (calls @ [DroppedFromClient])
       | Ok info \<Rightarrow>
           if info_source info \<noteq> lease
           then consume_uploads inject lease mtu (drop (?n + 2) input) r (calls @ [DroppedFromClient])
           else (case inject r (take ?n (drop 2 input)) of
               (Err e, r') \<Rightarrow> (Err e, drop (?n + 2) input, r', calls)
             | (Ok _, r') \<Rightarrow> consume_uploads inject lease mtu (drop (?n + 2) input) r'
                 (calls @ [ReceivedFromClient, Uploaded (length (take ?n (drop 2 input))) 1])))"
    using assms(1,2) consume_uploads.simps [of inject lease mtu input r calls]
    by (simp only: frame_size_def [symmetric] Let_def not_less [symmetric] if_False)
  show ?thesis
    unfolding once packet_def rest_def uplink_ok_def len empty
    by (cases "?n = 0"; cases "parse_ipv4 (take ?n (drop 2 input))") (simp_all add: not_less numeral_2_eq_2)
qed

text \<open>The loop injects exactly the acceptable packets among the complete frames, in order, up to the
  first failure, and keeps the incomplete rest.\<close>

lemma consume_uploads_split:
  assumes "consume_uploads inject lease mtu input r calls = (res, rest, r', calls')"
  shows "(res, r') = send_many inject r (filter (uplink_ok lease mtu) (fst (split_frames input)))
    \<and> (res = Ok () \<longrightarrow> rest = snd (split_frames input))"
  using assms
proof (induction input arbitrary: r calls rule: measure_induct_rule [of length])
  case (less input)
  show ?case
  proof (cases "2 \<le> length input \<and> frame_size input + 2 \<le> length input")
    case False
    then have "split_frames input = ([], input)" by (metis not_less split_frames_incomplete)
    moreover have "consume_uploads inject lease mtu input r calls = (Ok (), input, r, calls)"
      using False by (subst consume_uploads.simps) (auto simp: Let_def frame_size_def)
    ultimately show ?thesis using less.prems by simp
  next
    case True
    let ?packet = "take (frame_size input) (drop 2 input)" and ?rest = "drop (frame_size input + 2) input"
    note split = split_frames_complete [of input] and step = consume_step [of input inject lease mtu r calls]
    have "length ?rest < length input" using True by (simp, arith)
    then have IH: "(res, r') = send_many inject s (filter (uplink_ok lease mtu) (fst (split_frames ?rest)))
        \<and> (res = Ok () \<longrightarrow> rest = snd (split_frames ?rest))"
      if "consume_uploads inject lease mtu ?rest s cs = (res, rest, r', calls')" for s cs
      using that by (rule less.IH)
    show ?thesis
    proof (cases "uplink_ok lease mtu ?packet")
      case ok: True
      show ?thesis
      proof (cases "fst (inject r ?packet)")
        case (Inl e)
        then show ?thesis using less.prems step split True ok by (cases "inject r ?packet") auto
      next
        case (Inr u)
        then show ?thesis
          using less.prems step split True ok IH [of "snd (inject r ?packet)"] by (cases "inject r ?packet") auto
      qed
    next
      case False
      have "consume_uploads inject lease mtu ?rest r (calls @ (if ?packet = [] then [] else [DroppedFromClient]))
          = (res, rest, r', calls')"
        using step True False less.prems by (simp only: if_False)
      from IH [OF this] show ?thesis using split True False by simp
    qed
  qed
qed

lemma send_many_append:
  "send_many send d (xs @ ys) = (case send_many send d xs of (Err e, d') \<Rightarrow> (Err e, d') | (Ok _, d') \<Rightarrow> send_many send d' ys)"
  by (induction xs arbitrary: d) (auto split: prod.splits sum.splits)

text \<open>The data that an event brings to the tunnel's input.\<close>

fun body_of :: "tunnel_event \<Rightarrow> bytes" where
  "body_of (BodyData data) = data"
| "body_of _ = []"

abbreviation uplink_packets :: "ipv4_addr \<Rightarrow> nat \<Rightarrow> bytes \<Rightarrow> bytes list" where
  "uplink_packets lease mtu stream \<equiv> filter (uplink_ok lease mtu) (fst (split_frames stream))"

lemma downlink_event_keeps_uplink:
  "tunnel_step inject try_packet lease mtu t ev = (res, t') \<Longrightarrow> (\<And>d. ev \<noteq> BodyData d) \<Longrightarrow>
    t_input t' = t_input t \<and> t_router t' = t_router t"
  by (cases ev) (auto simp: send_output_def split: if_splits prod.splits)

lemma split_snd_idem [simp]: "split_frames (snd (split_frames a)) = ([], snd (split_frames a))"
proof (induction a rule: split_frames.induct)
  case (1 a)
  show ?case
  proof (cases "2 \<le> length a \<and> frame_size a + 2 \<le> length a")
    case True
    then show ?thesis using "1.IH" split_frames_complete [of a] by (simp add: frame_size_def)
  next
    case False
    then have "split_frames a = ([], a)" by (metis not_less split_frames_incomplete)
    then show ?thesis by simp
  qed
qed

lemma run_tunnel_uplink:
  assumes "run_tunnel inject try_packet lease mtu t evs = (res, t')" and "split_frames (t_input t) = ([], t_input t)"
  shows "\<exists>n. let stream = t_input t @ concat (map body_of (take n evs)) in
    snd (send_many inject (t_router t) (uplink_packets lease mtu stream)) = t_router t'
    \<and> (res = None \<longrightarrow> n \<ge> length evs \<and> fst (send_many inject (t_router t) (uplink_packets lease mtu stream)) = Ok ()
        \<and> t_input t' = snd (split_frames stream))"
  using assms
proof (induction evs arbitrary: t)
  case Nil
  then show ?case by auto
next
  case (Cons ev evs)
  obtain r1 t1 where one: "tunnel_step inject try_packet lease mtu t ev = (r1, t1)" by force
  let ?s = "t_input t @ body_of ev"
  have step: "snd (send_many inject (t_router t) (uplink_packets lease mtu ?s)) = t_router t1
      \<and> (r1 = None \<longrightarrow> fst (send_many inject (t_router t) (uplink_packets lease mtu ?s)) = Ok ()
          \<and> t_input t1 = snd (split_frames ?s))"
  proof (cases "\<exists>d. ev = BodyData d")
    case True
    then obtain d where ev: "ev = BodyData d" by blast
    obtain r2 rest r' calls where c: "consume_uploads inject lease mtu ?s (t_router t) (t_calls t) = (r2, rest, r', calls)"
      by (metis prod_cases4)
    show ?thesis
      using consume_uploads_split [OF c] c one ev by (cases r2) (auto dest: sym [of "(_, _)"])
  next
    case False
    then have "body_of ev = []" by (cases ev) auto
    then show ?thesis using downlink_event_keeps_uplink [OF one] False Cons.prems(2) by auto
  qed
  show ?case
  proof (cases r1)
    case (Some e)
    then show ?thesis using Cons.prems(1) one step by (intro exI [of _ 1]) (auto simp: Let_def)
  next
    case None
    have run: "run_tunnel inject try_packet lease mtu t1 evs = (res, t')" using Cons.prems(1) one None by simp
    have clean: "split_frames (t_input t1) = ([], t_input t1)" using step None by simp
    from Cons.IH [OF run clean] obtain n body where body: "body = concat (map body_of (take n evs))" and n:
      "snd (send_many inject (t_router t1) (uplink_packets lease mtu (t_input t1 @ body))) = t_router t'"
      "res = None \<longrightarrow> n \<ge> length evs
        \<and> fst (send_many inject (t_router t1) (uplink_packets lease mtu (t_input t1 @ body))) = Ok ()
        \<and> t_input t' = snd (split_frames (t_input t1 @ body))"
      by (auto simp: Let_def)
    have whole: "split_frames (?s @ body) = (fst (split_frames ?s) @ fst (split_frames (t_input t1 @ body)),
        snd (split_frames (t_input t1 @ body)))"
      using split_frames_append [of ?s body] step None by simp
    have "send_many inject (t_router t) (uplink_packets lease mtu ?s) = (Ok (), t_router t1)"
      using step None by (simp add: prod_eq_iff)
    then have "send_many inject (t_router t) (uplink_packets lease mtu (?s @ body))
        = send_many inject (t_router t1) (uplink_packets lease mtu (t_input t1 @ body))"
      by (simp only: whole fst_conv filter_append send_many_append) simp
    moreover have "t_input t @ concat (map body_of (take (Suc n) (ev # evs))) = ?s @ body" by (simp add: body)
    ultimately show ?thesis
      using n whole by (intro exI [of _ "Suc n"]) (simp only: Let_def snd_conv list.size, simp)
  qed
qed

lemma send_h2_data_sent:
  "send_h2_data evs data sent = (r, left, sent') \<Longrightarrow>
    prefix (concat sent') (concat sent @ data) \<and> (r = Some (Ok ()) \<longrightarrow> concat sent' = concat sent @ data)"
proof (induction evs data sent rule: send_h2_data.induct)
  case (2 ev evs data sent)
  show ?case
  proof (cases "data = []")
    case False
    show ?thesis
    proof (cases ev)
      case (CapacityIs n)
      have "prefix (concat sent') (concat (sent @ [take (min n (length data)) data]) @ drop (min n (length data)) data)
          \<and> (r = Some (Ok ()) \<longrightarrow> concat sent' = concat (sent @ [take (min n (length data)) data]) @ drop (min n (length data)) data)"
        by (rule "2.IH" [OF False CapacityIs refl]) (use "2.prems" False CapacityIs in \<open>simp add: Let_def\<close>)
      then show ?thesis by simp
    qed (use "2.prems" False in auto)
  qed (use "2.prems" in auto)
qed (auto split: if_splits)

text \<open>What the client puts on the stream is at any time a prefix of the frames of its batches.\<close>

lemma upload_lane_sent:
  "upload_lane xs sent = (r, sent') \<Longrightarrow>
    \<exists>n. list_all (\<lambda>p. length p \<le> 65535) (concat (map fst (take n xs)))
      \<and> prefix (concat sent') (concat sent @ concat (map frame_of (concat (map fst (take n xs)))))"
proof (induction xs sent rule: upload_lane.induct)
  case (1 sent)
  then show ?case by auto
next
  case (2 batch evs rest sent)
  show ?case
  proof (cases "frame_batch [] batch")
    case (Inl e)
    then show ?thesis using "2.prems" by (intro exI [of _ 0]) auto
  next
    case (Inr framed)
    then have framed: "list_all (\<lambda>p. length p \<le> 65535) batch" "framed = concat (map frame_of batch)"
      by (simp_all add: frame_batch_Ok)
    obtain r1 left sent1 where send: "send_h2_data evs framed sent = (r1, left, sent1)" by (metis prod_cases3)
    show ?thesis
    proof (cases "r1 = Some (Ok ())")
      case True
      then have "upload_lane rest sent1 = (r, sent')" using "2.prems" Inr send by simp
      from "2.IH" [OF Inr send [symmetric] True] this obtain n where
        "list_all (\<lambda>p. length p \<le> 65535) (concat (map fst (take n rest)))"
        "prefix (concat sent') (concat sent1 @ concat (map frame_of (concat (map fst (take n rest)))))" by auto
      then show ?thesis
        using send_h2_data_sent [OF send] True framed by (intro exI [of _ "Suc n"]) simp
    next
      case False
      then have "sent' = sent1" using "2.prems" Inr send by (auto split: option.splits sum.splits)
      then show ?thesis using send_h2_data_sent [OF send] framed by (intro exI [of _ 1]) simp
    qed
  qed
qed

text \<open>A prefix of frames holds a prefix of their packets.\<close>

lemma prefix_frames:
  assumes "list_all (\<lambda>p. length p \<le> 65535) packets" and "prefix w (concat (map frame_of packets))"
  shows "prefix (fst (split_frames w)) packets"
proof -
  obtain z where z: "concat (map frame_of packets) = w @ z" using assms(2) by (auto simp: prefix_def)
  have "packets = fst (split_frames (w @ z))" using frames_split [OF assms(1), of "[]"] z by simp
  then have "packets = fst (split_frames w) @ fst (split_frames (snd (split_frames w) @ z))"
    by (simp add: split_frames_append [of w z])
  then show ?thesis by (metis prefixI)
qed

subsection \<open>The downlink\<close>

text \<open>The packets that a run of \<open>try_packet\<close> hands out one after the other, ending with a packet or with
  a refusal.\<close>

inductive pulled :: "('q \<Rightarrow> bytes option \<times> 'q) \<Rightarrow> 'q \<Rightarrow> bytes list \<Rightarrow> 'q \<Rightarrow> bool" for try_packet where
  pulled_done: "pulled try_packet q [] q"
| pulled_none: "try_packet q = (None, q') \<Longrightarrow> pulled try_packet q [] q'"
| pulled_some: "try_packet q = (Some p, q1) \<Longrightarrow> pulled try_packet q1 ps q2 \<Longrightarrow> pulled try_packet q (p # ps) q2"

lemma pulled_small:
  "pulled try_packet q ps q' \<Longrightarrow> (\<And>q p q'. try_packet q = (Some p, q') \<Longrightarrow> length p \<le> 65535) \<Longrightarrow>
    list_all (\<lambda>p. length p \<le> 65535) ps"
  by (induction rule: pulled.induct) auto

lemma downlink_batch_frames:
  assumes "downlink_batch_loop try_packet count packet_bytes acc packet q calls = (acc', q', calls')"
    and "count < PACKET_BATCH" and "length packet \<le> 65535"
    and small: "\<And>q p q'. try_packet q = (Some p, q') \<Longrightarrow> length p \<le> 65535"
  shows "\<exists>ps. pulled try_packet q ps q' \<and> count + length ps < PACKET_BATCH
    \<and> acc' = acc @ concat (map frame_of (packet # ps))"
  using assms(1-3)
proof (induction "PACKET_BATCH - count" arbitrary: count packet_bytes acc packet q calls rule: less_induct)
  case less
  let ?out = "acc @ frame_of packet"
  note unfold = downlink_batch_loop.simps [of try_packet count packet_bytes acc packet q calls]
  show ?case
  proof (cases "count + 1 \<ge> PACKET_BATCH \<or> packet_bytes + length packet \<ge> BATCH_BYTES")
    case True
    then have "acc' = ?out" "q' = q"
      using less.prems unfold by (auto simp: Let_def frame_bytes split: if_splits)
    then show ?thesis using less.prems(2) by (intro exI [of _ "[]"]) (auto intro: pulled_done)
  next
    case False
    show ?thesis
    proof (cases "try_packet q")
      case (Pair nx q1)
      show ?thesis
      proof (cases nx)
        case None
        then have "acc' = ?out" "q' = q1"
          using less.prems unfold False Pair by (auto simp: Let_def frame_bytes)
        then show ?thesis using less.prems(2) None Pair by (intro exI [of _ "[]"]) (auto intro: pulled_none)
      next
        case (Some p)
        obtain cs pb where rec: "downlink_batch_loop try_packet (count + 1) pb ?out p q1 cs = (acc', q', calls')"
          using less.prems unfold False Pair Some by (auto simp: Let_def frame_bytes)
        have "PACKET_BATCH - (count + 1) < PACKET_BATCH - count" "count + 1 < PACKET_BATCH" using False less.prems(2) by auto
        from less.hyps [OF this(1) rec this(2)] small Some Pair obtain ps where
          "pulled try_packet q1 ps q'" "count + 1 + length ps < PACKET_BATCH"
          "acc' = ?out @ concat (map frame_of (p # ps))" by auto
        then show ?thesis
          using Some Pair by (intro exI [of _ "p # ps"]) (auto intro: pulled_some)
      qed
    qed
  qed
qed

definition downlink_ok :: "ipv4_addr \<Rightarrow> nat \<Rightarrow> bytes \<Rightarrow> bool" where
  "downlink_ok address mtu packet \<longleftrightarrow> packet \<noteq> [] \<and> length packet \<le> mtu
     \<and> (case parse_ipv4 packet of Err _ \<Rightarrow> False | Ok info \<Rightarrow> info_destination info = address)"

lemma drain_step:
  fixes deliver :: "'d \<Rightarrow> bytes \<Rightarrow> bool \<times> 'd"
  assumes "2 \<le> length framed" and "frame_size framed + 2 \<le> length framed"
  defines "packet \<equiv> take (frame_size framed) (drop 2 framed)" and "rest \<equiv> drop (frame_size framed + 2) framed"
  shows "drain_frames deliver address mtu framed d =
    (if downlink_ok address mtu packet
     then (case deliver d packet of
         (False, d') \<Rightarrow> (Err ClientClosed, rest, d')
       | (True, d') \<Rightarrow> drain_frames deliver address mtu rest d')
     else drain_frames deliver address mtu rest d)"
proof -
  have once: "drain_frames deliver address mtu framed d =
    (if packet = [] \<or> length packet > mtu then drain_frames deliver address mtu rest d
     else case parse_ipv4 packet of
         Err _ \<Rightarrow> drain_frames deliver address mtu rest d
       | Ok info \<Rightarrow>
           if info_destination info \<noteq> address then drain_frames deliver address mtu rest d
           else (case deliver d packet of
               (False, d') \<Rightarrow> (Err ClientClosed, rest, d')
             | (True, d') \<Rightarrow> drain_frames deliver address mtu rest d'))"
    using assms(1,2) drain_frames.simps [of deliver address mtu framed d]
    by (simp only: frame_size_def [symmetric] Let_def not_less [symmetric] if_False packet_def rest_def)
  show ?thesis
    unfolding once downlink_ok_def
    by (cases "parse_ipv4 packet") (simp_all add: not_less [symmetric])
qed

text \<open>The client hands out exactly the packets for its address among the complete frames, in order.\<close>

definition as_send :: "('d \<Rightarrow> bytes \<Rightarrow> bool \<times> 'd) \<Rightarrow> 'd \<Rightarrow> bytes \<Rightarrow> (client_error + unit) \<times> 'd" where
  "as_send deliver d p = (case deliver d p of (True, d') \<Rightarrow> (Ok (), d') | (False, d') \<Rightarrow> (Err ClientClosed, d'))"

lemma drain_frames_split:
  assumes "drain_frames deliver address mtu framed d = (res, rest, d')"
  shows "(res, d') = send_many (as_send deliver) d (filter (downlink_ok address mtu) (fst (split_frames framed)))
    \<and> (res = Ok () \<longrightarrow> rest = snd (split_frames framed))"
  using assms
proof (induction framed arbitrary: d rule: measure_induct_rule [of length])
  case (less framed)
  show ?case
  proof (cases "2 \<le> length framed \<and> frame_size framed + 2 \<le> length framed")
    case False
    then have "split_frames framed = ([], framed)" by (metis not_less split_frames_incomplete)
    moreover have "drain_frames deliver address mtu framed d = (Ok (), framed, d)"
      using False by (subst drain_frames.simps) (auto simp: Let_def frame_size_def)
    ultimately show ?thesis using less.prems by simp
  next
    case True
    let ?packet = "take (frame_size framed) (drop 2 framed)" and ?rest = "drop (frame_size framed + 2) framed"
    note split = split_frames_complete [of framed] and step = drain_step [of framed deliver address mtu d]
    have shorter: "length ?rest < length framed" using True by (simp, arith)
    note IH = less.IH [OF shorter]
    show ?thesis
    proof (cases "downlink_ok address mtu ?packet")
      case ok: True
      obtain b d1 where b: "deliver d ?packet = (b, d1)" by force
      show ?thesis
        using less.prems step split True ok b IH [of d1] by (cases b) (auto simp: as_send_def)
    next
      case False
      have "drain_frames deliver address mtu ?rest d = (res, rest, d')"
        using step True False less.prems by (simp only: if_False)
      from IH [OF this] show ?thesis using split True False by simp
    qed
  qed
qed

definition record_packet :: "bytes list \<Rightarrow> bytes \<Rightarrow> bool \<times> bytes list" where
  "record_packet d p = (True, d @ [p])"

lemma record_all: "send_many (as_send record_packet) d ps = (Ok (), d @ ps)"
  by (induction ps arbitrary: d) (simp_all add: as_send_def record_packet_def)

lemma download_chunks:
  assumes "split_frames framed = ([], framed)"
  shows "download_lane record_packet address mtu (map DownloadData chunks) framed d =
    (None, snd (split_frames (framed @ concat chunks)),
     d @ filter (downlink_ok address mtu) (fst (split_frames (framed @ concat chunks))))"
  using assms
proof (induction chunks arbitrary: framed d)
  case (Cons c chunks)
  let ?s = "split_frames (framed @ c)"
  obtain res rest d1 where drain: "drain_frames record_packet address mtu (framed @ c) d = (res, rest, d1)"
    by (metis prod_cases3)
  from drain_frames_split [OF drain] have "res = Ok ()" "rest = snd ?s"
      "d1 = d @ filter (downlink_ok address mtu) (fst ?s)" by (auto simp: record_all)
  moreover have "split_frames (framed @ c @ concat chunks) =
      (fst ?s @ fst (split_frames (snd ?s @ concat chunks)), snd (split_frames (snd ?s @ concat chunks)))"
    using split_frames_append [of "framed @ c" "concat chunks"] by simp
  ultimately show ?case using drain Cons.IH [of "snd ?s" d1] by simp
qed simp

text \<open>C21: a downlink batch arrives: the batch the server frames holds the first packet and the packets
  it could take from the queue (at most 16 in all), and the client, however the batch is cut into
  chunks, hands out exactly those of them that are for its address and within the MTU, in order,
  and keeps no bytes back.\<close>

theorem downlink_batch_delivered:
  assumes "frame_downlink_batch try_packet first q calls = (batch, q', calls')" and "length first \<le> 65535"
    and "\<And>q p q'. try_packet q = (Some p, q') \<Longrightarrow> length p \<le> 65535"
    and "concat chunks = batch"
  shows "\<exists>ps. pulled try_packet q ps q' \<and> length (first # ps) \<le> 16
    \<and> download_lane record_packet address mtu (map DownloadData chunks) [] d
        = (None, [], d @ filter (downlink_ok address mtu) (first # ps))"
proof -
  have "\<exists>ps. pulled try_packet q ps q' \<and> 0 + length ps < PACKET_BATCH \<and> batch = [] @ concat (map frame_of (first # ps))"
    by (rule downlink_batch_frames [OF assms(1) [unfolded frame_downlink_batch_def] _ assms(2)])
      (auto simp: PACKET_BATCH_def intro: assms(3))
  then obtain ps where ps: "pulled try_packet q ps q'" "length ps < 16" "batch = concat (map frame_of (first # ps))"
    by (auto simp: PACKET_BATCH_def)
  have "list_all (\<lambda>p. length p \<le> 65535) (first # ps)" using pulled_small [OF ps(1) assms(3)] assms(2) by simp
  from frames_split [OF this, of "[]"] have "split_frames (concat chunks) = (first # ps, [])"
    using ps(3) assms(4) by simp
  then have "download_lane record_packet address mtu (map DownloadData chunks) [] d
        = (None, [], d @ filter (downlink_ok address mtu) (first # ps))"
    using download_chunks [of "[]" address mtu chunks d] by simp
  then show ?thesis using ps by auto
qed

definition example_source :: "bytes list \<Rightarrow> bytes option \<times> bytes list" where
  "example_source q = (case q of [] \<Rightarrow> (None, []) | p # q' \<Rightarrow> (if length p \<le> 65535 then Some p else None, q'))"

theorem downlink_batch_delivered_witness:
  "\<exists>ps. pulled example_source [[1], [2]] ps [] \<and> length ([0] # ps) \<le> 16
    \<and> download_lane record_packet 0 1400 (map DownloadData [[0], [1, 0, 0], [1, 1, 0], [1, 2]]) [] []
        = (None, [], filter (downlink_ok 0 1400) ([0] # ps))"
proof -
  have batch: "frame_downlink_batch example_source [0] [[1], [2]] []
      = ([0, 1, 0, 0, 1, 1, 0, 1, 2], [], concat (replicate 3 [SentToClient, Downloaded 1 1]))"
    by code_simp
  have small: "length p \<le> 65535" if "example_source q = (Some p, q')" for q p q'
    using that by (auto simp: example_source_def split: list.splits if_splits)
  have first: "length [0 :: u8] \<le> 65535" and chunks: "concat [[0], [1, 0, 0], [1, 1, 0], [1, 2]] = [0, 1, 0, 0, 1, 1, 0, 1, 2 :: u8]"
    by simp_all
  show ?thesis
    by (rule downlink_batch_delivered [OF batch first _ chunks, of 0 1400 "[]", unfolded append_Nil]) (rule small)
qed

end
