(* ===== verification/Proxy_Dial.thy ===== *)
theory Proxy_Dial
  imports Wire_Masque Ip_Text Admission "HOL-Library.AList"
begin

text \<open>
  Outbound connections of the proxy (porta-server/src/proxy/dial.rs): the parsing of a destination,
  the filter on public addresses, the cache of resolved addresses and the staggered dialling of
  several addresses. The resolver, the dialer, the timers and the clock are the environment: what
  they yield is an argument. An address that is dialled is recorded.
\<close>

definition DNS_CACHE_TTL :: duration where "DNS_CACHE_TTL = secs 30"
definition DNS_CACHE_ENTRIES :: nat where "DNS_CACHE_ENTRIES = 256"

datatype dial_error =
    InvalidAuthority | InvalidPort | DeniedPort string | DeniedAddress ip_addr | NoAddresses | Timeout
  | DialUnavailable string

record destination =
  dest_host :: string
  dest_port :: u16

subsection \<open>What the code uses of the standard library\<close>

text \<open>The text of an IPv6 address: up to eight groups of at most four hexadecimal digits, one run of
  zeros written as two colons, an IPv4 address in the place of the last two groups of either part.
  A reader takes its input off the front of the text, or fails and takes nothing.\<close>

definition is_hex :: "char \<Rightarrow> bool" where
  "is_hex c \<longleftrightarrow> is_ascii_digit c \<or> (65 \<le> (of_char c :: nat) \<and> (of_char c :: nat) \<le> 70)
     \<or> (97 \<le> (of_char c :: nat) \<and> (of_char c :: nat) \<le> 102)"

definition hex_value :: "char \<Rightarrow> nat" where
  "hex_value c = (let n = of_char c in if n \<le> 57 then n - 48 else if n \<le> 70 then n - 55 else n - 87)"

definition read_group :: "string \<Rightarrow> (nat \<times> string) option" where
  "read_group s =
    (let ds = takeWhile is_hex s
     in if ds = [] \<or> length ds > 4 then None
        else Some (foldl (\<lambda>v c. v * 16 + hex_value c) 0 ds, dropWhile is_hex s))"

definition read_ipv4 :: "string \<Rightarrow> (u32 \<times> string) option" where
  "read_ipv4 s =
    Option.bind (parse_octet s) (\<lambda>(a, s).
    Option.bind (parse_dotted s) (\<lambda>(b, s).
    Option.bind (parse_dotted s) (\<lambda>(c, s).
    Option.bind (parse_dotted s) (\<lambda>(d, s). Some (ipv4_new a b c d, s)))))"

definition after_colon :: "nat \<Rightarrow> (string \<Rightarrow> 'a option) \<Rightarrow> string \<Rightarrow> 'a option" where
  "after_colon i read s = (if i = 0 then read s else Option.bind (expect_char CHR '':'' s) read)"

function read_groups :: "nat \<Rightarrow> nat \<Rightarrow> string \<Rightarrow> nat list \<times> bool \<times> string" where
  "read_groups limit i s =
    (if i \<ge> limit then ([], False, s)
     else
       case (if i + 1 < limit then after_colon i read_ipv4 s else None) of
         Some (a, rest) \<Rightarrow> ([unat a div 65536, unat a mod 65536], True, rest)
       | None \<Rightarrow>
           (case after_colon i read_group s of
              None \<Rightarrow> ([], False, s)
            | Some (g, rest) \<Rightarrow>
                (case read_groups limit (i + 1) rest of (gs, v4, rest') \<Rightarrow> (g # gs, v4, rest'))))"
  by pat_completeness auto
termination by (relation "measure (\<lambda>(limit, i, _). limit - i)") auto

definition ipv6_from_str :: "string \<Rightarrow> nat list option" where
  "ipv6_from_str s =
    (case read_groups 8 0 s of (head, v4, rest) \<Rightarrow>
       if length head = 8 then (if rest = [] then Some head else None)
       else if v4 then None
       else
         Option.bind (expect_char CHR '':'' rest) (\<lambda>rest.
         Option.bind (expect_char CHR '':'' rest) (\<lambda>rest.
           case read_groups (8 - (length head + 1)) 0 rest of (tail, _, rest) \<Rightarrow>
             if rest = [] then Some (head @ replicate (8 - length head - length tail) 0 @ tail) else None)))"

definition rsplit_once :: "char \<Rightarrow> string \<Rightarrow> (string \<times> string) option" where
  "rsplit_once c s = map_option (\<lambda>(a, b). (rev b, rev a)) (split_once c (rev s))"

fun split_at :: "string \<Rightarrow> string \<Rightarrow> (string \<times> string) option" where
  "split_at p [] = (if p = [] then Some ([], []) else None)"
| "split_at p (c # s) =
    (if starts_with p (c # s) then Some ([], drop (length p) (c # s))
     else map_option (\<lambda>(a, b). (c # a, b)) (split_at p s))"

fun split_on :: "char \<Rightarrow> string \<Rightarrow> string list" where
  "split_on c [] = [[]]"
| "split_on c (d # s) = (if d = c then [] # split_on c s else (case split_on c s of w # ws \<Rightarrow> (d # w) # ws | [] \<Rightarrow> [[d]]))"

definition u16_from_str :: "string \<Rightarrow> u16 option" where
  "u16_from_str s =
    (let ds = (case s of [] \<Rightarrow> [] | c # rest \<Rightarrow> if c = CHR ''+'' then rest else s)
     in if ds = [] \<or> \<not> list_all is_ascii_digit ds \<or> decimal ds > 65535 then None else Some (u16_of (decimal ds)))"

definition is_ascii :: "char \<Rightarrow> bool" where
  "is_ascii c \<longleftrightarrow> (of_char c :: nat) < 128"

definition is_ascii_whitespace :: "char \<Rightarrow> bool" where
  "is_ascii_whitespace c \<longleftrightarrow> (of_char c :: nat) \<in> {9, 10, 12, 13, 32}"

definition is_ascii_control :: "char \<Rightarrow> bool" where
  "is_ascii_control c \<longleftrightarrow> (of_char c :: nat) < 32 \<or> (of_char c :: nat) = 127"

definition to_ascii_lowercase :: "string \<Rightarrow> string" where
  "to_ascii_lowercase = map (\<lambda>c. if 65 \<le> (of_char c :: nat) \<and> (of_char c :: nat) \<le> 90 then char_of ((of_char c :: nat) + 32) else c)"

subsection \<open>Destinations\<close>

definition valid_label :: "string \<Rightarrow> bool" where
  "valid_label label \<longleftrightarrow> label \<noteq> [] \<and> length label \<le> 63 \<and> is_ascii_alphanumeric (label ! 0)
    \<and> is_ascii_alphanumeric (label ! (length label - 1))
    \<and> list_all (\<lambda>c. is_ascii_alphanumeric c \<or> c = CHR ''-'') label"

definition strip_dot :: "string \<Rightarrow> string" where
  "strip_dot host = (if host \<noteq> [] \<and> last host = CHR ''.'' then butlast host else host)"

definition valid_host :: "string \<Rightarrow> bool" where
  "valid_host host =
    (if ipv4_from_str host \<noteq> None then True
     else
       let host = strip_dot host
       in if host = [] \<or> length host > 253 \<or> \<not> list_all is_ascii host then False
          else list_all valid_label (split_on CHR ''.'' host))"

definition split_authority :: "string \<Rightarrow> dial_error + string \<times> string" where
  "split_authority authority =
    (if authority \<noteq> [] \<and> hd authority = CHR ''['' then
       (case split_at '']:'' (tl authority) of
          None \<Rightarrow> Err InvalidAuthority
        | Some (host, port) \<Rightarrow>
            if host = [] \<or> port = [] \<or> CHR '':'' \<in> set port \<or> CHR ''%'' \<in> set host \<or> ipv6_from_str host = None
            then Err InvalidAuthority else Ok (host, port))
     else
       (case rsplit_once CHR '':'' authority of
          None \<Rightarrow> Err InvalidAuthority
        | Some (host, port) \<Rightarrow>
            if host = [] \<or> CHR '':'' \<in> set host \<or> \<not> valid_host host then Err InvalidAuthority else Ok (host, port)))"

definition parse_destination :: "string \<Rightarrow> dial_error + destination" where
  "parse_destination authority =
    (if authority = [] \<or> authority \<noteq> str_trim authority
        \<or> list_ex (\<lambda>c. is_ascii_whitespace c \<or> is_ascii_control c) authority
        \<or> list_ex (\<lambda>c. c \<in> set ''/?#@'') authority
     then Err InvalidAuthority
     else rbind (split_authority authority) (\<lambda>(host, port).
       case u16_from_str port of
         None \<Rightarrow> Err InvalidPort
       | Some parsed_port \<Rightarrow>
           if parsed_port = 0 then Err InvalidPort
           else if port \<noteq> ''443'' \<or> parsed_port \<noteq> 443 then Err (DeniedPort port)
           else Ok \<lparr>dest_host = host, dest_port = parsed_port\<rparr>))"

subsection \<open>Public addresses\<close>

definition prefix_v4 :: "u32 \<Rightarrow> u32 \<Rightarrow> nat \<Rightarrow> bool" where
  "prefix_v4 address network bits \<longleftrightarrow>
    (let mask = push_bit (32 - bits) (- 1) in address AND mask = network AND mask)"

definition prefix_v6 :: "u128 \<Rightarrow> u128 \<Rightarrow> nat \<Rightarrow> bool" where
  "prefix_v6 address network bits \<longleftrightarrow>
    (let mask = push_bit (128 - bits) (- 1) in address AND mask = network AND mask)"

definition DENIED_V4 :: "(u32 \<times> nat) list" where
  "DENIED_V4 =
    [(0x00000000, 8), (0x64400000, 10), (0xa9fe0000, 16), (0xc0000000, 24), (0xc0000200, 24), (0xc01fc400, 24),
     (0xc034c100, 24), (0xc0586300, 24), (0xc0af3000, 24), (0xc6120000, 15), (0xc6336400, 24), (0xcb007100, 24),
     (0xf0000000, 4)]"

definition DENIED_V6 :: "(u128 \<times> nat) list" where
  "DENIED_V6 =
    [(0x0064ff9b000000000000000000000000, 96), (0x0064ff9b000100000000000000000000, 48),
     (0x01000000000000000000000000000000, 64), (0x20010000000000000000000000000000, 23),
     (0x20010db8000000000000000000000000, 32), (0x20020000000000000000000000000000, 16),
     (0x3fff0000000000000000000000000000, 20), (0x5f000000000000000000000000000000, 16),
     (0xfec00000000000000000000000000000, 10)]"

text \<open>The predicates of \<open>std::net\<close> that the filter uses, on the octets of an address.\<close>

definition v4_special :: "u32 \<Rightarrow> bool" where
  "v4_special a \<longleftrightarrow>
    (let os = map unat (ipv4_octets a); o0 = os ! 0; o1 = os ! 1
     in a = 0 \<or> o0 = 127
        \<or> (o0 = 10 \<or> (o0 = 172 \<and> 16 \<le> o1 \<and> o1 \<le> 31) \<or> (o0 = 192 \<and> o1 = 168))
        \<or> (o0 = 169 \<and> o1 = 254) \<or> (224 \<le> o0 \<and> o0 \<le> 239) \<or> a = - 1)"

definition v6_special :: "u128 \<Rightarrow> bool" where
  "v6_special a \<longleftrightarrow> a = 0 \<or> a = 1 \<or> unat a div 2 ^ 120 = 255
     \<or> prefix_v6 a (push_bit 112 0xfc00) 7 \<or> prefix_v6 a (push_bit 112 0xfe80) 10"

definition public_address :: "ip_addr \<Rightarrow> bool" where
  "public_address address =
    (case normalize_address address of
       V4 a \<Rightarrow> if v4_special a then False else \<not> list_ex (\<lambda>(network, bits). prefix_v4 a network bits) DENIED_V4
     | V6 a \<Rightarrow> if v6_special a then False else \<not> list_ex (\<lambda>(network, bits). prefix_v6 a network bits) DENIED_V6)"

subsection \<open>The cache of resolved addresses\<close>

record cached_addresses =
  c_addresses :: "ip_addr list"
  c_expires :: instant

record address_cache =
  c_entries :: "(string \<times> cached_addresses) list"
  c_max :: nat
  c_ttl :: duration

definition cache_new :: "nat \<Rightarrow> duration \<Rightarrow> address_cache" where
  "cache_new max_entries ttl = \<lparr>c_entries = [], c_max = max_entries, c_ttl = min ttl DNS_CACHE_TTL\<rparr>"

definition trim_dots :: "string \<Rightarrow> string" where
  "trim_dots s = rev (dropWhile (\<lambda>c. c = CHR ''.'') (rev s))"

definition normalize_cache_host :: "string \<Rightarrow> string" where
  "normalize_cache_host host = to_ascii_lowercase (trim_dots (str_trim host))"

definition cache_get_at :: "address_cache \<Rightarrow> string \<Rightarrow> instant \<Rightarrow> ip_addr list option \<times> address_cache" where
  "cache_get_at c host now =
    (if c_max c = 0 \<or> c_ttl c = 0 then (None, c)
     else
       let key = normalize_cache_host host in
       case map_of (c_entries c) key of
         None \<Rightarrow> (None, c)
       | Some cached \<Rightarrow>
           if now \<ge> c_expires cached then (None, c\<lparr>c_entries := AList.delete key (c_entries c)\<rparr>)
           else (Some (c_addresses cached), c))"

text \<open>The first entry with the least expiry in the order of iteration. The order in which the hash map
  iterates is not specified; the properties below hold whatever entry among the oldest is taken.\<close>

fun oldest_entry :: "(string \<times> cached_addresses) list \<Rightarrow> (string \<times> cached_addresses) option" where
  "oldest_entry [] = None"
| "oldest_entry (e # es) =
    (case oldest_entry es of
       None \<Rightarrow> Some e
     | Some m \<Rightarrow> if c_expires (snd m) < c_expires (snd e) then Some m else Some e)"

definition cache_put_at :: "address_cache \<Rightarrow> string \<Rightarrow> ip_addr list \<Rightarrow> instant \<Rightarrow> address_cache" where
  "cache_put_at c host addresses now =
    (if c_max c = 0 \<or> c_ttl c = 0 \<or> addresses = [] then c
     else
       let key = normalize_cache_host host;
           live = filter (\<lambda>(_, cached). now < c_expires cached) (c_entries c);
           kept = (if map_of live key = None \<and> length live \<ge> c_max c
                   then (case oldest_entry live of None \<Rightarrow> live | Some (old, _) \<Rightarrow> AList.delete old live)
                   else live)
       in c\<lparr>c_entries := AList.update key \<lparr>c_addresses = addresses, c_expires = now + c_ttl c\<rparr> kept\<rparr>)"

subsection \<open>Dialling\<close>

fun is_ipv6 :: "ip_addr \<Rightarrow> bool" where
  "is_ipv6 (V6 _) \<longleftrightarrow> True"
| "is_ipv6 (V4 _) \<longleftrightarrow> False"

fun weave :: "'a list \<Rightarrow> 'a list \<Rightarrow> 'a list" where
  "weave [] ys = ys"
| "weave (x # xs) [] = x # xs"
| "weave (x # xs) (y # ys) = x # y # weave xs ys"

definition interleave_address_families :: "ip_addr list \<Rightarrow> ip_addr list" where
  "interleave_address_families addresses =
    (if length addresses < 2 then addresses
     else
       let ipv6 = filter is_ipv6 addresses;
           ipv4 = filter (\<lambda>a. \<not> is_ipv6 a) addresses
       in if is_ipv6 (addresses ! 0) then weave ipv6 ipv4 else weave ipv4 ipv6)"

text \<open>What can end a wait: an attempt that connects, fails, is cancelled or panics, or the timer.\<close>

datatype dial_event = Connected ip_addr | Refused string | AttemptCancelled | AttemptPanicked string | TimerFired

record dialling =
  d_ordered :: "ip_addr list"
  d_next :: nat
  d_attempts :: nat
  d_last_error :: "string option"
  d_started :: "(ip_addr \<times> u16) list"

definition start_attempt :: "u16 \<Rightarrow> dialling \<Rightarrow> dialling" where
  "start_attempt port d =
    d\<lparr>d_attempts := d_attempts d + 1, d_started := d_started d @ [(d_ordered d ! d_next d, port)],
      d_next := d_next d + 1\<rparr>"

definition start_more :: "u16 \<Rightarrow> dialling \<Rightarrow> dialling" where
  "start_more port d = (if d_next d < length (d_ordered d) then start_attempt port d else d)"

definition begin_dialling :: "u16 \<Rightarrow> ip_addr list \<Rightarrow> duration \<Rightarrow> dialling" where
  "begin_dialling port ordered stagger =
    (let d = start_attempt port \<lparr>d_ordered = ordered, d_next = 0, d_attempts = 0, d_last_error = None, d_started = []\<rparr>
     in if stagger = 0 then (start_more port ^^ (length ordered - 1)) d else d)"

definition dial_event_step :: "u16 \<Rightarrow> duration \<Rightarrow> dialling \<Rightarrow> dial_event \<Rightarrow> ip_addr option \<times> dialling" where
  "dial_event_step port stagger d ev =
    (case ev of
       Connected a \<Rightarrow> (Some a, d)
     | Refused e \<Rightarrow> (None, start_more port (d\<lparr>d_attempts := d_attempts d - 1, d_last_error := Some e\<rparr>))
     | AttemptCancelled \<Rightarrow> (None, start_more port (d\<lparr>d_attempts := d_attempts d - 1\<rparr>))
     | AttemptPanicked e \<Rightarrow> (None, start_more port (d\<lparr>d_attempts := d_attempts d - 1, d_last_error := Some e\<rparr>))
     | TimerFired \<Rightarrow> (None, if stagger \<noteq> 0 then start_more port d else d))"

text \<open>The loop of \<open>happy_eyeballs\<close>: the result once it is decided (\<open>None\<close> while it waits) and the record
  of what has been dialled.\<close>

fun dial_loop :: "u16 \<Rightarrow> duration \<Rightarrow> dialling \<Rightarrow> dial_event list \<Rightarrow> (dial_error + ip_addr) option \<times> dialling" where
  "dial_loop port stagger d evs =
    (if d_attempts d = 0 then
       (Some (Err (DialUnavailable (case d_last_error d of Some e \<Rightarrow> e | None \<Rightarrow> ''destination has no reachable addresses''))), d)
     else case evs of
       [] \<Rightarrow> (None, d)
     | ev # evs' \<Rightarrow>
         (case dial_event_step port stagger d ev of
            (Some a, d') \<Rightarrow> (Some (Ok a), d')
          | (None, d') \<Rightarrow> dial_loop port stagger d' evs'))"

declare dial_loop.simps [simp del]

definition happy_eyeballs ::
  "u16 \<Rightarrow> ip_addr list \<Rightarrow> duration \<Rightarrow> dial_event list \<Rightarrow> (dial_error + ip_addr) option \<times> (ip_addr \<times> u16) list" where
  "happy_eyeballs port addresses stagger evs =
    (let ordered = interleave_address_families addresses
     in if ordered = [] then (Some (Err NoAddresses), [])
        else case dial_loop port stagger (begin_dialling port ordered stagger) evs of (r, d) \<Rightarrow> (r, d_started d))"

text \<open>What the resolver does: an error, a list of addresses, or no answer before the time-out.\<close>

datatype resolve_reply = ResolveFailed string | Resolved "ip_addr list" | ResolvePending

fun validate_addresses :: "ip_addr list \<Rightarrow> dial_error + ip_addr list" where
  "validate_addresses [] = Ok []"
| "validate_addresses (a # as) =
    (let address = normalize_address a
     in if \<not> public_address address then Err (DeniedAddress address)
        else rbind (validate_addresses as) (\<lambda>validated. Ok (address # validated)))"

definition lookup_addresses ::
  "address_cache \<Rightarrow> destination \<Rightarrow> instant \<Rightarrow> resolve_reply \<Rightarrow> instant \<Rightarrow> (dial_error + ip_addr list) option \<times> address_cache" where
  "lookup_addresses c dest now reply later =
    (case cache_get_at c (dest_host dest) now of
       (Some addresses, c) \<Rightarrow> (Some (Ok addresses), c)
     | (None, c) \<Rightarrow>
         (case reply of
            ResolvePending \<Rightarrow> (None, c)
          | ResolveFailed e \<Rightarrow> (Some (Err (DialUnavailable e)), c)
          | Resolved [] \<Rightarrow> (Some (Err NoAddresses), c)
          | Resolved resolved \<Rightarrow>
              (case validate_addresses resolved of
                 Err e \<Rightarrow> (Some (Err e), c)
               | Ok validated \<Rightarrow> (Some (Ok validated), cache_put_at c (dest_host dest) validated later))))"

text \<open>\<open>connect_destination\<close> under its time-out, which fires whenever the operation is still waiting at the
  end of the events. The last component records every address dialled.\<close>

definition connect_destination ::
  "duration \<Rightarrow> address_cache \<Rightarrow> destination \<Rightarrow> instant \<Rightarrow> resolve_reply \<Rightarrow> instant \<Rightarrow> dial_event list
    \<Rightarrow> (dial_error + ip_addr) \<times> address_cache \<times> (ip_addr \<times> u16) list" where
  "connect_destination stagger c dest now reply later evs =
    (case lookup_addresses c dest now reply later of
       (None, c) \<Rightarrow> (Err Timeout, c, [])
     | (Some (Err e), c) \<Rightarrow> (Err e, c, [])
     | (Some (Ok addresses), c) \<Rightarrow>
         (case happy_eyeballs (dest_port dest) addresses stagger evs of
            (None, started) \<Rightarrow> (Err Timeout, c, started)
          | (Some r, started) \<Rightarrow> (r, c, started)))"

definition connect ::
  "duration \<Rightarrow> address_cache \<Rightarrow> string \<Rightarrow> instant \<Rightarrow> resolve_reply \<Rightarrow> instant \<Rightarrow> dial_event list
    \<Rightarrow> (dial_error + ip_addr) \<times> address_cache \<times> (ip_addr \<times> u16) list" where
  "connect stagger c authority now reply later evs =
    (case parse_destination authority of
       Err e \<Rightarrow> (Err e, c, [])
     | Ok dest \<Rightarrow> connect_destination stagger c dest now reply later evs)"

subsection \<open>The order of dialling\<close>

lemma mset_weave: "mset (weave xs ys) = mset xs + mset ys"
  by (induction xs ys rule: weave.induct) auto

lemma filter_weave:
  "list_all P xs \<Longrightarrow> list_all (\<lambda>y. \<not> P y) ys \<Longrightarrow> filter P (weave xs ys) = xs \<and> filter (\<lambda>a. \<not> P a) (weave xs ys) = ys"
  by (induction xs ys rule: weave.induct) (auto simp: list_all_iff filter_id_conv)

lemma mset_interleave: "mset (interleave_address_families as) = mset as"
  by (auto simp: interleave_address_families_def mset_weave Let_def)

lemma weave_nth:
  "i < 2 * min (length xs) (length ys) \<Longrightarrow> weave xs ys ! i = (if even i then xs ! (i div 2) else ys ! (i div 2))"
proof (induction xs ys arbitrary: i rule: weave.induct)
  case (3 x xs y ys)
  show ?case
  proof (cases "i < 2")
    case True
    then show ?thesis by (cases i) auto
  next
    case False
    then obtain j where j: "i = Suc (Suc j)" by (metis Suc_1 add_2_eq_Suc le_Suc_ex not_less)
    then show ?thesis using 3 by auto
  qed
qed simp_all

lemma weave_alternates:
  assumes "list_all P xs" and "list_all (\<lambda>y. \<not> P y) ys" and "i + 1 < 2 * min (length xs) (length ys)"
  shows "P (weave xs ys ! i) \<noteq> P (weave xs ys ! (i + 1))"
proof -
  have "i div 2 < length xs" "i div 2 < length ys" "(i + 1) div 2 < length xs" "(i + 1) div 2 < length ys"
    using assms(3) by auto
  then have "P (xs ! (i div 2))" "\<not> P (ys ! (i div 2))" "P (xs ! ((i + 1) div 2))" "\<not> P (ys ! ((i + 1) div 2))"
    using assms(1,2) by (auto simp: list_all_length)
  then show ?thesis using weave_nth [of i xs ys] weave_nth [of "i + 1" xs ys] assms(3) by auto
qed

lemma take_weave: "xs \<noteq> [] \<Longrightarrow> take 1 (weave xs ys) = take 1 xs"
  by (cases xs; cases ys) auto

text \<open>the order in which the addresses of a destination are dialled. It is a rearrangement of the
  resolved addresses that starts with the resolver's first choice, keeps the resolver's order within
  each family, and alternates between the families as long as both have addresses left.\<close>

theorem interleave_order:
  "mset (interleave_address_families as) = mset as
    \<and> filter is_ipv6 (interleave_address_families as) = filter is_ipv6 as
    \<and> filter (\<lambda>a. \<not> is_ipv6 a) (interleave_address_families as) = filter (\<lambda>a. \<not> is_ipv6 a) as
    \<and> take 1 (interleave_address_families as) = take 1 as
    \<and> (\<forall>i. i + 1 < 2 * min (length (filter is_ipv6 as)) (length (filter (\<lambda>a. \<not> is_ipv6 a) as)) \<longrightarrow>
         is_ipv6 (interleave_address_families as ! i) \<noteq> is_ipv6 (interleave_address_families as ! (i + 1)))"
proof (cases "length as < 2")
  case True
  then have "length (filter is_ipv6 as) + length (filter (\<lambda>a. \<not> is_ipv6 a) as) < 2"
    by (simp add: sum_length_filter_compl)
  then show ?thesis using True by (auto simp: interleave_address_families_def)
next
  case False
  let ?six = "filter is_ipv6 as" and ?four = "filter (\<lambda>a. \<not> is_ipv6 a) as"
  have six: "list_all is_ipv6 ?six" "list_all (\<lambda>a. \<not> is_ipv6 a) ?four"
    and four: "list_all (\<lambda>a. \<not> is_ipv6 a) ?four" "list_all (\<lambda>a. \<not> \<not> is_ipv6 a) ?six"
    by (auto simp: list_all_iff)
  obtain a rest where a: "as = a # rest" using False by (cases as) auto
  show ?thesis
  proof (cases "is_ipv6 a")
    case True
    then have "interleave_address_families as = weave ?six ?four" "?six \<noteq> []" "take 1 ?six = [a]"
      using a False by (simp_all add: interleave_address_families_def)
    then show ?thesis
      using mset_interleave [of as] filter_weave [OF six] weave_alternates [OF six] take_weave [of ?six ?four] a by auto
  next
    case no: False
    then have "interleave_address_families as = weave ?four ?six" "?four \<noteq> []" "take 1 ?four = [a]"
      using a False by (simp_all add: interleave_address_families_def)
    then show ?thesis
      using mset_interleave [of as] filter_weave [OF four] weave_alternates [OF four] take_weave [of ?four ?six] a
      by (auto simp: min.commute)
  qed
qed

theorem interleave_order_witness:
  "is_ipv6 (interleave_address_families [V4 1, V4 2, V6 3, V6 4] ! 0) \<noteq> is_ipv6 (interleave_address_families [V4 1, V4 2, V6 3, V6 4] ! 1)
    \<and> take 1 (interleave_address_families [V4 1, V4 2, V6 3, V6 4]) = [V4 1]"
  using interleave_order [of "[V4 1, V4 2, V6 3, V6 4]"] by (auto dest!: spec [of _ 0])

subsection \<open>Dialling every address once\<close>

definition dial_ok :: "u16 \<Rightarrow> dialling \<Rightarrow> bool" where
  "dial_ok port d \<longleftrightarrow> d_next d \<le> length (d_ordered d) \<and> (d_attempts d = 0 \<longrightarrow> d_next d = length (d_ordered d))
     \<and> d_started d = map (\<lambda>a. (a, port)) (take (d_next d) (d_ordered d))"

lemma start_more_ok:
  assumes "d_next d \<le> length (d_ordered d)" and "d_started d = map (\<lambda>a. (a, port)) (take (d_next d) (d_ordered d))"
  shows "dial_ok port (start_more port d)"
  using assms by (auto simp: dial_ok_def start_more_def start_attempt_def take_Suc_conv_app_nth)

lemma start_more_simps [simp]:
  "d_ordered (start_more port d) = d_ordered d"
  "d_last_error (start_more port d) = d_last_error d"
  by (simp_all add: start_more_def start_attempt_def)

lemma iterate_start_more:
  "dial_ok port d \<Longrightarrow> dial_ok port ((start_more port ^^ n) d) \<and> d_ordered ((start_more port ^^ n) d) = d_ordered d"
  by (induction n) (auto simp: dial_ok_def dest: start_more_ok)

text \<open>The failures still possible: those of the running attempts and of the addresses not yet dialled.\<close>

definition failures_left :: "dialling \<Rightarrow> nat" where
  "failures_left d = d_attempts d + (length (d_ordered d) - d_next d)"

lemma failures_left_start: "failures_left (start_more port d) = failures_left d"
  by (simp add: failures_left_def start_more_def start_attempt_def Suc_diff_Suc)

lemma failures_left_fail:
  "d_attempts d > 0 \<Longrightarrow> failures_left d = Suc (failures_left (d\<lparr>d_attempts := d_attempts d - Suc 0\<rparr>))"
  "d_attempts d > 0 \<Longrightarrow> failures_left d = Suc (failures_left (d\<lparr>d_attempts := d_attempts d - Suc 0, d_last_error := e\<rparr>))"
  by (auto simp: failures_left_def)

lemma begin_dialling_ok:
  assumes "ordered \<noteq> []"
  shows "dial_ok port (begin_dialling port ordered stagger) \<and> d_ordered (begin_dialling port ordered stagger) = ordered
    \<and> failures_left (begin_dialling port ordered stagger) = length ordered"
proof -
  let ?d = "start_attempt port \<lparr>d_ordered = ordered, d_next = 0, d_attempts = 0, d_last_error = None, d_started = []\<rparr>"
  have d: "dial_ok port ?d" "d_ordered ?d = ordered" "failures_left ?d = length ordered"
    using assms by (auto simp: dial_ok_def failures_left_def start_attempt_def take_Suc_conv_app_nth neq_Nil_conv)
  have "failures_left ((start_more port ^^ n) e) = failures_left e" for n e
    by (induction n) (simp_all add: failures_left_start)
  then show ?thesis using d iterate_start_more [OF d(1)] by (simp add: begin_dialling_def Let_def)
qed

fun is_failure :: "dial_event \<Rightarrow> bool" where
  "is_failure (Connected _) = False"
| "is_failure TimerFired = False"
| "is_failure _ = True"

fun is_connected :: "dial_event \<Rightarrow> bool" where
  "is_connected (Connected _) = True"
| "is_connected _ = False"

lemma dial_event_ok:
  assumes "dial_event_step port stagger d ev = (r, d')" and "dial_ok port d" and "d_attempts d > 0"
  shows "(\<not> is_connected ev \<longrightarrow> dial_ok port d') \<and> d_ordered d' = d_ordered d
    \<and> (is_failure ev \<longrightarrow> failures_left d = Suc (failures_left d')) \<and> (\<not> is_failure ev \<longrightarrow> failures_left d' = failures_left d)
    \<and> (r \<noteq> None \<longleftrightarrow> is_connected ev) \<and> (is_connected ev \<longrightarrow> d' = d)"
proof -
  have more: "dial_ok port (start_more port e)"
    if "d_next e = d_next d" "d_ordered e = d_ordered d" "d_started e = d_started d" for e
    using start_more_ok [of e port] assms(2) that by (simp add: dial_ok_def)
  show ?thesis
    using assms failures_left_fail [OF assms(3)]
    by (cases ev) (auto simp: dial_event_step_def failures_left_start intro!: more split: if_splits)
qed

lemma dial_loop_cases:
  "dial_loop port stagger d evs = (r, d') \<Longrightarrow> dial_ok port d \<Longrightarrow>
    d_started d' = map (\<lambda>a. (a, port)) (take (d_next d') (d_ordered d))
    \<and> (\<forall>e. r = Some (Err e) \<longrightarrow> d_started d' = map (\<lambda>a. (a, port)) (d_ordered d))
    \<and> ((\<exists>ev \<in> set evs. is_connected ev) \<or> failures_left d \<le> length (filter is_failure evs) \<longrightarrow> r \<noteq> None)"
proof (induction evs arbitrary: d)
  case Nil
  then show ?case
    by (auto simp: dial_loop.simps [of _ _ _ "[]"] dial_ok_def failures_left_def split: if_splits)
next
  case (Cons ev evs)
  show ?case
  proof (cases "d_attempts d = 0")
    case True
    then show ?thesis using Cons.prems by (auto simp: dial_loop.simps [of _ _ _ "ev # evs"] dial_ok_def)
  next
    case False
    obtain a d1 where step: "dial_event_step port stagger d ev = (a, d1)" by force
    have pos: "d_attempts d > 0" using False by simp
    note facts = dial_event_ok [OF step Cons.prems(2) pos]
    show ?thesis
    proof (cases a)
      case None
      then have rec: "dial_loop port stagger d1 evs = (r, d')"
        using Cons.prems(1) False step by (simp add: dial_loop.simps [of _ _ _ "ev # evs"])
      show ?thesis using Cons.IH [OF rec] facts None by (cases "is_failure ev") auto
    next
      case (Some x)
      then have "r = Some (Ok x)" "d' = d1"
        using Cons.prems(1) False step by (auto simp: dial_loop.simps [of _ _ _ "ev # evs"])
      then show ?thesis using facts Some Cons.prems(2) by (auto simp: dial_ok_def)
    qed
  qed
qed

lemma happy_eyeballs_cases:
  assumes "happy_eyeballs port addresses stagger evs = (r, started)" and "addresses \<noteq> []"
  shows "(\<exists>n. started = map (\<lambda>a. (a, port)) (take n (interleave_address_families addresses)))
    \<and> (\<forall>e. r = Some (Err e) \<longrightarrow> started = map (\<lambda>a. (a, port)) (interleave_address_families addresses))
    \<and> ((\<exists>ev \<in> set evs. is_connected ev) \<or> length addresses \<le> length (filter is_failure evs) \<longrightarrow> r \<noteq> None)"
proof -
  let ?o = "interleave_address_families addresses"
  have ne: "?o \<noteq> []" and len: "length ?o = length addresses"
    using mset_interleave [of addresses] assms(2) by (metis mset_zero_iff, metis size_mset)
  obtain d where loop: "dial_loop port stagger (begin_dialling port ?o stagger) evs = (r, d)" and d: "started = d_started d"
    using assms(1) ne by (auto simp: happy_eyeballs_def Let_def split: prod.splits)
  show ?thesis
    using dial_loop_cases [OF loop] begin_dialling_ok [OF ne, of port stagger] len d by auto
qed



subsection \<open>The cache\<close>

definition cached_ok :: "string \<times> cached_addresses \<Rightarrow> bool" where
  "cached_ok kc \<longleftrightarrow> c_addresses (snd kc) \<noteq> [] \<and> list_all public_address (c_addresses (snd kc))"

definition cache_ok :: "address_cache \<Rightarrow> bool" where
  "cache_ok c \<longleftrightarrow> distinct (map fst (c_entries c)) \<and> length (c_entries c) \<le> c_max c \<and> c_ttl c \<le> DNS_CACHE_TTL
     \<and> (\<forall>kc \<in> set (c_entries c). cached_ok kc)"

lemma cache_new_ok: "cache_ok (cache_new n ttl)"
  by (simp add: cache_ok_def cache_new_def)

lemma set_delete_sub: "set (AList.delete k al) \<subseteq> set al"
  by (auto simp: AList.delete_eq)

lemma length_delete_mem: "kv \<in> set al \<Longrightarrow> length (AList.delete (fst kv) al) < length al"
  unfolding AList.delete_eq by (rule length_filter_less [of kv]) auto

lemma cache_ok_delete: "cache_ok c \<Longrightarrow> cache_ok (c\<lparr>c_entries := AList.delete key (c_entries c)\<rparr>)"
  using set_delete_sub [of key "c_entries c"] length_delete_le [of key "c_entries c"]
  by (auto simp: cache_ok_def AList.distinct_delete)

lemma cache_ok_get:
  assumes "cache_ok c" and "cache_get_at c host now = (r, c')"
  shows "cache_ok c' \<and> (\<forall>as. r = Some as \<longrightarrow> as \<noteq> [] \<and> list_all public_address as)"
proof (cases "map_of (c_entries c) (normalize_cache_host host)")
  case (Some cached)
  then have "cached_ok (normalize_cache_host host, cached)"
    using assms(1) by (auto simp: cache_ok_def dest!: map_of_SomeD)
  then show ?thesis
    using assms Some cache_ok_delete [OF assms(1)] by (auto simp: cache_get_at_def cached_ok_def split: if_splits)
qed (use assms in \<open>auto simp: cache_get_at_def split: if_splits\<close>)

lemma oldest_entry_least:
  "es \<noteq> [] \<Longrightarrow> \<exists>e \<in> set es. oldest_entry es = Some e \<and> (\<forall>e' \<in> set es. c_expires (snd e) \<le> c_expires (snd e'))"
proof (induction es)
  case (Cons e es)
  show ?case
  proof (cases "es = []")
    case False
    then obtain m where "m \<in> set es" "oldest_entry es = Some m" "\<forall>e' \<in> set es. c_expires (snd m) \<le> c_expires (snd e')"
      using Cons.IH by blast
    then show ?thesis by (auto intro: order_trans less_imp_le)
  qed simp
qed simp

lemma length_update: "length (AList.update k v al) = (if map_of al k = None then Suc (length al) else length al)"
  by (induction al) auto

lemma set_update_sub: "set (AList.update k v al) \<subseteq> insert (k, v) (set al)"
  by (induction al) auto

lemma distinct_filter_keys: "distinct (map fst al) \<Longrightarrow> distinct (map fst (filter P al))"
  by (induction al) auto

definition cache_room :: "address_cache \<Rightarrow> string \<Rightarrow> instant \<Rightarrow> (string \<times> cached_addresses) list" where
  "cache_room c key now =
    (let live = filter (\<lambda>(_, cached). now < c_expires cached) (c_entries c)
     in if map_of live key = None \<and> length live \<ge> c_max c
        then (case oldest_entry live of None \<Rightarrow> live | Some (old, _) \<Rightarrow> AList.delete old live) else live)"

lemma cache_put_room:
  "c_max c > 0 \<Longrightarrow> c_ttl c > 0 \<Longrightarrow> as \<noteq> [] \<Longrightarrow>
    cache_put_at c host as now = c\<lparr>c_entries := AList.update (normalize_cache_host host)
       \<lparr>c_addresses = as, c_expires = now + c_ttl c\<rparr> (cache_room c (normalize_cache_host host) now)\<rparr>"
  by (simp add: cache_put_at_def cache_room_def Let_def)

lemma cache_room_fits:
  assumes "cache_ok c" and "c_max c > 0"
  shows "set (cache_room c key now) \<subseteq> set (c_entries c) \<and> distinct (map fst (cache_room c key now))
    \<and> length (cache_room c key now) + (if map_of (cache_room c key now) key = None then 1 else 0) \<le> c_max c"
proof -
  let ?live = "filter (\<lambda>(_, cached). now < c_expires cached) (c_entries c)"
  have live: "distinct (map fst ?live)" "set ?live \<subseteq> set (c_entries c)" "length ?live \<le> c_max c"
    using assms(1) by (auto simp: cache_ok_def distinct_filter_keys intro: order_trans [OF length_filter_le])
  show ?thesis
  proof (cases "map_of ?live key = None \<and> length ?live \<ge> c_max c")
    case True
    then have "?live \<noteq> []" using assms(2) by auto
    then obtain old where old: "old \<in> set ?live" "oldest_entry ?live = Some old" using oldest_entry_least by blast
    have room: "cache_room c key now = AList.delete (fst old) ?live"
      using True old(2) by (simp add: cache_room_def Let_def split: prod.splits)
    show ?thesis
      unfolding room using live length_delete_mem [OF old(1)] set_delete_sub [of "fst old" ?live]
      by (auto simp: AList.distinct_delete)
  next
    case False
    then have room: "cache_room c key now = ?live" by (simp only: cache_room_def Let_def if_False)
    show ?thesis unfolding room using live False by auto
  qed
qed

lemma cache_ok_put:
  assumes "cache_ok c" and "list_all public_address as"
  shows "cache_ok (cache_put_at c host as now)"
proof (cases "c_max c = 0 \<or> c_ttl c = 0 \<or> as = []")
  case True
  then show ?thesis using assms by (simp add: cache_put_at_def)
next
  case False
  let ?key = "normalize_cache_host host" and ?new = "\<lparr>c_addresses = as, c_expires = now + c_ttl c\<rparr>"
  let ?room = "cache_room c ?key now"
  have room: "set ?room \<subseteq> set (c_entries c)" "distinct (map fst ?room)"
    "length ?room + (if map_of ?room ?key = None then 1 else 0) \<le> c_max c"
    using cache_room_fits [OF assms(1)] False by auto
  have "cached_ok (?key, ?new)" using assms(2) False by (simp add: cached_ok_def)
  then have "\<forall>kc \<in> set (AList.update ?key ?new ?room). cached_ok kc"
    using set_update_sub [of ?key ?new ?room] room(1) assms(1) unfolding cache_ok_def by blast
  then show ?thesis
    using room assms(1) False by (auto simp: cache_put_room cache_ok_def AList.distinct_update length_update simp del: map_of_eq_None_iff split: if_splits)
qed

subsection \<open>Only public addresses are dialled\<close>

lemma validate_addresses_public:
  "validate_addresses as = Ok vs \<Longrightarrow> list_all public_address vs \<and> length vs = length as"
  by (induction as arbitrary: vs) (auto simp: Let_def rbind_def split: if_splits sum.splits)

lemma parse_destination_port: "parse_destination authority = Ok dest \<Longrightarrow> dest_port dest = 443"
  by (auto simp: parse_destination_def rbind_def split: if_splits sum.splits option.splits prod.splits)

lemma lookup_addresses_ok:
  assumes "cache_ok c" and "lookup_addresses c dest now reply later = (r, c')"
  shows "cache_ok c' \<and> (\<forall>as. r = Some (Ok as) \<longrightarrow> as \<noteq> [] \<and> list_all public_address as)"
proof -
  obtain q c1 where get: "cache_get_at c (dest_host dest) now = (q, c1)" by force
  note ok = cache_ok_get [OF assms(1) get]
  show ?thesis
    using assms(2) get ok cache_ok_put [of c1]
    by (auto simp: lookup_addresses_def simp del: validate_addresses.simps dest!: validate_addresses_public
        split: option.splits resolve_reply.splits list.splits sum.splits)
qed

lemma started_public:
  assumes "happy_eyeballs port as stagger evs = (r, started)" and "as \<noteq> []" and "list_all public_address as"
  shows "list_all (\<lambda>(a, p). public_address a \<and> p = port) started"
proof -
  obtain n where n: "started = map (\<lambda>a. (a, port)) (take n (interleave_address_families as))"
    using happy_eyeballs_cases [OF assms(1,2)] by blast
  have "set (interleave_address_families as) = set as" using mset_interleave by (rule mset_eq_setD)
  then show ?thesis using assms(3) n by (auto simp: list_all_iff dest: in_set_takeD)
qed

lemma connect_public:
  assumes "cache_ok c" and "connect stagger c authority now reply later evs = (r, c', started)"
  shows "cache_ok c' \<and> list_all (\<lambda>(a, port). public_address a \<and> port = 443) started"
proof (cases "parse_destination authority")
  case (Inr dest)
  obtain q c1 where look: "lookup_addresses c dest now reply later = (q, c1)" by force
  have "connect_destination stagger c dest now reply later evs = (r, c', started)"
    using assms(2) Inr by (simp add: connect_def)
  then show ?thesis
    using look lookup_addresses_ok [OF assms(1) look] parse_destination_port [OF Inr]
    by (auto simp: connect_destination_def dest!: started_public split: option.splits sum.splits prod.splits)
qed (use assms in \<open>auto simp: connect_def\<close>)

text \<open>The connections of a run: each call sees the cache the one before left.\<close>

type_synonym connect_call = "string \<times> instant \<times> resolve_reply \<times> instant \<times> dial_event list"

fun connect_run :: "duration \<Rightarrow> address_cache \<Rightarrow> connect_call list \<Rightarrow> address_cache \<times> (ip_addr \<times> u16) list" where
  "connect_run stagger c [] = (c, [])"
| "connect_run stagger c ((authority, now, reply, later, evs) # calls) =
    (case connect stagger c authority now reply later evs of
       (_, c1, started) \<Rightarrow> (case connect_run stagger c1 calls of (c2, rest) \<Rightarrow> (c2, started @ rest)))"

lemma connect_run_public:
  "cache_ok c \<Longrightarrow> cache_ok (fst (connect_run stagger c calls))
    \<and> list_all (\<lambda>(a, port). public_address a \<and> port = 443) (snd (connect_run stagger c calls))"
proof (induction calls arbitrary: c)
  case (Cons call calls)
  obtain authority now reply later evs where call: "call = (authority, now, reply, later, evs)" by (cases call) auto
  obtain r c1 started where con: "connect stagger c authority now reply later evs = (r, c1, started)" by (metis prod_cases3)
  obtain c2 rest where rest: "connect_run stagger c1 calls = (c2, rest)" by force
  show ?case using connect_public [OF Cons.prems con] Cons.IH [of c1] call con rest by simp
qed simp

lemma c_max_get: "c_max (snd (cache_get_at c host now)) = c_max c"
  by (simp add: cache_get_at_def Let_def split: option.split)

lemma c_max_put: "c_max (cache_put_at c host as now) = c_max c"
  by (simp add: cache_put_at_def Let_def)

lemma c_max_lookup: "c_max (snd (lookup_addresses c dest now reply later)) = c_max c"
  using c_max_get [of c "dest_host dest" now]
  by (auto simp: lookup_addresses_def c_max_put simp del: validate_addresses.simps
      split: prod.splits option.splits resolve_reply.splits list.splits sum.splits)

lemma c_max_connect: "c_max (fst (snd (connect stagger c authority now reply later evs))) = c_max c"
proof (cases "parse_destination authority")
  case (Inr dest)
  then show ?thesis using c_max_lookup [of c dest now reply later]
    by (auto simp: connect_def connect_destination_def split: prod.splits option.splits sum.splits)
qed (simp add: connect_def)

lemma c_max_run: "c_max (fst (connect_run stagger c calls)) = c_max c"
proof (induction stagger c calls rule: connect_run.induct)
  case (2 stagger c authority now reply later evs calls)
  then show ?case using c_max_connect [of stagger c authority now reply later evs] by (auto split: prod.splits)
qed simp

text \<open>C13: the proxy never connects inside. Whatever the authorities, the answers of the resolver and
  the events of dialling, every address dialled in a run of connections is a public one on port 443,
  and the cache the run leaves holds at most \<open>n\<close> hosts, each once, for at most thirty seconds.\<close>

theorem proxy_dials_public:
  assumes "connect_run stagger (cache_new n ttl) calls = (c, dialled)"
  shows "(\<forall>(a, port) \<in> set dialled. public_address a \<and> port = 443)
    \<and> distinct (map fst (c_entries c)) \<and> length (c_entries c) \<le> n \<and> c_ttl c \<le> secs 30"
  using connect_run_public [OF cache_new_ok, of stagger n ttl calls] c_max_run [of stagger "cache_new n ttl" calls] assms
  by (auto simp: list_all_iff cache_ok_def DNS_CACHE_TTL_def cache_new_def)

theorem proxy_dials_public_witness:
  "connect_run 0 (cache_new 1 (secs 5)) [(''a.b:443'', 0, Resolved [V4 0x08080808], 1, [Refused ''x''])]
      = (\<lparr>c_entries = [(''a.b'', \<lparr>c_addresses = [V4 0x08080808], c_expires = 1 + secs 5\<rparr>)], c_max = 1, c_ttl = secs 5\<rparr>,
         [(V4 0x08080808, 443)])
    \<and> public_address (V4 0x08080808)"
proof -
  have run: "connect_run 0 (cache_new 1 (secs 5)) [(''a.b:443'', 0, Resolved [V4 0x08080808], 1, [Refused ''x''])]
      = (\<lparr>c_entries = [(''a.b'', \<lparr>c_addresses = [V4 0x08080808], c_expires = 1 + secs 5\<rparr>)], c_max = 1, c_ttl = secs 5\<rparr>,
         [(V4 0x08080808, 443)])" by code_simp
  from proxy_dials_public [OF this] run show ?thesis by simp
qed

subsection \<open>The address filter\<close>

text \<open>The reserved IPv4 ranges by their first and last address.\<close>

definition reserved_ranges :: "(nat list \<times> nat list) list" where
  "reserved_ranges =
    [([0,0,0,0], [0,255,255,255]), ([10,0,0,0], [10,255,255,255]), ([100,64,0,0], [100,127,255,255]),
     ([127,0,0,0], [127,255,255,255]), ([169,254,0,0], [169,254,255,255]), ([172,16,0,0], [172,31,255,255]),
     ([192,0,0,0], [192,0,0,255]), ([192,0,2,0], [192,0,2,255]), ([192,31,196,0], [192,31,196,255]),
     ([192,52,193,0], [192,52,193,255]), ([192,88,99,0], [192,88,99,255]), ([192,168,0,0], [192,168,255,255]),
     ([192,175,48,0], [192,175,48,255]), ([198,18,0,0], [198,19,255,255]), ([198,51,100,0], [198,51,100,255]),
     ([203,0,113,0], [203,0,113,255]), ([224,0,0,0], [239,255,255,255]), ([240,0,0,0], [255,255,255,255])]"

definition quad :: "nat list \<Rightarrow> nat" where
  "quad os = foldl (\<lambda>v b. v * 256 + b) 0 os"

lemma mask_prefix:
  fixes a n :: "'a :: len word"
  shows "a AND push_bit k (- 1) = n AND push_bit k (- 1) \<longleftrightarrow> unat a div 2 ^ k = unat n div 2 ^ k"
proof -
  have "a AND push_bit k (- 1) = n AND push_bit k (- 1) \<longleftrightarrow> (\<forall>m \<ge> k. bit a m = bit n m)"
    by (auto simp: bit_eq_iff bit_simps dest: bit_imp_le_length)
  also have "\<dots> \<longleftrightarrow> (\<forall>m. bit (drop_bit k a) m = bit (drop_bit k n) m)"
    by (simp only: bit_drop_bit_eq o_def) (metis le_add1 le_add_diff_inverse)
  also have "\<dots> \<longleftrightarrow> unat (drop_bit k a) = unat (drop_bit k n)"
    by (metis bit_eqI word_unat_eq_iff)
  also have "\<dots> \<longleftrightarrow> unat a div 2 ^ k = unat n div 2 ^ k" by (simp only: unat_drop_bit_eq drop_bit_eq_div [where 'a = nat])
  finally show ?thesis .
qed

lemma prefix_v4_range:
  "prefix_v4 a n b \<longleftrightarrow> unat a div 2 ^ (32 - b) = unat n div 2 ^ (32 - b)"
  by (simp only: prefix_v4_def Let_def mask_prefix)

lemma to_be_4: "to_be 4 x = [byte_of (x div 16777216), byte_of (x div 65536), byte_of (x div 256), byte_of x]"
proof -
  have "to_be (Suc (Suc (Suc (Suc 0)))) x = [byte_of (x div 16777216), byte_of (x div 65536), byte_of (x div 256), byte_of x]"
    by (simp add: div_mult2_eq [symmetric])
  moreover have "4 = Suc (Suc (Suc (Suc 0)))" by simp
  ultimately show ?thesis by (simp only:)
qed

lemma octets_unat:
  "unat (ipv4_octets a ! 0) = unat a div 16777216" "unat (ipv4_octets a ! Suc 0) = unat a div 65536 mod 256"
proof -
  have "unat a < 4294967296" using unsigned_less [of a] by simp
  then have "unat a div 16777216 < 256" by (simp add: div_less_iff_less_mult)
  then show "unat (ipv4_octets a ! 0) = unat a div 16777216" "unat (ipv4_octets a ! Suc 0) = unat a div 65536 mod 256"
    by (simp_all add: ipv4_octets_def to_be_4)
qed

text \<open>The predicates on octets as ranges of a number.\<close>

definition between :: "nat \<Rightarrow> nat \<Rightarrow> nat \<Rightarrow> bool" where
  "between l h x \<longleftrightarrow> l \<le> x \<and> x \<le> h"

lemma div_between: "k > 0 \<Longrightarrow> x div k = q \<longleftrightarrow> between (q * k) (q * k + (k - 1)) x" for x k q :: nat
proof -
  assume "k > 0"
  moreover have "x div k = q \<longleftrightarrow> q * k \<le> x \<and> x < Suc q * k" if "k > 0"
    using that by (metis div_nat_eqI div_times_less_eq_dividend dividend_less_div_times mult.commute mult_Suc)
  ultimately show ?thesis by (auto simp: between_def)
qed

lemma octet_ranges:
  fixes x :: nat
  shows "x div 16777216 = 172 \<and> 16 \<le> x div 65536 mod 256 \<and> x div 65536 mod 256 \<le> 31 \<longleftrightarrow> between 2886729728 2887778303 x"
    and "x div 16777216 = 192 \<and> x div 65536 mod 256 = 168 \<longleftrightarrow> between 3232235520 3232301055 x"
    and "x div 16777216 = 169 \<and> x div 65536 mod 256 = 254 \<longleftrightarrow> between 2851995648 2852061183 x"
    and "224 \<le> x div 16777216 \<and> x div 16777216 \<le> 239 \<longleftrightarrow> between 3758096384 4026531839 x"
proof -
  define p q r where "p = x div 16777216" and "q = x div 65536 mod 256" and "r = x mod 65536"
  have "x div 65536 = 256 * p + q" unfolding between_def p_def q_def by (simp add: div_mult2_eq [of _ 65536 256, simplified])
  then have x: "x = 16777216 * p + 65536 * q + r" unfolding r_def using div_mult_mod_eq [of x 65536] by linarith
  have q: "q < 256" and r: "r < 65536" by (simp_all add: q_def r_def)
  show "x div 16777216 = 172 \<and> 16 \<le> x div 65536 mod 256 \<and> x div 65536 mod 256 \<le> 31 \<longleftrightarrow> between 2886729728 2887778303 x"
    unfolding between_def p_def [symmetric] q_def [symmetric] using x q r by (cases "p = 172") (safe; linarith)+
  show "x div 16777216 = 192 \<and> x div 65536 mod 256 = 168 \<longleftrightarrow> between 3232235520 3232301055 x"
    unfolding between_def p_def [symmetric] q_def [symmetric] using x q r by (cases "p = 192") (safe; linarith)+
  show "x div 16777216 = 169 \<and> x div 65536 mod 256 = 254 \<longleftrightarrow> between 2851995648 2852061183 x"
    unfolding between_def p_def [symmetric] q_def [symmetric] using x q r by (cases "p = 169") (safe; linarith)+
  show "224 \<le> x div 16777216 \<and> x div 16777216 \<le> 239 \<longleftrightarrow> between 3758096384 4026531839 x"
    unfolding between_def p_def [symmetric] using x q r by (safe; linarith)
qed

lemma v4_special_between:
  "v4_special a \<longleftrightarrow> unat a = 0 \<or> between 2130706432 2147483647 (unat a) \<or> between 167772160 184549375 (unat a)
    \<or> between 2886729728 2887778303 (unat a) \<or> between 3232235520 3232301055 (unat a)
    \<or> between 2851995648 2852061183 (unat a) \<or> between 3758096384 4026531839 (unat a) \<or> unat a = 4294967295"
proof -
  have "(- 1 :: u32) = 4294967295" by simp
  then have zero: "a = 0 \<longleftrightarrow> unat a = 0" and ones: "a = - 1 \<longleftrightarrow> unat a = 4294967295"
    by (simp_all only: word_unat_eq_iff) simp_all
  have octets: "map unat (ipv4_octets a) ! 0 = unat a div 16777216" "map unat (ipv4_octets a) ! 1 = unat a div 65536 mod 256"
    by (simp_all add: octets_unat)
  have whole: "unat a div 16777216 = 127 \<longleftrightarrow> between 2130706432 2147483647 (unat a)"
    "unat a div 16777216 = 10 \<longleftrightarrow> between 167772160 184549375 (unat a)"
    by (simp_all add: div_between)
  show ?thesis unfolding v4_special_def Let_def zero ones octets whole octet_ranges by blast
qed

definition denied_bounds :: "(nat \<times> nat) list" where
  "denied_bounds =
    [(0, 16777215), (1681915904, 1686110207), (2851995648, 2852061183), (3221225472, 3221225727),
     (3221225984, 3221226239), (3223307264, 3223307519), (3224682752, 3224683007), (3227017984, 3227018239),
     (3232706560, 3232706815), (3323068416, 3323199487), (3325256704, 3325256959), (3405803776, 3405804031),
     (4026531840, 4294967295)]"

text \<open>the address filter. A resolved IPv4 address is public exactly when it lies in none of the
  eighteen reserved ranges; an IPv4 address mapped into IPv6 is treated as the IPv4 address.\<close>

theorem public_v4_ranges:
  "public_address (V4 a) \<longleftrightarrow> list_all (\<lambda>(first, final). \<not> between (quad first) (quad final) (unat a)) reserved_ranges"
proof -
  have ends: "\<not> between 0 16777215 (unat a) \<Longrightarrow> 0 < unat a" "\<not> between 4026531840 4294967295 (unat a) \<Longrightarrow> unat a \<noteq> 4294967295"
    by (auto simp: between_def)
  have "list_ex (\<lambda>(network, bits). prefix_v4 a network bits) DENIED_V4 \<longleftrightarrow> list_ex (\<lambda>(l, h). between l h (unat a)) denied_bounds"
    by (simp add: DENIED_V4_def denied_bounds_def prefix_v4_range div_between)
  moreover have "list_all (\<lambda>(first, final). \<not> between (quad first) (quad final) (unat a)) reserved_ranges
      \<longleftrightarrow> \<not> (v4_special a \<or> list_ex (\<lambda>(l, h). between l h (unat a)) denied_bounds)"
    unfolding v4_special_between using ends by (simp add: reserved_ranges_def denied_bounds_def quad_def) blast
  ultimately show ?thesis by (simp add: public_address_def)
qed

subsection \<open>What the cache returns\<close>

text \<open>the cache returns what was put, under every spelling of the host (case and trailing dots do
  not matter), until the time to live has passed, and nothing from then on.\<close>

theorem cache_get_put:
  assumes "c_max c > 0" and "c_ttl c > 0" and "as \<noteq> []" and "normalize_cache_host host' = normalize_cache_host host"
  shows "fst (cache_get_at (cache_put_at c host as now) host' later) = (if later < now + c_ttl c then Some as else None)"
  using assms by (simp add: cache_put_room cache_get_at_def update_conv' Let_def)

theorem cache_get_put_witness:
  "fst (cache_get_at (cache_put_at (cache_new 4 (secs 9)) ''Example.COM.'' [V4 7] 5) ''example.com'' 6) = Some [V4 7]"
proof -
  have "normalize_cache_host ''example.com'' = normalize_cache_host ''Example.COM.''" by code_simp
  from cache_get_put [OF _ _ _ this, of "cache_new 4 (secs 9)" "[V4 7]" 5 6] show ?thesis
    by (simp add: cache_new_def DNS_CACHE_TTL_def)
qed

end
