(* ===== verification/Connect_Ip.thy ===== *)
theory Connect_Ip
  imports Wire_Masque Wire_Mtu H2_Lane
begin

text \<open>
  CONNECT-IP on the server: the capsules in the buffer of a stream, the answer to an address
  request and the responder of the MTU discovery (porta-server/src/transport/http3.rs).
\<close>

subsection \<open>Capsules in a buffer\<close>

definition append_varint :: "bytes \<Rightarrow> u64 \<Rightarrow> masque_error + bytes" where
  "append_varint output v =
    (if unat v \<le> 63 then Ok (output @ [ucast v])
     else if unat v \<le> 16383 then Ok (output @ u16_to_be_bytes (ucast v OR 0x4000))
     else if unat v \<le> 1073741823 then Ok (output @ u32_to_be_bytes (ucast v OR 0x80000000))
     else if unat v \<le> 0x3fffffffffffffff then Ok (output @ u64_to_be_bytes (v OR 0xc000000000000000))
     else Err VarIntTooLarge)"

definition append_capsule :: "bytes \<Rightarrow> u64 \<Rightarrow> bytes \<Rightarrow> masque_error + bytes" where
  "append_capsule output ctype data =
    (if length data > MAX_CAPSULE_SIZE then Err CapsuleTooLarge
     else rbind (append_varint output ctype) (\<lambda>output.
       rbind (append_varint output (u64_of (length data))) (\<lambda>output. Ok (output @ data))))"

definition append_ip_capsule :: "bytes \<Rightarrow> bytes \<Rightarrow> masque_error + bytes" where
  "append_ip_capsule output packet =
    rbind (append_varint output CAPSULE_DATAGRAM) (\<lambda>output.
      rbind (append_varint output (u64_of (length packet + 1))) (\<lambda>output. Ok (output @ [0] @ packet)))"

definition decode_ip_bytes :: "bytes \<Rightarrow> masque_error + bytes" where
  "decode_ip_bytes data =
    rbind (parse_varint data) (\<lambda>(context_id, consumed).
      if context_id \<noteq> 0 then Err (UnknownContext context_id)
      else if consumed = length data then Err EmptyIpDatagram
      else Ok (drop consumed data))"

text \<open>\<open>take_capsule\<close>: an error, or the first capsule and the rest of the buffer, or \<open>None\<close> while the
  capsule is incomplete (the buffer stays as it is).\<close>

definition take_capsule :: "bytes \<Rightarrow> masque_error + ((u64 \<times> bytes) \<times> bytes) option" where
  "take_capsule buffer =
    (case parse_varint buffer of
       Err e \<Rightarrow> if e = TruncatedVarInt then Ok None else Err e
     | Ok (ctype, type_length) \<Rightarrow>
         (case parse_varint (drop type_length buffer) of
            Err e \<Rightarrow> if e = TruncatedVarInt then Ok None else Err e
          | Ok (len, length_length) \<Rightarrow>
              if unat len > MAX_CAPSULE_SIZE then Err CapsuleTooLarge
              else
                let header = type_length + length_length; n = unat len in
                if length buffer < header + n then Ok None
                else Ok (Some ((ctype, take n (drop header buffer)), drop (header + n) buffer))))"

text \<open>The loop \<open>while let Some((capsule_type, value)) = take_capsule(&mut buffer)?\<close> of both tunnels, around
  what they do with a capsule: \<open>handle\<close> ends the loop with an error or goes on.\<close>

lemma parse_varint_consumes: "parse_varint data = Ok (v, n) \<Longrightarrow> 0 < n \<and> n \<le> length data"
  by (auto simp: parse_varint_def Let_def split: list.splits if_splits)

lemma take_capsule_shorter: "take_capsule buffer = Ok (Some (c, rest)) \<Longrightarrow> length rest < length buffer"
  by (fastforce simp: take_capsule_def Let_def dest!: parse_varint_consumes split: sum.splits if_splits)

function capsule_loop ::
  "(masque_error \<Rightarrow> 'e) \<Rightarrow> (u64 \<Rightarrow> bytes \<Rightarrow> 's \<Rightarrow> 'e option \<times> 's) \<Rightarrow> bytes \<Rightarrow> 's \<Rightarrow> 'e option \<times> bytes \<times> 's" where
  "capsule_loop failed handle buffer s =
    (case take_capsule buffer of
       Err e \<Rightarrow> (Some (failed e), buffer, s)
     | Ok None \<Rightarrow> (None, buffer, s)
     | Ok (Some ((ctype, data), rest)) \<Rightarrow>
         (case handle ctype data s of
            (Some e, s') \<Rightarrow> (Some e, rest, s')
          | (None, s') \<Rightarrow> capsule_loop failed handle rest s'))"
  by pat_completeness auto
termination by (relation "measure (\<lambda>(_, _, buffer, _). length buffer)") (auto dest: take_capsule_shorter)

declare capsule_loop.simps [simp del]

subsection \<open>The codec agrees with the one of the wire crate\<close>

lemma append_varint_encode: "append_varint output v = rbind (encode_varint v) (\<lambda>encoded. Ok (output @ encoded))"
proof -
  have "(replicate 8 0 :: bytes)[0 := b] = b # replicate 7 0" for b by (simp add: numeral_eq_Suc)
  then show ?thesis by (auto simp: append_varint_def encode_varint_def encode_varint_into_def copy_at_def)
qed

lemma append_varint_Ok: "append_varint output v = Ok out \<longleftrightarrow> unat v < 2 ^ 62 \<and> out = output @ varint_bytes (unat v)"
proof (cases "unat v < 2 ^ 62")
  case True
  then show ?thesis
    using encode_varint_into_Ok [OF True, of "replicate 8 0"] by (auto simp: append_varint_encode encode_varint_def)
next
  case False
  then have "encode_varint_into v (replicate 8 0) = Err VarIntTooLarge"
    by (intro encode_varint_into_Err) (simp only: not_less)
  then show ?thesis using False by (simp add: append_varint_encode encode_varint_def)
qed

lemma append_capsule_Ok:
  "append_capsule output t v = Ok out \<longleftrightarrow>
    capsule_valid \<lparr>capsule_type = t, capsule_value = v\<rparr> \<and> out = output @ capsule_wire \<lparr>capsule_type = t, capsule_value = v\<rparr>"
  by (auto simp: append_capsule_def append_varint_Ok capsule_valid_def capsule_wire_def MAX_CAPSULE_SIZE_def split: if_splits)

lemma append_ip_capsule_Ok:
  assumes "length packet < MAX_CAPSULE_SIZE"
  shows "append_ip_capsule output packet
    = Ok (output @ capsule_wire \<lparr>capsule_type = CAPSULE_DATAGRAM, capsule_value = encode_ip_packet packet\<rparr>)"
proof -
  have "unat (u64_of (length packet + 1)) = length packet + 1" using assms by (simp add: MAX_CAPSULE_SIZE_def)
  then have "append_ip_capsule output packet = Ok (output @ varint_bytes 0 @ varint_bytes (length packet + 1) @ [0] @ packet)"
    using assms append_varint_Ok [of "output" CAPSULE_DATAGRAM] append_varint_Ok [of "output @ varint_bytes 0" "u64_of (length packet + 1)"]
    by (simp add: append_ip_capsule_def CAPSULE_DATAGRAM_def MAX_CAPSULE_SIZE_def)
  then show ?thesis by (simp add: capsule_wire_def CAPSULE_DATAGRAM_def encode_ip_packet_def)
qed

lemma decode_ip_bytes_eq: "decode_ip_bytes = decode_ip_packet"
  by (rule ext) (simp only: decode_ip_bytes_def decode_ip_packet_def eq_commute [of "length _"])

subsection \<open>The loop does not depend on how the buffer was filled\<close>

lemma parse_varint_append: "parse_varint data = Ok (v, n) \<Longrightarrow> parse_varint (data @ later) = Ok (v, n)"
proof (cases data)
  case (Cons b bs)
  assume "parse_varint data = Ok (v, n)"
  moreover from this have "take n (data @ later) = take n data" using parse_varint_consumes by simp
  ultimately show ?thesis using Cons by (auto simp: parse_varint_def Let_def split: if_splits)
qed (simp add: parse_varint_def)

lemma parse_varint_Err: "parse_varint data = Err e \<Longrightarrow> e = TruncatedVarInt"
  by (auto simp: parse_varint_def Let_def split: list.splits if_splits)

lemma take_capsule_header:
  assumes "take_capsule a \<noteq> Ok None"
  obtains t n len m where "parse_varint a = Ok (t, n)" "parse_varint (drop n a) = Ok (len, m)" "n \<le> length a" "n + m \<le> length a"
proof -
  obtain t n where t: "parse_varint a = Ok (t, n)"
    using assms by (cases "parse_varint a") (auto simp: take_capsule_def dest: parse_varint_Err)
  obtain len m where len: "parse_varint (drop n a) = Ok (len, m)"
    using assms t by (cases "parse_varint (drop n a)") (auto simp: take_capsule_def dest: parse_varint_Err)
  show ?thesis using that [OF t len] parse_varint_consumes [OF t] parse_varint_consumes [OF len] by auto
qed

lemma take_capsule_append:
  assumes "take_capsule a \<noteq> Ok None"
  shows "take_capsule (a @ b) = (case take_capsule a of Err e \<Rightarrow> Err e | Ok r \<Rightarrow> Ok (map_option (\<lambda>(c, rest). (c, rest @ b)) r))"
proof -
  obtain t n len m where p: "parse_varint a = Ok (t, n)" "parse_varint (drop n a) = Ok (len, m)" "n \<le> length a" "n + m \<le> length a"
    using take_capsule_header [OF assms] .
  have q: "parse_varint (a @ b) = Ok (t, n)" "parse_varint (drop n (a @ b)) = Ok (len, m)"
    using parse_varint_append [OF p(1)] parse_varint_append [OF p(2)] p(3) by simp_all
  show ?thesis
  proof (cases "unat len > MAX_CAPSULE_SIZE")
    case True
    then show ?thesis by (simp add: take_capsule_def p(1,2) q del: drop_append)
  next
    case False
    then have "n + m + unat len \<le> length a" using assms p(1,2) by (auto simp: take_capsule_def Let_def split: if_splits)
    then show ?thesis using False q(2) p(3) by (simp add: take_capsule_def p(1,2) q(1) Let_def)
  qed
qed

lemma capsule_loop_append:
  "capsule_loop failed handle (a @ b) s =
    (case capsule_loop failed handle a s of
       (Some e, rest, s') \<Rightarrow> (Some e, rest @ b, s')
     | (None, rest, s') \<Rightarrow> capsule_loop failed handle (rest @ b) s')"
proof (induction failed handle a s rule: capsule_loop.induct)
  case (1 failed handle a s)
  show ?case
  proof (cases "take_capsule a")
    case (Inl e)
    then show ?thesis by (simp add: capsule_loop.simps [of _ _ a] capsule_loop.simps [of _ _ "a @ b"] take_capsule_append)
  next
    case (Inr r)
    show ?thesis
    proof (cases r)
      case None
      then show ?thesis using Inr by (simp add: capsule_loop.simps [of _ _ a])
    next
      case (Some cr)
      obtain t v rest where cr: "cr = ((t, v), rest)" by (cases cr) auto
      note once = Inr [unfolded Some cr]
      show ?thesis
        using "1.IH" [OF Inr Some cr [symmetric] refl] take_capsule_append [of a b]
        by (auto simp: capsule_loop.simps [of _ _ a] capsule_loop.simps [of _ _ "a @ b"] once split: prod.splits option.splits)
    qed
  qed
qed

text \<open>What the loop leaves in the buffer is less than one capsule, so that the check on the size of the
  buffer after the loop never fires.\<close>

lemma parse_varint_len: "parse_varint data = Ok (v, n) \<Longrightarrow> n \<le> 8"
proof (cases data)
  case (Cons b bs)
  have "unat b div 64 < 4" using unat_u8_less [of b] by (simp add: div_less_iff_less_mult)
  then have "unat (drop_bit 6 b) \<le> 3" by (simp add: bits)
  then have "(2 :: nat) ^ unat (drop_bit 6 b) \<le> 2 ^ 3" by (rule power_increasing) simp
  then show "parse_varint data = Ok (v, n) \<Longrightarrow> n \<le> 8" using Cons by (auto simp: parse_varint_def Let_def split: if_splits)
qed (simp add: parse_varint_def)

lemma parse_varint_short: "parse_varint data = Err e \<Longrightarrow> length data < 8"
proof (cases data)
  case (Cons b bs)
  have "unat b div 64 < 4" using unat_u8_less [of b] by (simp add: div_less_iff_less_mult)
  then have "unat (drop_bit 6 b) \<le> 3" by (simp add: bits)
  then have "(2 :: nat) ^ unat (drop_bit 6 b) \<le> 2 ^ 3" by (rule power_increasing) simp
  then show "parse_varint data = Err e \<Longrightarrow> length data < 8" using Cons by (auto simp: parse_varint_def Let_def split: if_splits)
qed simp

lemma take_capsule_None:
  assumes "take_capsule buffer = Ok None"
  shows "length buffer < MAX_CAPSULE_SIZE + 16"
proof (cases "parse_varint buffer")
  case (Inl e)
  then show ?thesis using parse_varint_short by (fastforce simp: MAX_CAPSULE_SIZE_def)
next
  case (Inr tn)
  obtain t n where t: "parse_varint buffer = Ok (t, n)" using Inr by (cases tn) auto
  have n: "n \<le> 8" using parse_varint_len [OF t] .
  show ?thesis
  proof (cases "parse_varint (drop n buffer)")
    case (Inl e)
    then show ?thesis using parse_varint_short [OF Inl] n by (simp add: MAX_CAPSULE_SIZE_def)
  next
    case (Inr lm)
    obtain len m where len: "parse_varint (drop n buffer) = Ok (len, m)" using Inr by (cases lm) auto
    then show ?thesis using parse_varint_len [OF len] n assms t
      by (auto simp: take_capsule_def Let_def split: if_splits)
  qed
qed

lemma capsule_loop_rest:
  "capsule_loop failed handle buffer s = (None, rest, s') \<Longrightarrow> take_capsule rest = Ok None"
proof (induction failed handle buffer s rule: capsule_loop.induct)
  case (1 failed handle buffer s)
  note unfold = "1.prems" [unfolded capsule_loop.simps [of failed handle buffer s]]
  show ?case
  proof (cases "take_capsule buffer")
    case (Inr r)
    then show ?thesis
    proof (cases r)
      case (Some cr)
      obtain t v rest1 where cr: "cr = ((t, v), rest1)" by (cases cr) auto
      obtain e s1 where h: "handle t v s = (e, s1)" by force
      then have "e = None" "capsule_loop failed handle rest1 s1 = (None, rest, s')"
        using unfold Inr Some cr by (auto split: option.splits)
      then show ?thesis using "1.IH" [OF Inr Some cr [symmetric] refl] h by metis
    qed (use unfold Inr in simp)
  qed (use unfold in simp)
qed

subsection \<open>The capsules of a buffer\<close>

text \<open>The reference for what a loop over a buffer sees: its complete capsules and what is left.\<close>

function split_capsules :: "bytes \<Rightarrow> (u64 \<times> bytes) list \<times> bytes" where
  "split_capsules buffer =
    (case take_capsule buffer of
       Ok (Some (c, rest)) \<Rightarrow> (case split_capsules rest of (cs, left) \<Rightarrow> (c # cs, left))
     | _ \<Rightarrow> ([], buffer))"
  by pat_completeness auto
termination by (relation "measure length") (auto dest: take_capsule_shorter)

declare split_capsules.simps [simp del]

lemma split_capsules_stop: "take_capsule buffer = Ok None \<or> (\<exists>e. take_capsule buffer = Err e) \<Longrightarrow> split_capsules buffer = ([], buffer)"
  by (auto simp: split_capsules.simps [of buffer])

lemma split_capsules_next:
  "take_capsule buffer = Ok (Some (c, rest)) \<Longrightarrow> split_capsules buffer = (c # fst (split_capsules rest), snd (split_capsules rest))"
  by (simp add: split_capsules.simps [of buffer] split: prod.splits)

lemma take_capsule_wire:
  assumes "capsule_valid c"
  shows "take_capsule (capsule_wire c @ rest) = Ok (Some ((capsule_type c, capsule_value c), rest))"
proof -
  let ?t = "unat (capsule_type c)" and ?v = "capsule_value c"
  have t: "?t < 2 ^ 62" and l: "length ?v \<le> 1048576" "length ?v < 2 ^ 62"
    using assms by (simp_all add: capsule_valid_def MAX_CAPSULE_SIZE_def)
  have "unat (u64_of (length ?v)) = length ?v" using l by simp
  then show ?thesis
    using parse_varint_bytes [OF t, of "varint_bytes (length ?v) @ ?v @ rest"] parse_varint_bytes [OF l(2), of "?v @ rest"] l(1)
    by (simp add: take_capsule_def capsule_wire_def MAX_CAPSULE_SIZE_def Let_def)
qed

lemma split_capsules_wire:
  "list_all capsule_valid cs \<Longrightarrow> split_capsules (concat (map capsule_wire cs) @ rest)
    = (map (\<lambda>c. (capsule_type c, capsule_value c)) cs @ fst (split_capsules rest), snd (split_capsules rest))"
proof (induction cs)
  case (Cons c cs)
  then show ?case
    using split_capsules_next [OF take_capsule_wire [of c "concat (map capsule_wire cs) @ rest"]] by simp
qed simp

lemma split_capsules_append:
  "split_capsules (a @ b) = (fst (split_capsules a) @ fst (split_capsules (snd (split_capsules a) @ b)),
     snd (split_capsules (snd (split_capsules a) @ b)))"
proof (induction a rule: split_capsules.induct)
  case (1 a)
  show ?case
  proof (cases "\<exists>c rest. take_capsule a = Ok (Some (c, rest))")
    case True
    then obtain c rest where c: "take_capsule a = Ok (Some (c, rest))" by blast
    then have "take_capsule (a @ b) = Ok (Some (c, rest @ b))" using take_capsule_append [of a b] by simp
    then show ?thesis using split_capsules_next [OF c] split_capsules_next [of "a @ b" c "rest @ b"] "1.IH" [OF c] by simp
  next
    case False
    then have "split_capsules a = ([], a)" by (intro split_capsules_stop) (metis not_None_eq sum.exhaust surj_pair)
    then show ?thesis by simp
  qed
qed

subsection \<open>Address requests\<close>

text \<open>The loop over the requests: the first IPv4 request gets the address of the lease, every other
  request is refused with the unspecified address. \<open>None\<close> is the panic of \<open>expect\<close>.\<close>

fun answer_requests ::
  "('n4, 'n6) ipnet \<Rightarrow> ipv4_addr \<Rightarrow> bool \<Rightarrow> ('n4, 'n6) address list \<Rightarrow> (('n4, 'n6) address list \<times> bool) option" where
  "answer_requests api lease requested [] = Some ([], requested)"
| "answer_requests api lease requested (request # requests) =
    (case (case prefix_net request of
             NetV4 _ \<Rightarrow> (if \<not> requested then (map_option NetV4 (v4_new api lease 32), True)
                         else (map_option NetV4 (v4_new api 0 32), requested))
           | NetV6 _ \<Rightarrow> (map_option NetV6 (v6_new api 0 128), requested)) of
       (None, _) \<Rightarrow> None
     | (Some net, requested) \<Rightarrow>
         map_option (\<lambda>(responses, r). (\<lparr>request_id = request_id request, prefix_net = net\<rparr> # responses, r))
           (answer_requests api lease requested requests))"

definition default_route :: route where
  "default_route = \<lparr>route_start = V4 0, route_end = V4 (- 1), route_protocol = 0\<rparr>"

definition assignment_capsules :: "('n4, 'n6) ipnet \<Rightarrow> ('n4, 'n6) address list \<Rightarrow> bool \<Rightarrow> masque_error + bytes \<times> bool" where
  "assignment_capsules api responses becomes_assigned =
    rbind (encode_address_assign api responses) (\<lambda>assignment.
    rbind (append_capsule [] CAPSULE_ADDRESS_ASSIGN assignment) (\<lambda>control.
      if becomes_assigned then
        rbind (encode_route_advertisement [default_route]) (\<lambda>routes.
        rbind (append_capsule control CAPSULE_ROUTE_ADVERTISEMENT routes) (\<lambda>control. Ok (control, True)))
      else Ok (control, False)))"

definition address_response ::
  "('n4, 'n6) ipnet \<Rightarrow> ipv4_addr \<Rightarrow> bool \<Rightarrow> bytes \<Rightarrow> (masque_error + bytes \<times> bool) option" where
  "address_response api lease assigned data =
    (case decode_address_request api data of
       Err e \<Rightarrow> Some (Err e)
     | Ok requests \<Rightarrow>
         Option.bind (answer_requests api lease False requests) (\<lambda>(responses, requested_ipv4).
         Option.bind (if assigned \<and> \<not> requested_ipv4
                      then map_option (\<lambda>net. responses @ [\<lparr>request_id = 0, prefix_net = NetV4 net\<rparr>]) (v4_new api lease 32)
                      else Some responses) (\<lambda>responses.
           Some (assignment_capsules api responses (assigned \<or> requested_ipv4)))))"

subsection \<open>MTU discovery\<close>

definition MAX_MTU_PROBES :: nat where "MAX_MTU_PROBES = 16"

record mtu_responder =
  r_token :: mtu_token
  r_maximum :: u16
  r_selected :: u16
  r_offered :: instant
  r_probes :: nat
  r_proven :: "bool list"
  r_committed :: bool

definition responder_new :: "mtu_token \<Rightarrow> instant \<Rightarrow> u16 \<Rightarrow> mtu_responder" where
  "responder_new token now maximum =
    \<lparr>r_token = token, r_maximum = min maximum MAX_DISCOVERED_MTU, r_selected = maximum, r_offered = now, r_probes = 0,
     r_proven = replicate (unat (MAX_DISCOVERED_MTU - SAFE_MTU + 1)) False, r_committed = False\<rparr>"

definition accept_probe :: "instant \<Rightarrow> bytes \<Rightarrow> mtu_responder \<Rightarrow> (masque_error + bool) \<times> mtu_responder" where
  "accept_probe now data m =
    (case decode_mtu_probe data of
       Err e \<Rightarrow> (Err e, m)
     | Ok probe \<Rightarrow>
         if r_committed m \<or> now - r_offered m > secs 3 \<or> r_probes m \<ge> MAX_MTU_PROBES
            \<or> probe_token probe \<noteq> r_token m \<or> probe_size probe > r_maximum m
         then (Err InvalidMtuMessage, m)
         else (Ok True, m\<lparr>r_probes := r_probes m + 1\<rparr>))"

text \<open>\<open>None\<close> is the panic of a subtraction below zero or of an index out of bounds.\<close>

definition proven_index :: "u16 \<Rightarrow> mtu_responder \<Rightarrow> nat option" where
  "proven_index sz m =
    (if sz < SAFE_MTU then None
     else let i = unat (sz - SAFE_MTU) in if i < length (r_proven m) then Some i else None)"

definition probe_echoed :: "bytes \<Rightarrow> mtu_responder \<Rightarrow> ((masque_error + unit) \<times> mtu_responder) option" where
  "probe_echoed data m =
    (case decode_mtu_probe data of
       Err e \<Rightarrow> Some (Err e, m)
     | Ok probe \<Rightarrow> map_option (\<lambda>i. (Ok (), m\<lparr>r_proven := (r_proven m)[i := True]\<rparr>)) (proven_index (probe_size probe) m))"

definition commit :: "bytes \<Rightarrow> mtu_responder \<Rightarrow> ((masque_error + bytes) \<times> mtu_responder) option" where
  "commit data m =
    (case decode_mtu_selection data (r_token m) of
       Err e \<Rightarrow> Some (Err e, m)
     | Ok selected \<Rightarrow>
         if selected < SAFE_MTU \<or> selected > r_maximum m then Some (Err InvalidMtuMessage, m)
         else Option.bind (if selected > SAFE_MTU then map_option (\<lambda>i. \<not> r_proven m ! i) (proven_index selected m) else Some False)
           (\<lambda>unproven.
             if unproven \<or> (r_committed m \<and> selected \<noteq> r_selected m) then Some (Err InvalidMtuMessage, m)
             else Some (Ok (encode_mtu_selection (r_token m) selected), m\<lparr>r_selected := selected, r_committed := True\<rparr>)))"

text \<open>What the tunnel does with the responder: a probe that arrives is checked and echoed as a datagram,
  and marked as proven once the echo has been sent; a selection is committed. \<open>None\<close> is a panic.\<close>

datatype responder_op = Probe instant bytes bool | Select bytes

fun responder_do :: "mtu_responder \<Rightarrow> responder_op \<Rightarrow> mtu_responder option" where
  "responder_do m (Probe now data echoed) =
    (case accept_probe now data m of
       (Ok True, m') \<Rightarrow> if echoed then map_option snd (probe_echoed data m') else Some m'
     | (_, m') \<Rightarrow> Some m')"
| "responder_do m (Select data) = map_option snd (commit data m)"

fun run_responder :: "mtu_responder \<Rightarrow> responder_op list \<Rightarrow> mtu_responder option" where
  "run_responder m [] = Some m"
| "run_responder m (op # ops) = Option.bind (responder_do m op) (\<lambda>m'. run_responder m' ops)"

text \<open>The sizes for which an echoed probe with the responder's token is among the operations.\<close>

definition probed :: "mtu_token \<Rightarrow> responder_op list \<Rightarrow> u16 \<Rightarrow> bool" where
  "probed token ops sz \<longleftrightarrow> (\<exists>now data probe. Probe now data True \<in> set ops \<and> decode_mtu_probe data = Ok probe
     \<and> probe_token probe = token \<and> probe_size probe = sz)"

definition responder_inv :: "mtu_token \<Rightarrow> u16 \<Rightarrow> responder_op list \<Rightarrow> mtu_responder \<Rightarrow> bool" where
  "responder_inv token maximum ops m \<longleftrightarrow> r_token m = token \<and> r_maximum m = min maximum MAX_DISCOVERED_MTU
     \<and> length (r_proven m) = 301 \<and> r_probes m \<le> MAX_MTU_PROBES
     \<and> (\<forall>i < 301. r_proven m ! i \<longrightarrow> probed token ops (SAFE_MTU + u16_of i))
     \<and> (r_committed m \<longrightarrow> SAFE_MTU \<le> r_selected m \<and> r_selected m \<le> r_maximum m
          \<and> (r_selected m = SAFE_MTU \<or> probed token ops (r_selected m)))
     \<and> (\<not> r_committed m \<longrightarrow> r_selected m = maximum)"

lemma responder_new_inv: "responder_inv token maximum [] (responder_new token now maximum)"
  by (simp add: responder_inv_def responder_new_def MAX_DISCOVERED_MTU_def SAFE_MTU_def)

lemma probed_more: "probed token ops sz \<Longrightarrow> probed token (ops @ later) sz"
  by (auto simp: probed_def)

lemma proven_index_Some:
  assumes "SAFE_MTU \<le> sz" and "sz \<le> MAX_DISCOVERED_MTU" and "length (r_proven m) = 301"
  shows "\<exists>i < 301. proven_index sz m = Some i \<and> SAFE_MTU + u16_of i = sz"
proof -
  have le: "unat SAFE_MTU \<le> unat sz" "unat sz \<le> 1400"
    using assms(1,2) by (simp_all add: word_le_nat_alt MAX_DISCOVERED_MTU_def)
  then have "unat (sz - SAFE_MTU) = unat sz - 1100" by (simp add: unat_sub_if' SAFE_MTU_def)
  then have "unat (sz - SAFE_MTU) < 301" using le by simp
  moreover have "SAFE_MTU + u16_of (unat (sz - SAFE_MTU)) = sz" by simp
  ultimately show ?thesis using assms(1,3) by (auto simp: proven_index_def Let_def not_less)
qed

lemma decode_probe_size:
  assumes "decode_mtu_probe data = Ok probe"
  shows "SAFE_MTU \<le> probe_size probe \<and> probe_size probe \<le> MAX_DISCOVERED_MTU"
  using assms by (auto simp: decode_mtu_probe_def Let_def word_le_nat_alt SAFE_MTU_def MAX_DISCOVERED_MTU_def split: if_splits)

lemma accept_probe_cases:
  assumes "accept_probe now data m = (r, m')"
  shows "m' = m \<and> r \<noteq> Ok True \<or> r = Ok True \<and> m' = m\<lparr>r_probes := r_probes m + 1\<rparr> \<and> \<not> r_committed m \<and> r_probes m < MAX_MTU_PROBES
    \<and> (\<exists>probe. decode_mtu_probe data = Ok probe \<and> probe_token probe = r_token m)"
  using assms by (auto simp: accept_probe_def split: sum.splits if_splits)

lemma probe_echoed_inv:
  assumes "responder_inv token maximum ops m" and "decode_mtu_probe data = Ok probe" and "probe_token probe = token"
    and "\<not> r_committed m"
  shows "\<exists>m'. probe_echoed data m = Some (Ok (), m') \<and> responder_inv token maximum (ops @ [Probe now data True]) m'
    \<and> \<not> r_committed m'"
proof -
  have len: "length (r_proven m) = 301" using assms(1) by (simp add: responder_inv_def)
  obtain i where i: "i < 301" "proven_index (probe_size probe) m = Some i" "SAFE_MTU + u16_of i = probe_size probe"
    using proven_index_Some [of "probe_size probe" m] decode_probe_size [OF assms(2)] len by blast
  have new: "probed token (ops @ [Probe now data True]) (probe_size probe)" using assms(2,3) by (auto simp: probed_def)
  show ?thesis
    using assms i len new
    by (auto simp: probe_echoed_def responder_inv_def nth_list_update intro: probed_more)
qed

lemma commit_inv:
  assumes "responder_inv token maximum ops m"
  shows "\<exists>r m'. commit data m = Some (r, m') \<and> responder_inv token maximum (ops @ [Select data]) m'
    \<and> (r_committed m \<longrightarrow> r_committed m' \<and> r_selected m' = r_selected m)"
proof -
  have same: "responder_inv token maximum (ops @ [Select data]) m"
    using assms by (auto simp: responder_inv_def intro: probed_more)
  show ?thesis
  proof (cases "decode_mtu_selection data (r_token m)")
    case (Inl e)
    then show ?thesis using same by (simp add: commit_def)
  next
    case (Inr sel)
    show ?thesis
    proof (cases "sel < SAFE_MTU \<or> sel > r_maximum m")
      case True
      then show ?thesis using same Inr by (simp add: commit_def)
    next
      case False
      then have le: "SAFE_MTU \<le> sel" "sel \<le> r_maximum m" "sel \<le> MAX_DISCOVERED_MTU"
        using assms by (auto simp: responder_inv_def not_less)
      obtain i where i: "i < 301" "proven_index sel m = Some i" "SAFE_MTU + u16_of i = sel"
        using proven_index_Some [OF le(1,3)] assms by (auto simp: responder_inv_def)
      have "probed token (ops @ [Select data]) sel" if "r_proven m ! i"
        using that i assms by (auto simp: responder_inv_def intro: probed_more)
      then show ?thesis
        using assms same False le i Inr
        by (cases "SAFE_MTU < sel") (auto simp: commit_def responder_inv_def intro: probed_more)
    qed
  qed
qed

lemma responder_step:
  assumes "responder_inv token maximum ops m"
  shows "\<exists>m'. responder_do m op = Some m' \<and> responder_inv token maximum (ops @ [op]) m'
    \<and> (r_committed m \<longrightarrow> r_committed m' \<and> r_selected m' = r_selected m)"
proof (cases op)
  case (Probe now data echoed)
  obtain r m1 where acc: "accept_probe now data m = (r, m1)" by force
  have same: "responder_inv token maximum (ops @ [op]) m"
    using assms by (auto simp: responder_inv_def intro: probed_more)
  from accept_probe_cases [OF acc] show ?thesis
  proof (elim disjE conjE exE)
    assume "m1 = m" "r \<noteq> Ok True"
    then have "responder_do m op = Some m" using Probe acc by (auto split: sum.splits bool.splits)
    then show ?thesis using same by simp
  next
    fix probe
    assume ok: "r = Ok True" "m1 = m\<lparr>r_probes := r_probes m + 1\<rparr>" "\<not> r_committed m" "r_probes m < MAX_MTU_PROBES"
      "decode_mtu_probe data = Ok probe" "probe_token probe = r_token m"
    have m1: "responder_inv token maximum ops m1" "\<not> r_committed m1" "probe_token probe = token"
      using assms ok by (auto simp: responder_inv_def)
    have "responder_inv token maximum (ops @ [op]) m1"
      using m1(1) by (auto simp: responder_inv_def intro: probed_more)
    then show ?thesis
      using probe_echoed_inv [OF m1(1) ok(5) m1(3,2), of now] Probe acc ok(1,3) by (cases echoed) auto
  qed
next
  case (Select data)
  then show ?thesis using commit_inv [OF assms, of data] by auto
qed

lemma run_responder_inv:
  "responder_inv token maximum before m \<Longrightarrow>
    \<exists>m'. run_responder m ops = Some m' \<and> responder_inv token maximum (before @ ops) m'
      \<and> (r_committed m \<longrightarrow> r_committed m' \<and> r_selected m' = r_selected m)"
proof (induction ops arbitrary: m before)
  case (Cons op ops)
  obtain m1 where m1: "responder_do m op = Some m1" "responder_inv token maximum (before @ [op]) m1"
    "r_committed m \<longrightarrow> r_committed m1 \<and> r_selected m1 = r_selected m"
    using responder_step [OF Cons.prems] by blast
  show ?case using Cons.IH [OF m1(2)] m1(1,3) by auto
qed simp


subsection \<open>What an address request is answered with\<close>

text \<open>What the answer relies on of the \<open>ipnet\<close> crate: a host route can be made of every IPv4 address and
  of the unspecified IPv6 address, it keeps the address and the length, and its host part is empty.\<close>

definition host_networks :: "('n4, 'n6) ipnet \<Rightarrow> bool" where
  "host_networks api \<longleftrightarrow>
    (\<forall>a. \<exists>n. v4_new api a 32 = Some n \<and> v4_addr api n = a \<and> v4_network api n = a \<and> v4_prefix_len api n = 32)
    \<and> (\<exists>n. v6_new api 0 128 = Some n \<and> v6_addr api n = 0 \<and> v6_network api n = 0 \<and> v6_prefix_len api n = 128)"

fun is_v4 :: "('n4, 'n6) ip_net \<Rightarrow> bool" where
  "is_v4 (NetV4 _) = True"
| "is_v4 (NetV6 _) = False"

fun net_address :: "('n4, 'n6) ipnet \<Rightarrow> ('n4, 'n6) ip_net \<Rightarrow> ip_addr \<times> u8" where
  "net_address api (NetV4 n) = (V4 (v4_addr api n), v4_prefix_len api n)"
| "net_address api (NetV6 n) = (V6 (v6_addr api n), v6_prefix_len api n)"

text \<open>The hosts that the requests of the given families are answered with.\<close>

fun answers :: "ipv4_addr \<Rightarrow> bool \<Rightarrow> bool list \<Rightarrow> (ip_addr \<times> u8) list" where
  "answers lease granted [] = []"
| "answers lease granted (v4 # rest) =
    (if v4 then (V4 (if granted then 0 else lease), 32) else (V6 0, 128)) # answers lease (granted \<or> v4) rest"

lemma answer_requests_Some:
  assumes "host_networks api"
  shows "\<exists>responses. answer_requests api lease granted requests
      = Some (responses, granted \<or> list_ex (\<lambda>r. is_v4 (prefix_net r)) requests)
    \<and> map request_id responses = map request_id requests
    \<and> map (\<lambda>r. net_address api (prefix_net r)) responses = answers lease granted (map (\<lambda>r. is_v4 (prefix_net r)) requests)
    \<and> list_all (\<lambda>a. net_made api (prefix_net a)) responses"
proof (induction requests arbitrary: granted)
  case (Cons request requests)
  obtain h where h: "v4_new api lease 32 = Some h" "v4_addr api h = lease" "v4_prefix_len api h = 32"
    using assms by (auto simp: host_networks_def)
  obtain z where z: "v4_new api 0 32 = Some z" "v4_addr api z = 0" "v4_prefix_len api z = 32"
    using assms by (auto simp: host_networks_def)
  obtain s where s: "v6_new api 0 128 = Some s" "v6_addr api s = 0" "v6_prefix_len api s = 128"
    using assms by (auto simp: host_networks_def)
  define net where "net = (case prefix_net request of NetV4 _ \<Rightarrow> NetV4 (if granted then z else h) | NetV6 _ \<Rightarrow> NetV6 s)"
  obtain responses where r: "answer_requests api lease (granted \<or> is_v4 (prefix_net request)) requests
      = Some (responses, (granted \<or> is_v4 (prefix_net request)) \<or> list_ex (\<lambda>r. is_v4 (prefix_net r)) requests)"
    "map request_id responses = map request_id requests"
    "map (\<lambda>r. net_address api (prefix_net r)) responses = answers lease (granted \<or> is_v4 (prefix_net request)) (map (\<lambda>r. is_v4 (prefix_net r)) requests)"
    "list_all (\<lambda>a. net_made api (prefix_net a)) responses"
    using Cons.IH by blast
  show ?case
    by (rule exI [of _ "\<lparr>request_id = request_id request, prefix_net = net\<rparr> # responses"])
      (use r h z s net_def in \<open>cases "prefix_net request"; cases granted; simp\<close>)
qed simp

definition assigned_addresses :: "ipv4_addr \<Rightarrow> bool \<Rightarrow> bool list \<Rightarrow> (ip_addr \<times> u8) list" where
  "assigned_addresses lease assigned families =
    answers lease False families @ (if assigned \<and> True \<notin> set families then [(V4 lease, 32)] else [])"

lemma encode_default_route: "encode_route_advertisement [default_route] = Ok (route_wire default_route)"
  by (simp add: encode_route_advertisement_def encode_routes_Ok default_route_def route_ok_def route_wire_def word_le_nat_alt)

lemma assignment_capsules_Ok:
  assumes "assignment_capsules api responses assigned = Ok (control, becomes)"
    and "list_all (\<lambda>a. net_made api (prefix_net a)) responses"
  shows "becomes = assigned \<and> (\<exists>data. decode_address_assign api data = Ok responses
    \<and> split_capsules control = ((CAPSULE_ADDRESS_ASSIGN, data)
            # (if becomes then [(CAPSULE_ROUTE_ADVERTISEMENT, route_wire default_route)] else []), []))"
proof -
  let ?c = "\<lambda>data. \<lparr>capsule_type = CAPSULE_ADDRESS_ASSIGN, capsule_value = data\<rparr>"
    and ?r = "\<lparr>capsule_type = CAPSULE_ROUTE_ADVERTISEMENT, capsule_value = route_wire default_route\<rparr>"
  obtain data where data: "encode_addresses api responses = Ok data" "capsule_valid (?c data)"
    "becomes = assigned" "control = capsule_wire (?c data) @ (if assigned then capsule_wire ?r else [])"
    "assigned \<Longrightarrow> capsule_valid ?r"
    using assms(1) by (auto simp: assignment_capsules_def encode_address_assign_def append_capsule_Ok encode_default_route split: if_splits)
  have "split_capsules [] = ([], [])" by (rule split_capsules_stop) (simp add: take_capsule_def parse_varint_def)
  then show ?thesis
    using data encode_addresses_decode [OF data(1) assms(2)] split_capsules_wire [of "[?c data]" "[]"] split_capsules_wire [of "[?c data, ?r]" "[]"]
    by (auto simp: decode_address_assign_def)
qed

text \<open>C23: the answer to an address request. When the requests decode and the answer fits a capsule, the
  client reads from it one address per request, in order and under the request's identifier: the
  leased address for the first IPv4 request, and the unspecified address, which refuses, for every
  other; a lease granted before is repeated when no IPv4 address is requested. The default route
  follows exactly when the tunnel has its address. The server never panics on a request.\<close>

theorem address_response_sound:
  assumes "host_networks api"
  shows "address_response api lease assigned data \<noteq> None \<and>
    (\<forall>control becomes. address_response api lease assigned data = Some (Ok (control, becomes)) \<longrightarrow>
      (\<exists>requests responses value'. decode_address_request api data = Ok requests
        \<and> becomes = (assigned \<or> list_ex (\<lambda>r. is_v4 (prefix_net r)) requests)
        \<and> split_capsules control = ((CAPSULE_ADDRESS_ASSIGN, value')
            # (if becomes then [(CAPSULE_ROUTE_ADVERTISEMENT, route_wire default_route)] else []), [])
        \<and> decode_address_assign api value' = Ok responses
        \<and> map request_id responses = map request_id requests
            @ (if assigned \<and> \<not> list_ex (\<lambda>r. is_v4 (prefix_net r)) requests then [0] else [])
        \<and> map (\<lambda>r. net_address api (prefix_net r)) responses
          = assigned_addresses lease assigned (map (\<lambda>r. is_v4 (prefix_net r)) requests)))"
proof (cases "decode_address_request api data")
  case (Inl e)
  then show ?thesis by (simp add: address_response_def)
next
  case (Inr requests)
  let ?v4 = "list_ex (\<lambda>r. is_v4 (prefix_net r)) requests" and ?families = "map (\<lambda>r. is_v4 (prefix_net r)) requests"
  obtain first where first: "answer_requests api lease False requests = Some (first, ?v4)"
    "map request_id first = map request_id requests"
    "map (\<lambda>r. net_address api (prefix_net r)) first = answers lease False ?families"
    "list_all (\<lambda>a. net_made api (prefix_net a)) first"
    using answer_requests_Some [OF assms, of lease False requests] by auto
  obtain h where h: "v4_new api lease 32 = Some h" "v4_addr api h = lease" "v4_prefix_len api h = 32"
    using assms by (auto simp: host_networks_def)
  define responses where "responses = first @ (if assigned \<and> \<not> ?v4 then [\<lparr>request_id = 0, prefix_net = NetV4 h\<rparr>] else [])"
  have v4: "?v4 \<longleftrightarrow> True \<in> set ?families" by (auto simp: list_ex_iff)
  have R: "map request_id responses = map request_id requests @ (if assigned \<and> \<not> ?v4 then [0] else [])"
    "map (\<lambda>r. net_address api (prefix_net r)) responses = assigned_addresses lease assigned ?families"
    "list_all (\<lambda>a. net_made api (prefix_net a)) responses"
    using first h v4 by (auto simp: responses_def assigned_addresses_def)
  have answer: "address_response api lease assigned data = Some (assignment_capsules api responses (assigned \<or> ?v4))"
    using Inr first(1) h(1) by (simp add: address_response_def responses_def)
  show ?thesis
    unfolding answer using R assignment_capsules_Ok [of api responses "assigned \<or> ?v4"] Inr by blast
qed

lemma pair_net_hosts: "host_networks pair_net"
  by (simp add: host_networks_def pair_net_def)

theorem address_response_sound_witness:
  "\<exists>control requests responses data. address_response pair_net 0x0a000002 False [7, 4, 0, 0, 0, 0, 0, 9, 6, 0, 0, 0, 0, 0, 0, 0, 0, 0, 0, 0, 0, 0, 0, 0, 0, 0]
      = Some (Ok (control, True))
    \<and> split_capsules control = ([(CAPSULE_ADDRESS_ASSIGN, data), (CAPSULE_ROUTE_ADVERTISEMENT, route_wire default_route)], [])
    \<and> decode_address_assign pair_net data = Ok responses \<and> map request_id responses = [7, 9]
    \<and> map (\<lambda>r. net_address pair_net (prefix_net r)) responses = [(V4 0x0a000002, 32), (V6 0, 128)]"
proof -
  let ?data = "[7, 4, 0, 0, 0, 0, 0, 9, 6, 0, 0, 0, 0, 0, 0, 0, 0, 0, 0, 0, 0, 0, 0, 0, 0, 0] :: bytes"
  have dec: "decode_address_request pair_net ?data
      = Ok [\<lparr>request_id = 7, prefix_net = NetV4 (0, 0)\<rparr>, \<lparr>request_id = 9, prefix_net = NetV6 (0, 0)\<rparr>]" by code_simp
  obtain control where resp: "address_response pair_net 0x0a000002 False ?data = Some (Ok (control, True))"
    by (rule that [of "[1, 26, 7, 4, 10, 0, 0, 2, 32, 9, 6, 0, 0, 0, 0, 0, 0, 0, 0, 0, 0, 0, 0, 0, 0, 0, 0, 128, 3, 10, 4, 0, 0, 0, 0, 255, 255, 255, 255, 0]"]) code_simp
  from address_response_sound [OF pair_net_hosts, of "0x0a000002" False ?data] resp dec show ?thesis
    by (auto simp: assigned_addresses_def)
qed

end
