(* ===== verification/Masque_Tunnel.thy ===== *)
theory Masque_Tunnel
  imports Connect_Ip Router "HOL-Library.Sublist"
begin

text \<open>
  The CONNECT-IP tunnel over HTTP/2 (\<open>run_masque_tunnel\<close>, \<open>send_masque_downlink\<close> and
  \<open>write_masque_output\<close> of porta-server/src/transport/http2.rs, \<open>inject_packet\<close> of http3.rs). The
  stream is what its reads yield and how its writes end; the packet router and the downlink queue
  of the session are functions on a state of their own.
\<close>

subsection \<open>The CONNECT-IP tunnel over HTTP/2\<close>

text \<open>The packet router behind a session: \<open>inject_from_client\<close> and \<open>inject_validated\<close>.\<close>

record ('e, 'r) packet_router =
  inject_from_client :: "'r \<Rightarrow> bytes \<Rightarrow> ('e + unit) \<times> 'r"
  inject_checked :: "'r \<Rightarrow> bytes \<Rightarrow> ('e + unit) \<times> 'r"

definition inject_packet ::
  "('e, 'r) packet_router \<Rightarrow> ipv4_addr \<Rightarrow> bytes \<Rightarrow> u16 \<Rightarrow> 'r \<Rightarrow> ('e + unit) \<times> 'r \<times> session_call list" where
  "inject_packet router lease packet mtu r =
    (if length packet > unat mtu then (Ok (), r, [DroppedFromClient])
     else case parse_ipv4 packet of
       Err _ \<Rightarrow> (Ok (), r, [DroppedFromClient])
     | Ok info \<Rightarrow>
         if info_source info \<noteq> lease then (Ok (), r, [DroppedFromClient])
         else (case inject_from_client router r packet of
             (Err e, r') \<Rightarrow> (Err e, r', [])
           | (Ok _, r') \<Rightarrow> (Ok (), r', [ReceivedFromClient, Uploaded (length packet) 1])))"

text \<open>What becomes of a write: done, cut short by the cancellation of the session after some bytes
  (\<open>write_masque_output\<close> still returns), or failed after some bytes. Without further replies
  writes succeed.\<close>

datatype output_reply = OutputDone | OutputCancelled nat | OutputFailed nat

datatype 'e masque_end =
    MasqueReturned | MasqueIoFailed | MasqueProtocol masque_error | MasqueRouter 'e
  | MasqueRouterClosed | MasqueBufferOverflow | MasquePanic

record ('r, 'q) masque_tunnel =
  k_input :: bytes
  k_assigned :: bool
  k_ready :: bool
  k_icmp_after :: instant
  k_router :: 'r
  k_downlink :: 'q
  k_written :: bytes
  k_replies :: "output_reply list"
  k_calls :: "session_call list"

definition write_masque_output :: "bytes \<Rightarrow> ('r, 'q) masque_tunnel \<Rightarrow> 'e masque_end option \<times> ('r, 'q) masque_tunnel" where
  "write_masque_output data k =
    (case k_replies k of
       [] \<Rightarrow> (None, k\<lparr>k_written := k_written k @ data\<rparr>)
     | OutputDone # rs \<Rightarrow> (None, k\<lparr>k_written := k_written k @ data, k_replies := rs\<rparr>)
     | OutputCancelled n # rs \<Rightarrow> (None, k\<lparr>k_written := k_written k @ take n data, k_replies := rs\<rparr>)
     | OutputFailed n # rs \<Rightarrow> (Some MasqueIoFailed, k\<lparr>k_written := k_written k @ take n data, k_replies := rs\<rparr>))"

definition k_call :: "session_call list \<Rightarrow> ('r, 'q) masque_tunnel \<Rightarrow> ('r, 'q) masque_tunnel" where
  "k_call calls k = k\<lparr>k_calls := k_calls k @ calls\<rparr>"

text \<open>The \<open>match\<close> on a capsule.\<close>

definition masque_capsule ::
  "('n4, 'n6) ipnet \<Rightarrow> ('e, 'r) packet_router \<Rightarrow> ipv4_addr \<Rightarrow> u16 \<Rightarrow> u64 \<Rightarrow> bytes \<Rightarrow> ('r, 'q) masque_tunnel
    \<Rightarrow> 'e masque_end option \<times> ('r, 'q) masque_tunnel" where
  "masque_capsule api router lease mtu ctype data k =
    (if ctype = CAPSULE_ADDRESS_REQUEST then
       (case address_response api lease (k_assigned k) data of
          None \<Rightarrow> (Some MasquePanic, k)
        | Some (Err e) \<Rightarrow> (Some (MasqueProtocol e), k)
        | Some (Ok (response, now_assigned)) \<Rightarrow>
            write_masque_output response (k\<lparr>k_assigned := now_assigned, k_ready := k_ready k \<or> now_assigned\<rparr>))
     else if ctype = CAPSULE_DATAGRAM then
       (if \<not> k_assigned k then (None, k_call [DroppedFromClient] k)
        else case decode_ip_bytes data of
          Err _ \<Rightarrow> (None, k_call [DroppedFromClient] k)
        | Ok packet \<Rightarrow>
            (case inject_packet router lease packet mtu (k_router k) of
               (res, r, calls) \<Rightarrow>
                 (case res of Err e \<Rightarrow> Some (MasqueRouter e) | Ok _ \<Rightarrow> None, k_call calls (k\<lparr>k_router := r\<rparr>))))
     else if ctype = CAPSULE_ADDRESS_ASSIGN then
       (case decode_address_assign api data of Err e \<Rightarrow> (Some (MasqueProtocol e), k) | Ok _ \<Rightarrow> (None, k))
     else if ctype = CAPSULE_ROUTE_ADVERTISEMENT then
       (case decode_route_advertisement data of Err e \<Rightarrow> (Some (MasqueProtocol e), k) | Ok _ \<Rightarrow> (None, k))
     else (None, k))"

definition masque_input ::
  "('n4, 'n6) ipnet \<Rightarrow> ('e, 'r) packet_router \<Rightarrow> ipv4_addr \<Rightarrow> u16 \<Rightarrow> bytes \<Rightarrow> ('r, 'q) masque_tunnel
    \<Rightarrow> 'e masque_end option \<times> ('r, 'q) masque_tunnel" where
  "masque_input api router lease mtu data k =
    (case capsule_loop MasqueProtocol (masque_capsule api router lease mtu) (k_input k @ data) k of
       (Some e, rest, k') \<Rightarrow> (Some e, k'\<lparr>k_input := rest\<rparr>)
     | (None, rest, k') \<Rightarrow>
         (if length rest > MAX_CAPSULE_SIZE + 16 then Some MasqueBufferOverflow else None, k'\<lparr>k_input := rest\<rparr>))"

text \<open>The capsules of a batch with the calls for each packet.\<close>

fun append_ip_capsules :: "bytes list \<Rightarrow> bytes \<Rightarrow> session_call list \<Rightarrow> (masque_error + bytes) \<times> session_call list" where
  "append_ip_capsules [] control calls = (Ok control, calls)"
| "append_ip_capsules (packet # packets) control calls =
    (case append_ip_capsule control packet of
       Err e \<Rightarrow> (Err e, calls)
     | Ok control \<Rightarrow> append_ip_capsules packets control (calls @ [SentToClient, Downloaded (length packet) 1]))"

text \<open>The packets that follow the first one of a batch.\<close>

function masque_batch ::
  "('q \<Rightarrow> bytes option \<times> 'q) \<Rightarrow> nat \<Rightarrow> nat \<Rightarrow> bytes \<Rightarrow> 'q \<Rightarrow> session_call list
    \<Rightarrow> (masque_error + bytes) \<times> 'q \<times> session_call list" where
  "masque_batch try_packet count batched control q calls =
    (if count < PACKET_BATCH \<and> batched < BATCH_BYTES then
       (case try_packet q of
          (None, q') \<Rightarrow> (Ok control, q', calls)
        | (Some packet, q') \<Rightarrow>
            (case append_ip_capsule control packet of
               Err e \<Rightarrow> (Err e, q', calls)
             | Ok control \<Rightarrow>
                 masque_batch try_packet (count + 1) (batched + length packet) control q'
                   (calls @ [SentToClient, Downloaded (length packet) 1])))
     else (Ok control, q, calls))"
  by pat_completeness auto
termination by (relation "measure (\<lambda>(_, count, _). PACKET_BATCH - count)") auto

declare masque_batch.simps [simp del]

definition send_masque_downlink ::
  "('e, 'r) packet_router \<Rightarrow> ('q \<Rightarrow> bytes option \<times> 'q) \<Rightarrow> icmp_context \<Rightarrow> u16 \<Rightarrow> instant \<Rightarrow> u16 \<Rightarrow> bytes
    \<Rightarrow> ('r, 'q) masque_tunnel \<Rightarrow> 'e masque_end option \<times> ('r, 'q) masque_tunnel" where
  "send_masque_downlink router try_packet lease mtu now identification packet k =
    (if length packet > unat mtu then
       (case fragment_ipv4 packet (unat mtu) of
          Ok fragments \<Rightarrow>
            (case append_ip_capsules fragments [] (k_calls k @ [MtuFragmented]) of
               (Err e, calls) \<Rightarrow> (Some (MasqueProtocol e), k\<lparr>k_calls := calls\<rparr>)
             | (Ok control, calls) \<Rightarrow> write_masque_output control (k\<lparr>k_calls := calls\<rparr>))
        | Err FragmentationNeeded \<Rightarrow>
            (if now < k_icmp_after k then (None, k_call [MtuIcmpRateLimited] k)
             else (case icmp_fragmentation_needed packet lease (unat mtu) identification of
                Ok reply \<Rightarrow>
                  (case inject_checked router (k_router k) reply of
                     (Err e, r) \<Rightarrow> (Some (MasqueRouter e), k\<lparr>k_router := r\<rparr>)
                   | (Ok _, r) \<Rightarrow>
                       (None, k_call [MtuIcmpSent] (k\<lparr>k_router := r, k_icmp_after := now + millis 100\<rparr>)))
              | Err IcmpSuppressed \<Rightarrow> (None, k_call [MtuIcmpSuppressed] k)
              | Err _ \<Rightarrow> (None, k_call [InvalidTun] k)))
        | Err _ \<Rightarrow> (None, k_call [InvalidTun] k))
     else
       (case append_ip_capsule [] packet of
          Err e \<Rightarrow> (Some (MasqueProtocol e), k)
        | Ok control \<Rightarrow>
            (case masque_batch try_packet 1 (length packet) control (k_downlink k)
                    (k_calls k @ [SentToClient, Downloaded (length packet) 1]) of
               (Err e, q, calls) \<Rightarrow> (Some (MasqueProtocol e), k\<lparr>k_downlink := q, k_calls := calls\<rparr>)
             | (Ok control, q, calls) \<Rightarrow> write_masque_output control (k\<lparr>k_downlink := q, k_calls := calls\<rparr>))))"

text \<open>The loop of \<open>run_masque_tunnel\<close>, one step per branch of its \<open>select!\<close>; the branch of the downlink is
  only enabled once an address has been assigned.\<close>

datatype masque_event = MasqueCancelled | MasqueRead bytes | MasqueReadFailed | MasqueDownlink "bytes option" instant u16

fun masque_step ::
  "('n4, 'n6) ipnet \<Rightarrow> ('e, 'r) packet_router \<Rightarrow> ('q \<Rightarrow> bytes option \<times> 'q) \<Rightarrow> icmp_context \<Rightarrow> u16
    \<Rightarrow> ('r, 'q) masque_tunnel \<Rightarrow> masque_event \<Rightarrow> 'e masque_end option \<times> ('r, 'q) masque_tunnel" where
  "masque_step api router try_packet lease mtu k MasqueCancelled = (Some MasqueReturned, k)"
| "masque_step api router try_packet lease mtu k MasqueReadFailed = (Some MasqueIoFailed, k)"
| "masque_step api router try_packet lease mtu k (MasqueRead data) =
    (if data = [] then (Some MasqueReturned, k) else masque_input api router (leased_address lease) mtu data k)"
| "masque_step api router try_packet lease mtu k (MasqueDownlink packet now identification) =
    (if \<not> k_ready k then (None, k)
     else case packet of
       None \<Rightarrow> (Some MasqueRouterClosed, k)
     | Some packet \<Rightarrow> send_masque_downlink router try_packet lease mtu now identification packet k)"

fun run_masque_tunnel ::
  "('n4, 'n6) ipnet \<Rightarrow> ('e, 'r) packet_router \<Rightarrow> ('q \<Rightarrow> bytes option \<times> 'q) \<Rightarrow> icmp_context \<Rightarrow> u16
    \<Rightarrow> ('r, 'q) masque_tunnel \<Rightarrow> masque_event list \<Rightarrow> 'e masque_end option \<times> ('r, 'q) masque_tunnel" where
  "run_masque_tunnel api router try_packet lease mtu k [] = (None, k)"
| "run_masque_tunnel api router try_packet lease mtu k (ev # evs) =
    (case masque_step api router try_packet lease mtu k ev of
       (Some e, k') \<Rightarrow> (Some e, k')
     | (None, k') \<Rightarrow> run_masque_tunnel api router try_packet lease mtu k' evs)"

definition masque_start :: "instant \<Rightarrow> 'r \<Rightarrow> 'q \<Rightarrow> output_reply list \<Rightarrow> ('r, 'q) masque_tunnel" where
  "masque_start now r q rs =
    \<lparr>k_input = [], k_assigned = False, k_ready = False, k_icmp_after = now, k_router = r, k_downlink = q,
     k_written = [], k_replies = rs, k_calls = []\<rparr>"

subsection \<open>The uplink\<close>

text \<open>A router whose state keeps a log of the packets injected for the client. A refused packet may or
  may not have been written.\<close>

locale logging_router =
  fixes router :: "('e, 'r) packet_router" and log :: "'r \<Rightarrow> bytes list"
  assumes injected: "inject_from_client router r p = (Ok u, r') \<Longrightarrow> log r' = log r @ [p]"
    and refused: "inject_from_client router r p = (Err e, r') \<Longrightarrow> log r' = log r \<or> log r' = log r @ [p]"
    and checked: "inject_checked router r p = (res, r') \<Longrightarrow> log r' = log r"

text \<open>The packets a stream of capsules carries for injection: those after the first request for an IPv4
  address that are valid and come from the lease.\<close>

definition requests_ipv4 :: "('n4, 'n6) ipnet \<Rightarrow> bytes \<Rightarrow> bool" where
  "requests_ipv4 api data =
    (case decode_address_request api data of Err _ \<Rightarrow> False | Ok requests \<Rightarrow> list_ex (\<lambda>r. is_v4 (prefix_net r)) requests)"

definition carried_packet :: "ipv4_addr \<Rightarrow> u16 \<Rightarrow> bytes \<Rightarrow> bytes list" where
  "carried_packet lease mtu data =
    (case decode_ip_packet data of Err _ \<Rightarrow> [] | Ok packet \<Rightarrow> if uplink_ok lease (unat mtu) packet then [packet] else [])"

fun masque_uplink :: "('n4, 'n6) ipnet \<Rightarrow> ipv4_addr \<Rightarrow> u16 \<Rightarrow> bool \<Rightarrow> (u64 \<times> bytes) list \<Rightarrow> bytes list" where
  "masque_uplink api lease mtu assigned [] = []"
| "masque_uplink api lease mtu assigned ((ctype, data) # cs) =
    (if ctype = CAPSULE_ADDRESS_REQUEST then masque_uplink api lease mtu (assigned \<or> requests_ipv4 api data) cs
     else if ctype = CAPSULE_DATAGRAM \<and> assigned then carried_packet lease mtu data @ masque_uplink api lease mtu assigned cs
     else masque_uplink api lease mtu assigned cs)"

fun assigned_by :: "('n4, 'n6) ipnet \<Rightarrow> bool \<Rightarrow> (u64 \<times> bytes) list \<Rightarrow> bool" where
  "assigned_by api assigned [] = assigned"
| "assigned_by api assigned ((ctype, data) # cs) =
    assigned_by api (assigned \<or> ctype = CAPSULE_ADDRESS_REQUEST \<and> requests_ipv4 api data) cs"

lemma masque_uplink_append:
  "masque_uplink api lease mtu a (cs @ ds) = masque_uplink api lease mtu a cs @ masque_uplink api lease mtu (assigned_by api a cs) ds"
  by (induction api lease mtu a cs rule: masque_uplink.induct) auto

lemma assigned_by_append: "assigned_by api a (cs @ ds) = assigned_by api (assigned_by api a cs) ds"
  by (induction api a cs rule: assigned_by.induct) auto

lemma address_response_assigns:
  assumes "address_response api lease assigned data = Some (Ok (control, now_assigned))"
  shows "now_assigned = (assigned \<or> requests_ipv4 api data)"
proof -
  have r: "answer_requests api lease g requests = Some (rs, r) \<Longrightarrow> r = (g \<or> list_ex (\<lambda>r. is_v4 (prefix_net r)) requests)" for g requests rs r
    by (induction requests arbitrary: g rs) (auto split: ip_net.splits option.splits if_splits)
  have b: "assignment_capsules api rs a = Ok (c, a') \<Longrightarrow> a' = a" for rs a c a'
    by (auto simp: assignment_capsules_def split: if_splits)
  show ?thesis
    using assms by (auto simp: address_response_def requests_ipv4_def bind_eq_Some_conv split: sum.splits dest!: r b)
qed

lemma write_keeps:
  "write_masque_output data k = (res, k') \<Longrightarrow> k_router k' = k_router k \<and> k_assigned k' = k_assigned k \<and> k_input k' = k_input k"
  by (auto simp: write_masque_output_def split: list.splits output_reply.splits)

lemma k_call_simps [simp]:
  "k_router (k_call calls k) = k_router k" "k_assigned (k_call calls k) = k_assigned k" "k_input (k_call calls k) = k_input k"
  "k_written (k_call calls k) = k_written k" "k_downlink (k_call calls k) = k_downlink k" "k_ready (k_call calls k) = k_ready k"
  by (simp_all add: k_call_def)

fun received :: "masque_event list \<Rightarrow> bytes" where
  "received [] = []"
| "received (MasqueRead data # evs) = data @ received evs"
| "received (_ # evs) = received evs"

lemma log_grows: "prefix c (a @ u) \<Longrightarrow> prefix c (a @ u @ v)"
  by (metis append.assoc prefix_prefix)

lemma split_capsules_rest: "split_capsules (snd (split_capsules b)) = ([], snd (split_capsules b))"
proof (induction b rule: split_capsules.induct)
  case (1 b)
  show ?case
  proof (cases "\<exists>c rest. take_capsule b = Ok (Some (c, rest))")
    case True
    then obtain c rest where c: "take_capsule b = Ok (Some (c, rest))" by blast
    then show ?thesis using "1.IH" [OF c] split_capsules_next [OF c] by simp
  next
    case False
    then have "split_capsules b = ([], b)" by (intro split_capsules_stop) (metis not_None_eq sum.exhaust surj_pair)
    then show ?thesis by simp
  qed
qed

context logging_router
begin

lemma inject_packet_logged:
  assumes "inject_packet router lease packet mtu r = (res, r', calls)" and "packet \<noteq> []"
  shows "(res = Ok () \<longrightarrow> log r' = log r @ (if uplink_ok lease (unat mtu) packet then [packet] else []))
    \<and> prefix (log r) (log r') \<and> prefix (log r') (log r @ (if uplink_ok lease (unat mtu) packet then [packet] else []))"
  using assms by (auto simp: inject_packet_def uplink_ok_def dest!: injected refused split: if_splits sum.splits prod.splits)

lemma capsule_logged:
  assumes "masque_capsule api router lease mtu ctype data k = (res, k')"
  shows "prefix (log (k_router k)) (log (k_router k'))
    \<and> prefix (log (k_router k')) (log (k_router k) @ masque_uplink api lease mtu (k_assigned k) [(ctype, data)])
    \<and> (res = None \<longrightarrow> log (k_router k') = log (k_router k) @ masque_uplink api lease mtu (k_assigned k) [(ctype, data)]
        \<and> k_assigned k' = assigned_by api (k_assigned k) [(ctype, data)])"
proof (cases "ctype = CAPSULE_DATAGRAM \<and> k_assigned k")
  case True
  have types: "ctype \<noteq> CAPSULE_ADDRESS_REQUEST" using True by (simp add: CAPSULE_DATAGRAM_def CAPSULE_ADDRESS_REQUEST_def)
  show ?thesis
  proof (cases "decode_ip_packet data")
    case (Inl e)
    then show ?thesis using assms True types by (auto simp: masque_capsule_def decode_ip_bytes_eq carried_packet_def)
  next
    case (Inr packet)
    then have ne: "packet \<noteq> []" by (auto simp: decode_ip_packet_def dest!: parse_varint_consumes split: if_splits)
    obtain res1 r1 calls where inj: "inject_packet router lease packet mtu (k_router k) = (res1, r1, calls)" by (metis prod_cases3)
    then show ?thesis
      using assms True types Inr inject_packet_logged [OF inj ne]
      by (auto simp: masque_capsule_def decode_ip_bytes_eq carried_packet_def split: sum.splits)
  qed
next
  case False
  show ?thesis
  proof (cases "ctype = CAPSULE_ADDRESS_REQUEST")
    case True
    then show ?thesis
      using assms by (auto simp: masque_capsule_def dest!: write_keeps address_response_assigns split: option.splits sum.splits)
  next
    case no: False
    then show ?thesis using assms False by (auto simp: masque_capsule_def split: if_splits sum.splits)
  qed
qed

lemma loop_logged:
  "capsule_loop MasqueProtocol (masque_capsule api router lease mtu) buffer k = (res, rest, k') \<Longrightarrow>
    prefix (log (k_router k)) (log (k_router k'))
    \<and> prefix (log (k_router k')) (log (k_router k) @ masque_uplink api lease mtu (k_assigned k) (fst (split_capsules buffer)))
    \<and> (res = None \<longrightarrow> log (k_router k') = log (k_router k) @ masque_uplink api lease mtu (k_assigned k) (fst (split_capsules buffer))
        \<and> k_assigned k' = assigned_by api (k_assigned k) (fst (split_capsules buffer)) \<and> rest = snd (split_capsules buffer))"
proof (induction buffer arbitrary: k rule: split_capsules.induct)
  case (1 buffer)
  note unfold = "1.prems" [unfolded capsule_loop.simps [of _ _ buffer]]
  consider (more) c cap where "take_capsule buffer = Ok (Some (cap, c))" | (stop) "take_capsule buffer = Ok None" | (bad) e where "take_capsule buffer = Err e"
    by (metis not_None_eq sum.exhaust surj_pair)
  then show ?case
  proof cases
    case (more rest1 cap)
    obtain t v where cap: "cap = (t, v)" by force
    obtain e k1 where one: "masque_capsule api router lease mtu t v k = (e, k1)" by force
    note here = capsule_logged [OF one]
    have cs: "fst (split_capsules buffer) = [(t, v)] @ fst (split_capsules rest1)" "snd (split_capsules buffer) = snd (split_capsules rest1)"
      using split_capsules_next more cap by simp_all
    show ?thesis
    proof (cases e)
      case None
      then have "capsule_loop MasqueProtocol (masque_capsule api router lease mtu) rest1 k1 = (res, rest, k')"
        using unfold more cap one by simp
      note later = "1.IH" [OF more refl refl this]
      have k1: "log (k_router k1) = log (k_router k) @ masque_uplink api lease mtu (k_assigned k) [(t, v)]"
        "k_assigned k1 = assigned_by api (k_assigned k) [(t, v)]" using here None by simp_all
      have "prefix (log (k_router k)) (log (k_router k'))" using later k1(1) by (metis append_prefixD)
      then show ?thesis
        unfolding cs masque_uplink_append assigned_by_append using later [unfolded k1 append_assoc] by iprover
    next
      case (Some e1)
      then have "res \<noteq> None" and k': "k' = k1" using unfold more cap one by auto
      then show ?thesis unfolding cs masque_uplink_append k' using here log_grows by iprover
    qed
  next
    case stop
    then show ?thesis using unfold split_capsules_stop [of buffer] by auto
  next
    case (bad e)
    then show ?thesis using unfold split_capsules_stop [of buffer] by auto
  qed
qed

lemma downlink_logged:
  assumes "send_masque_downlink router try_packet lease mtu now identification packet k = (res, k')"
  shows "log (k_router k') = log (k_router k) \<and> k_assigned k' = k_assigned k \<and> k_input k' = k_input k"
  using assms
  by (auto simp: send_masque_downlink_def dest!: write_keeps checked
      split: if_splits sum.splits mtu_error.splits prod.splits)

lemma step_logged:
  assumes "masque_step api router try_packet lease mtu k ev = (res, k')"
    and "split_capsules (k_input k) = ([], k_input k)"
  defines "cs \<equiv> fst (split_capsules (k_input k @ (case ev of MasqueRead data \<Rightarrow> data | _ \<Rightarrow> [])))"
    and "up \<equiv> masque_uplink api (leased_address lease) mtu"
  shows "prefix (log (k_router k)) (log (k_router k'))
    \<and> prefix (log (k_router k')) (log (k_router k) @ up (k_assigned k) cs)
    \<and> (res = None \<longrightarrow> log (k_router k') = log (k_router k) @ up (k_assigned k) cs
        \<and> k_assigned k' = assigned_by api (k_assigned k) cs
        \<and> k_input k' = snd (split_capsules (k_input k @ (case ev of MasqueRead data \<Rightarrow> data | _ \<Rightarrow> []))))"
proof (cases ev)
  case (MasqueRead data)
  show ?thesis
  proof (cases "data = []")
    case True
    then show ?thesis using assms MasqueRead by auto
  next
    case False
    obtain e rest k1 where loop: "capsule_loop MasqueProtocol (masque_capsule api router (leased_address lease) mtu) (k_input k @ data) k
        = (e, rest, k1)" by (metis prod_cases3)
    show ?thesis
      using loop_logged [OF loop] assms(1) False MasqueRead loop unfolding cs_def up_def
      by (auto simp: masque_input_def split: option.splits if_splits)
  qed
next
  case (MasqueDownlink packet now identification)
  then show ?thesis
    using assms by (auto dest!: downlink_logged split: if_splits option.splits)
qed (use assms in auto)

lemma run_logged:
  "run_masque_tunnel api router try_packet lease mtu k evs = (res, k') \<Longrightarrow> split_capsules (k_input k) = ([], k_input k) \<Longrightarrow>
    prefix (log (k_router k)) (log (k_router k'))
    \<and> prefix (log (k_router k')) (log (k_router k)
        @ masque_uplink api (leased_address lease) mtu (k_assigned k) (fst (split_capsules (k_input k @ received evs))))
    \<and> (res = None \<longrightarrow> log (k_router k') = log (k_router k)
        @ masque_uplink api (leased_address lease) mtu (k_assigned k) (fst (split_capsules (k_input k @ received evs))))"
proof (induction evs arbitrary: k)
  case (Cons ev evs)
  let ?data = "case ev of MasqueRead data \<Rightarrow> data | _ \<Rightarrow> []" and ?up = "masque_uplink api (leased_address lease) mtu"
  let ?cs = "fst (split_capsules (k_input k @ ?data))" and ?left = "snd (split_capsules (k_input k @ ?data))"
  obtain e k1 where step: "masque_step api router try_packet lease mtu k ev = (e, k1)" by force
  note here = step_logged [OF step Cons.prems(2)]
  have data: "received (ev # evs) = ?data @ received evs" by (cases ev) simp_all
  have cs: "fst (split_capsules (k_input k @ received (ev # evs))) = ?cs @ fst (split_capsules (?left @ received evs))"
    using split_capsules_append [of "k_input k @ ?data" "received evs"] by (simp add: data)
  show ?case
  proof (cases e)
    case None
    have k1: "log (k_router k1) = log (k_router k) @ ?up (k_assigned k) ?cs" "k_assigned k1 = assigned_by api (k_assigned k) ?cs"
      "k_input k1 = ?left" using here None by simp_all
    have "run_masque_tunnel api router try_packet lease mtu k1 evs = (res, k')" using Cons.prems(1) step None by simp
    moreover have "split_capsules (k_input k1) = ([], k_input k1)" unfolding k1 by (rule split_capsules_rest)
    ultimately have later: "prefix (log (k_router k1)) (log (k_router k')) \<and>
        prefix (log (k_router k')) (log (k_router k1) @ ?up (k_assigned k1) (fst (split_capsules (k_input k1 @ received evs))))
        \<and> (res = None \<longrightarrow> log (k_router k') = log (k_router k1) @ ?up (k_assigned k1) (fst (split_capsules (k_input k1 @ received evs))))"
      by (rule Cons.IH)
    have "prefix (log (k_router k)) (log (k_router k'))" using later k1(1) by (metis append_prefixD)
    then show ?thesis unfolding cs masque_uplink_append using later [unfolded k1 append_assoc] by iprover
  next
    case (Some e1)
    then have "res \<noteq> None" and k': "k' = k1" using Cons.prems(1) step by auto
    then show ?thesis unfolding cs masque_uplink_append k' using here log_grows by iprover
  qed
qed simp

end

subsection \<open>The tun device behind the router\<close>

text \<open>The router as the sessions see it: the device's replies, and the cancellations of the session, come
  from the environment; once they are used up every write succeeds. The log of the device
  distinguishes packets of the client from those the server made itself.\<close>

definition next_reply :: "(bool \<times> (io_error + unit)) list \<Rightarrow> bool \<times> (io_error + unit)" where
  "next_reply rs = (case rs of [] \<Rightarrow> (False, Ok ()) | r # _ \<Rightarrow> r)"

type_synonym tun_device = "(bool \<times> (io_error + unit)) list \<times> (bool \<times> bytes) list"

definition tun_router :: "ipv4_addr \<Rightarrow> (router_error, tun_device) packet_router" where
  "tun_router lease =
    \<lparr>inject_from_client = (\<lambda>(rs, w) p.
       let (res, ps) = inject (fst (next_reply rs)) lease p (snd (next_reply rs)) in (res, drop 1 rs, w @ map (Pair True) ps)),
     inject_checked = (\<lambda>(rs, w) p.
       let (res, ps) = inject_validated (fst (next_reply rs)) p (snd (next_reply rs)) in (res, drop 1 rs, w @ map (Pair False) ps))\<rparr>"

definition from_client :: "tun_device \<Rightarrow> bytes list" where
  "from_client d = map snd (filter fst (snd d))"

lemma tun_writes:
  "inject cancelled lease packet reply = (res, ps) \<Longrightarrow> (ps = [] \<or> ps = [packet]) \<and> (res = Ok () \<longrightarrow> ps = [packet])"
  by (auto simp: inject_def inject_validated_def split: sum.splits prod.splits if_splits)

interpretation tun: logging_router "tun_router lease" from_client for lease
proof
  fix r r' :: tun_device and p u e res
  show "inject_from_client (tun_router lease) r p = (Ok u, r') \<Longrightarrow> from_client r' = from_client r @ [p]"
    "inject_from_client (tun_router lease) r p = (Err e, r') \<Longrightarrow> from_client r' = from_client r \<or> from_client r' = from_client r @ [p]"
    "inject_checked (tun_router lease) r p = (res, r') \<Longrightarrow> from_client r' = from_client r"
    by (auto simp: tun_router_def from_client_def Let_def dest!: tun_writes split: prod.splits)
qed

lemma masque_uplink_ok: "list_all (uplink_ok lease (unat mtu)) (masque_uplink api lease mtu assigned cs)"
  by (induction api lease mtu assigned cs rule: masque_uplink.induct) (auto simp: carried_packet_def split: sum.splits)

lemma masque_uplink_unassigned:
  "(\<forall>data. (CAPSULE_ADDRESS_REQUEST, data) \<in> set cs \<longrightarrow> \<not> requests_ipv4 api data) \<Longrightarrow> masque_uplink api lease mtu False cs = []"
  by (induction cs) auto

text \<open>C2: the uplink of a CONNECT-IP tunnel over HTTP/2, from the client's capsule encoder to the
  server's device. However the stream is cut into reads and whatever happens in between, the
  packets written for the client are, in order, packets it sent in DATAGRAM capsules after a request
  for an IPv4 address, each valid IPv4 from its lease and within the MTU; and when the tunnel is
  still running, none of these is missing.\<close>

theorem masque_uplink_end_to_end:
  fixes cs :: "capsule list"
  assumes "send_many (\<lambda>enc c. write_capsule enc (capsule_type c) (capsule_value c)) (new_capsule_encoder w) cs = (Ok (), enc)"
    and "written w @ received evs = written (cap_writer enc)"
    and "run_masque_tunnel api (tun_router (leased_address lease)) try_packet lease mtu (masque_start now (rs, []) q out) evs = (res, k)"
  defines "sent \<equiv> masque_uplink api (leased_address lease) mtu False (map (\<lambda>c. (capsule_type c, capsule_value c)) cs)"
  shows "prefix (from_client (k_router k)) sent
    \<and> (res = None \<longrightarrow> from_client (k_router k) = sent)
    \<and> list_all (uplink_ok (leased_address lease) (unat mtu)) (from_client (k_router k))
    \<and> (from_client (k_router k) \<noteq> [] \<longrightarrow>
        (\<exists>c \<in> set cs. capsule_type c = CAPSULE_ADDRESS_REQUEST \<and> requests_ipv4 api (capsule_value c)))"
proof -
  have "length (cap_header (new_capsule_encoder w)) = 16" by (simp add: new_capsule_encoder_def)
  from write_capsules_Ok [OF assms(1) this] assms(2)
  have cs: "list_all capsule_valid cs" "received evs = concat (map capsule_wire cs)" by (simp_all add: new_capsule_encoder_def)
  have nil: "split_capsules [] = ([], [])" by (rule split_capsules_stop) (simp add: take_capsule_def parse_varint_def)
  have split: "fst (split_capsules (received evs)) = map (\<lambda>c. (capsule_type c, capsule_value c)) cs"
    using split_capsules_wire [OF cs(1), of "[]"] nil cs(2) by simp
  have log: "prefix (from_client (k_router k)) sent" "res = None \<Longrightarrow> from_client (k_router k) = sent"
    using tun.run_logged [OF assms(3)] nil split by (simp_all add: masque_start_def sent_def from_client_def)
  moreover have "list_all (uplink_ok (leased_address lease) (unat mtu)) (from_client (k_router k))"
    using masque_uplink_ok log(1) unfolding sent_def list_all_iff by (blast dest: set_mono_prefix)
  moreover have "\<exists>c \<in> set cs. capsule_type c = CAPSULE_ADDRESS_REQUEST \<and> requests_ipv4 api (capsule_value c)"
    if "from_client (k_router k) \<noteq> []"
  proof -
    have "sent \<noteq> []" using that log(1) by auto
    then obtain data where "(CAPSULE_ADDRESS_REQUEST, data) \<in> set (map (\<lambda>c. (capsule_type c, capsule_value c)) cs)" "requests_ipv4 api data"
      using masque_uplink_unassigned unfolding sent_def by blast
    then show ?thesis by (auto intro: sym)
  qed
  ultimately show ?thesis by blast
qed

text \<open>A client that asks for an address and sends one packet of twenty bytes from it, received byte by
  byte but for the first three.\<close>

definition sample_uplink :: bytes where
  "sample_uplink = [0x45, 0, 0, 20, 0, 0, 0, 0, 64, 17, 0, 0, 10, 0, 0, 2, 8, 8, 8, 8]"

definition sample_capsules :: "capsule list" where
  "sample_capsules =
    [\<lparr>capsule_type = CAPSULE_ADDRESS_REQUEST, capsule_value = [7, 4, 0, 0, 0, 0, 0]\<rparr>,
     \<lparr>capsule_type = CAPSULE_DATAGRAM, capsule_value = 0 # sample_uplink\<rparr>]"

definition sample_lease :: icmp_context where
  "sample_lease = \<lparr>gateway = 0x0a000001, leased_address = 0x0a000002, prefix_len = 24\<rparr>"

definition sample_stream :: bytes where
  "sample_stream = concat (map capsule_wire sample_capsules)"

definition sample_reads :: "masque_event list" where
  "sample_reads = MasqueRead (take 3 sample_stream) # map (\<lambda>b. MasqueRead [b]) (drop 3 sample_stream)"

theorem masque_uplink_end_to_end_witness:
  "\<exists>res k. run_masque_tunnel pair_net (tun_router (leased_address sample_lease)) (\<lambda>q :: unit. (None, q)) sample_lease 1280
      (masque_start 0 ([], []) () []) sample_reads = (res, k)
    \<and> res = None \<and> from_client (k_router k) = [sample_uplink]"
proof -
  let ?enc = "\<lparr>cap_writer = \<lparr>written = sample_stream, replies = []\<rparr>, cap_header = [0, 21, 0, 0, 0, 0, 0, 0, 0, 0, 0, 0, 0, 0, 0, 0]\<rparr>"
  have enc: "send_many (\<lambda>enc c. write_capsule enc (capsule_type c) (capsule_value c))
      (new_capsule_encoder \<lparr>written = [], replies = []\<rparr>) sample_capsules = (Ok (), ?enc)" by code_simp
  have reads: "written \<lparr>written = [], replies = []\<rparr> @ received sample_reads = written (cap_writer ?enc)" by code_simp
  have running: "fst (run_masque_tunnel pair_net (tun_router (leased_address sample_lease)) (\<lambda>q :: unit. (None, q)) sample_lease 1280
      (masque_start 0 ([], []) () []) sample_reads) = None" by code_simp
  have sent: "masque_uplink pair_net (leased_address sample_lease) 1280 False (map (\<lambda>c. (capsule_type c, capsule_value c)) sample_capsules)
      = [sample_uplink]" by code_simp
  obtain res k where run: "run_masque_tunnel pair_net (tun_router (leased_address sample_lease)) (\<lambda>q :: unit. (None, q)) sample_lease 1280
      (masque_start 0 ([], []) () []) sample_reads = (res, k)" by force
  from masque_uplink_end_to_end [OF enc reads run] running run sent show ?thesis by simp
qed

subsection \<open>The downlink\<close>

definition ip_capsule :: "bytes \<Rightarrow> capsule" where
  "ip_capsule packet = \<lparr>capsule_type = CAPSULE_DATAGRAM, capsule_value = encode_ip_packet packet\<rparr>"

fun pop :: "bytes list \<Rightarrow> bytes option \<times> bytes list" where
  "pop [] = (None, [])"
| "pop (p # ps) = (Some p, ps)"

lemma ip_capsule_valid: "length packet < MAX_CAPSULE_SIZE \<Longrightarrow> capsule_valid (ip_capsule packet)"
  by (simp add: ip_capsule_def capsule_valid_def encode_ip_packet_def CAPSULE_DATAGRAM_def)

lemma split_ip_capsules:
  assumes "list_all (\<lambda>p. length p < MAX_CAPSULE_SIZE) packets"
  shows "split_capsules (concat (map (\<lambda>p. capsule_wire (ip_capsule p)) packets))
    = (map (\<lambda>p. (CAPSULE_DATAGRAM, encode_ip_packet p)) packets, [])"
proof -
  have "split_capsules [] = ([], [])" by (rule split_capsules_stop) (simp add: take_capsule_def parse_varint_def)
  moreover have "list_all capsule_valid (map ip_capsule packets)" using assms ip_capsule_valid by (simp add: list_all_iff)
  moreover have "map (\<lambda>p. capsule_wire (ip_capsule p)) packets = map capsule_wire (map ip_capsule packets)" by simp
  ultimately show ?thesis
    using split_capsules_wire [of "map ip_capsule packets" "[]"] by (simp add: o_def) (simp add: ip_capsule_def)
qed

lemma append_ip_capsules_Ok:
  "list_all (\<lambda>p. length p < MAX_CAPSULE_SIZE) packets \<Longrightarrow>
    fst (append_ip_capsules packets control calls) = Ok (control @ concat (map (\<lambda>p. capsule_wire (ip_capsule p)) packets))"
  by (induction packets arbitrary: control calls) (auto simp: append_ip_capsule_Ok ip_capsule_def)

lemma masque_batch_Ok:
  "list_all (\<lambda>p. length p < MAX_CAPSULE_SIZE) q \<Longrightarrow> \<exists>n calls'. masque_batch pop count batched control q calls
      = (Ok (control @ concat (map (\<lambda>p. capsule_wire (ip_capsule p)) (take n q))), drop n q, calls')
    \<and> (count < PACKET_BATCH \<and> batched < BATCH_BYTES \<and> q \<noteq> [] \<longrightarrow> n > 0)"
proof (induction q arbitrary: count batched control calls)
  case Nil
  then show ?case by (auto simp: masque_batch.simps [of _ _ _ _ "[]"])
next
  case (Cons p q)
  show ?case
  proof (cases "count < PACKET_BATCH \<and> batched < BATCH_BYTES")
    case True
    have p: "append_ip_capsule control p = Ok (control @ capsule_wire (ip_capsule p))"
      using Cons.prems by (simp add: append_ip_capsule_Ok ip_capsule_def)
    obtain n calls' where "masque_batch pop (count + 1) (batched + length p) (control @ capsule_wire (ip_capsule p)) q
          (calls @ [SentToClient, Downloaded (length p) 1])
        = (Ok (control @ capsule_wire (ip_capsule p) @ concat (map (\<lambda>p. capsule_wire (ip_capsule p)) (take n q))), drop n q, calls')"
      using Cons.IH [of "count + 1" "batched + length p" "control @ capsule_wire (ip_capsule p)"] Cons.prems by fastforce
    then show ?thesis
      using True p by (intro exI [of _ "Suc n"] exI [of _ calls']) (simp add: masque_batch.simps [of _ _ _ _ "p # q"])
  next
    case False
    then show ?thesis by (intro exI [of _ 0] exI [of _ calls]) (auto simp: masque_batch.simps [of _ _ _ _ "p # q"])
  qed
qed



text \<open>C24: only the first packet of a batch is compared with the MTU: a packet above it that is queued
  behind one within it is sent whole.\<close>

theorem masque_batch_skips_mtu:
  assumes "k_replies k = []" and "k_downlink k = big # rest" and "length packet \<le> unat mtu" and "unat mtu < length big"
    and "length packet < BATCH_BYTES" and "list_all (\<lambda>p. length p < MAX_CAPSULE_SIZE) (big # rest)"
  shows "\<exists>k' later. send_masque_downlink router pop lease mtu now identification packet k = (None, k')
    \<and> k_written k' = k_written k @ capsule_wire (ip_capsule packet) @ capsule_wire (ip_capsule big) @ later"
proof -
  have small: "length packet < MAX_CAPSULE_SIZE" using assms(5) by (simp add: BATCH_BYTES_def MAX_CAPSULE_SIZE_def)
  then have first: "append_ip_capsule [] packet = Ok (capsule_wire (ip_capsule packet))"
    by (simp add: append_ip_capsule_Ok ip_capsule_def)
  obtain n calls where batch: "masque_batch pop 1 (length packet) (capsule_wire (ip_capsule packet)) (big # rest)
        (k_calls k @ [SentToClient, Downloaded (length packet) 1])
      = (Ok (capsule_wire (ip_capsule packet) @ concat (map (\<lambda>p. capsule_wire (ip_capsule p)) (take n (big # rest)))),
         drop n (big # rest), calls)" and n: "n > 0"
    using masque_batch_Ok [OF assms(6), of 1 "length packet"] assms(5) by (fastforce simp: PACKET_BATCH_def)
  then show ?thesis
    using first assms(1-3) by (cases n) (auto simp: send_masque_downlink_def write_masque_output_def)
qed

theorem masque_batch_skips_mtu_witness:
  "\<exists>k' later. send_masque_downlink (tun_router 1) pop sample_lease 68 0 0 sample_uplink
      (masque_start 0 ([], []) [sample_packet] []) = (None, k')
    \<and> k_written k' = capsule_wire (ip_capsule sample_uplink) @ capsule_wire (ip_capsule sample_packet) @ later
    \<and> length sample_packet = 100"
proof -
  have len: "length sample_uplink = 20" "length sample_packet = 100" by code_simp+
  from masque_batch_skips_mtu [of "masque_start 0 ([], []) [sample_packet] []" sample_packet "[]" sample_uplink 68 "tun_router 1" sample_lease 0 0] len
  show ?thesis by (auto simp: masque_start_def BATCH_BYTES_def MAX_CAPSULE_SIZE_def)
qed

end
