(* ===== verification/H3_Downlink.thy ===== *)
theory H3_Downlink
  imports Masque_Tunnel "HOL-Library.Multiset"
begin

text \<open>
  The downlink of a CONNECT-IP tunnel over HTTP/3 (\<open>send_downlink\<close>, \<open>Http3Diagnostics\<close> and
  \<open>Http3SendCounters\<close> of porta-server/src/transport/http3.rs). The QUIC
  connection, the packet router and the task that writes the stream are the environment: the
  operations the code calls on them are functions on a state of their own, and every call may find
  that state changed.
\<close>

definition MAX_DATAGRAM_RETRIES :: nat where "MAX_DATAGRAM_RETRIES = 4"

subsection \<open>Diagnostics\<close>

datatype datagram_error_kind = TooLarge | NotAvailable | Connection

record h3_send_counters =
  datagram_queued_packets :: u64
  datagram_queued_ip_bytes :: u64
  capsule_submitted_packets :: u64
  capsule_submitted_ip_bytes :: u64
  oversize_fallback_packets :: u64
  oversize_fallback_ip_bytes :: u64
  max_oversize_ip_bytes :: nat
  unavailable_fallback_packets :: u64

definition datagram_queued :: "nat \<Rightarrow> h3_send_counters \<Rightarrow> h3_send_counters" where
  "datagram_queued size_ip c =
    c\<lparr>datagram_queued_packets := datagram_queued_packets c + 1,
      datagram_queued_ip_bytes := datagram_queued_ip_bytes c + u64_of size_ip\<rparr>"

definition capsule_submitted :: "nat \<Rightarrow> u64 \<Rightarrow> h3_send_counters \<Rightarrow> h3_send_counters" where
  "capsule_submitted size_ip packets c =
    c\<lparr>capsule_submitted_packets := capsule_submitted_packets c + packets,
      capsule_submitted_ip_bytes := capsule_submitted_ip_bytes c + u64_of size_ip\<rparr>"

fun sends_fallback :: "datagram_error_kind \<Rightarrow> nat \<Rightarrow> h3_send_counters \<Rightarrow> h3_send_counters" where
  "sends_fallback TooLarge size_ip c =
    c\<lparr>oversize_fallback_packets := oversize_fallback_packets c + 1,
      oversize_fallback_ip_bytes := oversize_fallback_ip_bytes c + u64_of size_ip,
      max_oversize_ip_bytes := max (max_oversize_ip_bytes c) size_ip\<rparr>"
| "sends_fallback NotAvailable size_ip c = c\<lparr>unavailable_fallback_packets := unavailable_fallback_packets c + 1\<rparr>"
| "sends_fallback Connection size_ip c = c"

record h3_diagnostics =
  d_selected_mtu :: u16
  datagrams_enabled :: bool
  datagrams_disabled_reason :: string
  min_oversize_ip_capacity :: "nat option"
  packet_mtu :: datagram_mtu
  mtu_reductions :: u64
  too_large_retries :: u64
  feedback :: feedback_policy
  d_sends :: h3_send_counters

definition diagnostics_fallback :: "nat option \<Rightarrow> datagram_error_kind \<Rightarrow> nat \<Rightarrow> h3_diagnostics \<Rightarrow> h3_diagnostics" where
  "diagnostics_fallback ip_capacity kind size_ip d =
    (let d = (if kind = TooLarge
              then (case ip_capacity of
                      None \<Rightarrow> d
                    | Some capacity \<Rightarrow>
                        d\<lparr>min_oversize_ip_capacity :=
                          Some (case min_oversize_ip_capacity d of None \<Rightarrow> capacity | Some previous \<Rightarrow> min previous capacity)\<rparr>)
              else d)
     in d\<lparr>d_sends := sends_fallback kind size_ip (d_sends d)\<rparr>)"

definition disable_datagrams :: "string \<Rightarrow> h3_diagnostics \<Rightarrow> h3_diagnostics" where
  "disable_datagrams reason d =
    (if datagrams_enabled d then d\<lparr>datagrams_enabled := False, datagrams_disabled_reason := reason\<rparr> else d)"

definition select_mtu :: "u16 \<Rightarrow> h3_diagnostics \<Rightarrow> (mtu_error + unit) \<times> h3_diagnostics" where
  "select_mtu mtu d =
    (case datagram_mtu_update (packet_mtu d) (unat mtu) of
       (Err e, m) \<Rightarrow> (Err e, d\<lparr>packet_mtu := m\<rparr>)
     | (Ok _, m) \<Rightarrow> (Ok (), d\<lparr>packet_mtu := m, d_selected_mtu := mtu\<rparr>))"

definition refresh_packet_mtu :: "nat option \<Rightarrow> h3_diagnostics \<Rightarrow> (mtu_error + session_call list) \<times> h3_diagnostics" where
  "refresh_packet_mtu capacity d =
    (case capacity of
       None \<Rightarrow> (Ok [], disable_datagrams ''not_available'' d)
     | Some capacity \<Rightarrow>
         (case datagram_mtu_update (packet_mtu d) capacity of
            (Err e, m) \<Rightarrow> (Err e, d\<lparr>packet_mtu := m\<rparr>)
          | (Ok reduced, m) \<Rightarrow>
              if reduced then (Ok [DatagramMtuReduced], d\<lparr>packet_mtu := m, mtu_reductions := mtu_reductions d + 1\<rparr>)
              else (Ok [], d\<lparr>packet_mtu := m\<rparr>)))"

subsection \<open>Sending a packet\<close>

record ('e, 'd) h3_environment =
  h_cancelled :: "'d \<Rightarrow> bool \<times> 'd"
  h_capacity :: "'d \<Rightarrow> nat option \<times> 'd"
  h_send :: "'d \<Rightarrow> bytes \<Rightarrow> (datagram_error_kind + unit) \<times> 'd"
  h_rtt :: "'d \<Rightarrow> duration \<times> 'd"
  h_identification :: "'d \<Rightarrow> u16 \<times> 'd"
  h_inject :: "'d \<Rightarrow> bytes \<Rightarrow> ('e + unit) \<times> 'd"
  h_queue :: "'d \<Rightarrow> bytes \<Rightarrow> ('e + unit) \<times> 'd"

datatype 'e downlink_error = DownlinkCancelled | DownlinkMtu mtu_error | DownlinkFailed 'e | DownlinkConnection | NotConverging

text \<open>What becomes of each part of a packet is recorded.\<close>

datatype part = AsDatagram bytes | AsCapsule bytes | Discarded bytes

record 'd downlink =
  l_env :: 'd
  l_diagnostics :: h3_diagnostics
  l_calls :: "session_call list"
  l_parts :: "part list"

definition l_call :: "session_call list \<Rightarrow> 'd downlink \<Rightarrow> 'd downlink" where
  "l_call calls l = l\<lparr>l_calls := l_calls l @ calls\<rparr>"

definition l_part :: "part \<Rightarrow> 'd downlink \<Rightarrow> 'd downlink" where
  "l_part p l = l\<lparr>l_parts := l_parts l @ [p]\<rparr>"

abbreviation enabled :: "'d downlink \<Rightarrow> bool" where
  "enabled l \<equiv> datagrams_enabled (l_diagnostics l)"

abbreviation limit_of :: "'d downlink \<Rightarrow> nat" where
  "limit_of l \<equiv> mtu_limit (packet_mtu (l_diagnostics l))"

definition refresh :: "('e, 'd) h3_environment \<Rightarrow> 'd downlink \<Rightarrow> 'e downlink_error option \<times> 'd downlink" where
  "refresh env l =
    (case h_capacity env (l_env l) of
       (capacity, w) \<Rightarrow>
         (case refresh_packet_mtu capacity (l_diagnostics l) of
            (Err e, d) \<Rightarrow> (Some (DownlinkMtu e), l\<lparr>l_env := w, l_diagnostics := d\<rparr>)
          | (Ok calls, d) \<Rightarrow> (None, l_call calls (l\<lparr>l_env := w, l_diagnostics := d\<rparr>))))"

text \<open>A packet above the limit that must not be fragmented: an ICMP message to its sender, or after enough
  of these a capsule.\<close>

definition send_oversized ::
  "('e, 'd) h3_environment \<Rightarrow> icmp_context \<Rightarrow> u16 \<Rightarrow> instant \<Rightarrow> nat \<Rightarrow> bytes \<Rightarrow> 'd downlink
    \<Rightarrow> 'e downlink_error option \<times> 'd downlink" where
  "send_oversized env lease mtu now limit packet l =
    (case h_identification env (l_env l) of
       (identification, w) \<Rightarrow>
         let l = l\<lparr>l_env := w\<rparr> in
         case icmp_fragmentation_needed packet lease limit identification of
           Err IcmpSuppressed \<Rightarrow> (None, l_part (Discarded packet) (l_call [MtuIcmpSuppressed] l))
         | Err InvalidMtu \<Rightarrow> (Some (DownlinkMtu InvalidMtu), l)
         | Err _ \<Rightarrow> (None, l_part (Discarded packet) (l_call [InvalidTun] l))
         | Ok reply \<Rightarrow>
             (case h_rtt env (l_env l) of
                (rtt, w) \<Rightarrow>
                  (case on_oversized (feedback (l_diagnostics l)) packet limit (unat mtu) now rtt of
                     (decision, fb) \<Rightarrow>
                       let l = l\<lparr>l_env := w, l_diagnostics := (l_diagnostics l)\<lparr>feedback := fb\<rparr>\<rparr>;
                           icmp = (if send_icmp decision
                             then (case h_inject env (l_env l) reply of
                                     (Err e, w) \<Rightarrow> (Some (DownlinkFailed e), l\<lparr>l_env := w\<rparr>)
                                   | (Ok _, w) \<Rightarrow> (None, l_call [MtuIcmpSent] (l\<lparr>l_env := w\<rparr>)))
                             else if \<not> use_capsule decision then (None, l_call [MtuIcmpRateLimited] l) else (None, l))
                       in (case icmp of
                             (Some e, l) \<Rightarrow> (Some e, l)
                           | (None, l) \<Rightarrow>
                               if use_capsule decision \<and> enabled l then
                                 (case h_queue env (l_env l) packet of
                                    (Err e, w) \<Rightarrow> (Some (DownlinkFailed e), l\<lparr>l_env := w\<rparr>)
                                  | (Ok _, w) \<Rightarrow>
                                      (case h_capacity env w of
                                         (capacity, w) \<Rightarrow>
                                           let d = diagnostics_fallback capacity TooLarge (length packet) (l_diagnostics l);
                                               d = d\<lparr>d_sends := capsule_submitted (length packet) 1 (d_sends d)\<rparr>
                                           in (None, l_part (AsCapsule packet)
                                                 (l_call [DatagramOversize] (l\<lparr>l_env := w, l_diagnostics := d\<rparr>)))))
                               else (None, l_part (Discarded packet) l)))))"

lemma diagnostics_simps [simp]:
  "datagrams_enabled (diagnostics_fallback c k n d) = datagrams_enabled d"
  "packet_mtu (diagnostics_fallback c k n d) = packet_mtu d"
  "datagrams_enabled (disable_datagrams r d) = False"
  "packet_mtu (disable_datagrams r d) = packet_mtu d"
  by (auto simp: diagnostics_fallback_def disable_datagrams_def Let_def split: option.split)

lemma l_simps [simp]:
  "l_diagnostics (l_call c l) = l_diagnostics l" "l_parts (l_call c l) = l_parts l" "l_env (l_call c l) = l_env l"
  "l_diagnostics (l_part p l) = l_diagnostics l" "l_parts (l_part p l) = l_parts l @ [p]" "l_env (l_part p l) = l_env l"
  by (simp_all add: l_call_def l_part_def)

lemma refresh_facts:
  assumes "refresh env l = (res, l')"
  shows "(enabled l' \<longrightarrow> enabled l) \<and> limit_of l' \<le> limit_of l \<and> l_parts l' = l_parts l
    \<and> (res = None \<longrightarrow> (MIN_IPV4_MTU \<le> limit_of l \<longrightarrow> MIN_IPV4_MTU \<le> limit_of l'))"
  using assms
  by (auto simp: refresh_def refresh_packet_mtu_def datagram_mtu_update_def Let_def split: prod.splits option.splits sum.splits if_splits)

lemma capsule_fits:
  assumes "on_oversized fb packet limit ceiling now rtt = (decision, fb')" and "use_capsule decision"
  shows "length packet \<le> ceiling"
  using assms by (auto simp: on_oversized_def feedback_decide_def default_decision_def Let_def split: if_splits prod.splits)

lemma oversized_facts:
  assumes "send_oversized env lease mtu now limit packet l = (res, l')"
  shows "enabled l' = enabled l \<and> limit_of l' = limit_of l
    \<and> (res = None \<longrightarrow> l_parts l' = l_parts l @ [Discarded packet] \<or> l_parts l' = l_parts l @ [AsCapsule packet] \<and> length packet \<le> unat mtu)"
proof -
  obtain identification w where id: "h_identification env (l_env l) = (identification, w)" by force
  obtain rtt w1 where rtt: "h_rtt env w = (rtt, w1)" by force
  obtain decision fb where dec: "on_oversized (feedback (l_diagnostics l)) packet limit (unat mtu) now rtt = (decision, fb)" by force
  show ?thesis
    using assms capsule_fits [OF dec]
    by (auto simp: send_oversized_def id rtt dec Let_def split: sum.splits mtu_error.splits prod.splits if_splits)
qed

text \<open>One round of the loop of \<open>send_downlink\<close>: the packet at the front, the parts still to be sent after it
  and the retries so far give an error, or the parts and the retries for the next round.\<close>

definition send_within ::
  "('e, 'd) h3_environment \<Rightarrow> bytes \<Rightarrow> bytes list \<Rightarrow> nat \<Rightarrow> 'd downlink \<Rightarrow> ('e downlink_error + bytes list \<times> nat) \<times> 'd downlink" where
  "send_within env packet waiting retries l =
    (if \<not> enabled l then
       (case h_queue env (l_env l) packet of
          (Err e, w) \<Rightarrow> (Err (DownlinkFailed e), l\<lparr>l_env := w\<rparr>)
        | (Ok _, w) \<Rightarrow>
            (Ok (waiting, retries), l_part (AsCapsule packet) (l\<lparr>l_env := w,
               l_diagnostics := (l_diagnostics l)\<lparr>d_sends := capsule_submitted (length packet) 1 (d_sends (l_diagnostics l))\<rparr>\<rparr>)))
     else
       (case h_send env (l_env l) packet of
          (Ok _, w) \<Rightarrow>
            (Ok (waiting, retries), l_part (AsDatagram packet)
               (l_call [SentToClient, Downloaded (length packet) 1] (l\<lparr>l_env := w,
                 l_diagnostics := (l_diagnostics l)\<lparr>d_sends := datagram_queued (length packet) (d_sends (l_diagnostics l))\<rparr>\<rparr>)))
        | (Err TooLarge, w) \<Rightarrow>
            (case refresh env (l\<lparr>l_env := w\<rparr>) of
               (Some e, l') \<Rightarrow> (Err e, l')
             | (None, l') \<Rightarrow>
                 if retries + 1 > MAX_DATAGRAM_RETRIES \<or> (enabled l' \<and> limit_of l' \<ge> limit_of l) then (Err NotConverging, l')
                 else (Ok (packet # waiting, retries + 1),
                   l'\<lparr>l_diagnostics := (l_diagnostics l')\<lparr>too_large_retries := too_large_retries (l_diagnostics l') + 1\<rparr>\<rparr>))
        | (Err NotAvailable, w) \<Rightarrow>
            (case h_capacity env w of
               (capacity, w) \<Rightarrow>
                 (Ok (packet # waiting, retries), l\<lparr>l_env := w,
                   l_diagnostics := disable_datagrams ''not_available''
                     (diagnostics_fallback capacity NotAvailable (length packet) (l_diagnostics l))\<rparr>))
        | (Err Connection, w) \<Rightarrow> (Err DownlinkConnection, l\<lparr>l_env := w\<rparr>)))"

definition send_above ::
  "('e, 'd) h3_environment \<Rightarrow> icmp_context \<Rightarrow> u16 \<Rightarrow> instant \<Rightarrow> nat \<Rightarrow> bytes \<Rightarrow> bytes list \<Rightarrow> nat \<Rightarrow> 'd downlink
    \<Rightarrow> ('e downlink_error + bytes list \<times> nat) \<times> 'd downlink" where
  "send_above env lease mtu now limit packet waiting retries l =
    (case fragment_ipv4 packet limit of
       Ok fragments \<Rightarrow> (Ok (fragments @ waiting, retries), l_call [MtuFragmented] l)
     | Err FragmentationNeeded \<Rightarrow>
         (case send_oversized env lease mtu now limit packet l of
            (Some e, l) \<Rightarrow> (Err e, l)
          | (None, l) \<Rightarrow> (Ok (waiting, retries), l))
     | Err InvalidMtu \<Rightarrow> (Err (DownlinkMtu InvalidMtu), l)
     | Err _ \<Rightarrow> (Ok (waiting, retries), l_part (Discarded packet) (l_call [InvalidTun] l)))"

definition send_round ::
  "('e, 'd) h3_environment \<Rightarrow> icmp_context \<Rightarrow> u16 \<Rightarrow> instant \<Rightarrow> bytes \<Rightarrow> bytes list \<Rightarrow> nat \<Rightarrow> 'd downlink
    \<Rightarrow> ('e downlink_error + bytes list \<times> nat) \<times> 'd downlink" where
  "send_round env lease mtu now packet waiting retries l =
    (case h_cancelled env (l_env l) of
       (True, w) \<Rightarrow> (Err DownlinkCancelled, l\<lparr>l_env := w\<rparr>)
     | (False, w) \<Rightarrow>
         (case (if enabled l then refresh env (l\<lparr>l_env := w\<rparr>) else (None, l\<lparr>l_env := w\<rparr>)) of
            (Some e, l) \<Rightarrow> (Err e, l)
          | (None, l) \<Rightarrow>
              let limit = (if enabled l then limit_of l else unat mtu) in
              if length packet > limit then send_above env lease mtu now limit packet waiting retries l
              else send_within env packet waiting retries l))"

text \<open>A round either gives up a datagram retry, or the datagrams themselves, or replaces a part by strictly
  shorter ones.\<close>

lemma fragments_shorter:
  assumes "fragment_ipv4 packet limit = Ok fs" and "limit < length packet"
  shows "(mset (map length (fs @ waiting)), mset (map length (packet # waiting))) \<in> mult less_than"
proof -
  have "\<forall>n \<in># mset (map length fs). n < length packet"
    using fragments_of_packet [OF assms(1)] assms(2) by (auto simp: list_all_iff fragment_of_def)
  then have "(mset (map length waiting) + mset (map length fs), mset (map length waiting) + {#length packet#}) \<in> mult less_than"
    by (intro one_step_implies_mult) auto
  then show ?thesis by (simp add: add.commute)
qed

lemma part_done: "(mset (map length waiting), mset (map length (packet # waiting))) \<in> mult less_than"
  using one_step_implies_mult [of "{#length packet#}" "{#}" less_than "mset (map length waiting)"] by simp

definition send_measure :: "bytes list \<Rightarrow> nat \<Rightarrow> 'd downlink \<Rightarrow> nat \<times> nat \<times> nat multiset" where
  "send_measure parts retries l =
    (MAX_DATAGRAM_RETRIES + 1 - retries, if enabled l then 1 else 0, mset (map length parts))"

abbreviation send_less :: "(nat \<times> nat \<times> nat multiset) rel" where
  "send_less \<equiv> less_than <*lex*> less_than <*lex*> mult less_than"

lemma send_within_less:
  assumes "send_within env packet waiting retries l = (Ok (parts, retries'), l')"
  shows "(send_measure parts retries' l', send_measure (packet # waiting) retries l) \<in> send_less"
  using assms
  by (auto simp: send_within_def send_measure_def part_done [simplified] dest!: refresh_facts
      split: if_splits prod.splits sum.splits datagram_error_kind.splits option.splits)

lemma send_above_less:
  assumes "send_above env lease mtu now limit packet waiting retries l = (Ok (parts, retries'), l')" and "limit < length packet"
  shows "(send_measure parts retries' l', send_measure (packet # waiting) retries l) \<in> send_less"
  using assms
  by (auto simp: send_above_def send_measure_def part_done [simplified] fragments_shorter [simplified] dest!: oversized_facts
      split: sum.splits mtu_error.splits prod.splits option.splits)

lemma measure_refreshed:
  assumes "(m, send_measure parts retries l1) \<in> send_less" and "enabled l1 \<longrightarrow> enabled l"
  shows "(m, send_measure parts retries l) \<in> send_less"
  using assms by (cases m) (auto simp: send_measure_def split: if_splits)

lemma send_round_refreshed:
  assumes "send_round env lease mtu now packet waiting retries l = (Ok next, l')"
  obtains l1 where "enabled l1 \<longrightarrow> enabled l" "limit_of l1 \<le> limit_of l" "l_parts l1 = l_parts l"
    "(if length packet > (if enabled l1 then limit_of l1 else unat mtu)
      then send_above env lease mtu now (if enabled l1 then limit_of l1 else unat mtu) packet waiting retries l1
      else send_within env packet waiting retries l1) = (Ok next, l')"
proof -
  obtain w where w: "h_cancelled env (l_env l) = (False, w)"
    using assms by (cases "h_cancelled env (l_env l)") (auto simp: send_round_def split: bool.splits)
  obtain res l1 where r: "(if enabled l then refresh env (l\<lparr>l_env := w\<rparr>) else (None, l\<lparr>l_env := w\<rparr>)) = (res, l1)" by force
  have "res = None" using assms w r by (cases res) (auto simp: send_round_def)
  moreover have "(enabled l1 \<longrightarrow> enabled l) \<and> limit_of l1 \<le> limit_of l \<and> l_parts l1 = l_parts l"
    using r by (auto dest!: refresh_facts split: if_splits)
  ultimately show ?thesis using assms w r that [of l1] by (simp add: send_round_def Let_def)
qed

lemma send_round_less:
  assumes "send_round env lease mtu now packet waiting retries l = (Ok (parts, retries'), l')"
  shows "(send_measure parts retries' l', send_measure (packet # waiting) retries l) \<in> send_less"
proof -
  from send_round_refreshed [OF assms] obtain l1 where l1: "enabled l1 \<longrightarrow> enabled l"
    "(if length packet > (if enabled l1 then limit_of l1 else unat mtu)
      then send_above env lease mtu now (if enabled l1 then limit_of l1 else unat mtu) packet waiting retries l1
      else send_within env packet waiting retries l1) = (Ok (parts, retries'), l')" .
  then have "(send_measure parts retries' l', send_measure (packet # waiting) retries l1) \<in> send_less"
    by (metis send_above_less send_within_less)
  then show ?thesis using l1(1) by (rule measure_refreshed)
qed

function send_loop ::
  "('e, 'd) h3_environment \<Rightarrow> icmp_context \<Rightarrow> u16 \<Rightarrow> instant \<Rightarrow> bytes list \<Rightarrow> nat \<Rightarrow> 'd downlink
    \<Rightarrow> 'e downlink_error option \<times> 'd downlink" where
  "send_loop env lease mtu now parts retries l =
    (case parts of
       [] \<Rightarrow> (None, l)
     | packet # waiting \<Rightarrow>
         (case send_round env lease mtu now packet waiting retries l of
            (Err e, l') \<Rightarrow> (Some e, l')
          | (Ok (parts', retries'), l') \<Rightarrow> send_loop env lease mtu now parts' retries' l'))"
  by pat_completeness auto
termination
  by (relation "inv_image send_less (\<lambda>(env, lease, mtu, now, parts, retries, l). send_measure parts retries l)")
    (auto intro!: wf_inv_image wf_lex_prod wf_mult send_round_less [OF sym])

declare send_loop.simps [simp del]

definition send_downlink ::
  "('e, 'd) h3_environment \<Rightarrow> icmp_context \<Rightarrow> u16 \<Rightarrow> instant \<Rightarrow> bytes \<Rightarrow> 'd downlink \<Rightarrow> 'e downlink_error option \<times> 'd downlink" where
  "send_downlink env lease mtu now packet l = send_loop env lease mtu now [packet] 0 l"

subsection \<open>Every part of a packet is accounted for\<close>

fun part_bytes :: "part \<Rightarrow> bytes" where
  "part_bytes (AsDatagram p) = p"
| "part_bytes (AsCapsule p) = p"
| "part_bytes (Discarded p) = p"

text \<open>The parts are the packet itself, or fragments of it that carry its payload without gap or overlap.\<close>

definition split_of :: "bytes \<Rightarrow> bytes list \<Rightarrow> bool" where
  "split_of packet parts \<longleftrightarrow> parts = [packet] \<or>
    reassembles parts (frag_offset packet) (ip_payload packet) (more_fragments packet)
    \<and> list_all (fragment_of packet 65535) parts"

fun pieces :: "bytes list \<Rightarrow> bytes list \<Rightarrow> bool" where
  "pieces [] parts \<longleftrightarrow> parts = []"
| "pieces (p # ps) parts \<longleftrightarrow> (\<exists>a b. parts = a @ b \<and> split_of p a \<and> pieces ps b)"

lemma reassembles_append:
  "reassembles a off d1 m1 \<Longrightarrow> reassembles b (off + length d1) d2 mf \<Longrightarrow> m1 = (d2 \<noteq> [] \<or> mf) \<Longrightarrow> reassembles (a @ b) off (d1 @ d2) mf"
proof (induction a arbitrary: off d1)
  case (Cons g a)
  let ?n = "length (ip_payload g)"
  have g: "frag_offset g = off" "?n \<noteq> 0" "take ?n d1 = ip_payload g" "more_fragments g \<longleftrightarrow> ?n < length d1 \<or> m1"
    "reassembles a (off + ?n) (drop ?n d1) m1" using Cons.prems(1) by (simp_all add: Let_def)
  have le: "?n \<le> length d1" using arg_cong [OF g(3), of length] by simp
  have "reassembles b (off + ?n + length (drop ?n d1)) d2 mf" using Cons.prems(2) le by simp
  then have "reassembles (a @ b) (off + ?n) (drop ?n d1 @ d2) mf" using Cons.IH [OF g(5)] Cons.prems(3) by simp
  then show ?case using g le Cons.prems(3) by (cases d2) (auto simp: Let_def)
qed simp

lemma pieces_append: "pieces (as @ bs) parts \<longleftrightarrow> (\<exists>a b. parts = a @ b \<and> pieces as a \<and> pieces bs b)"
  by (induction as arbitrary: parts) (auto, metis append.assoc, metis append.assoc)

lemma pieces_reassemble:
  "pieces fs parts \<Longrightarrow> reassembles fs off data mf \<Longrightarrow> reassembles parts off data mf"
proof (induction fs arbitrary: parts off data)
  case (Cons f fs)
  let ?n = "length (ip_payload f)"
  obtain a b where ab: "parts = a @ b" "split_of f a" "pieces fs b" using Cons.prems(1) by auto
  have f: "frag_offset f = off" "?n \<noteq> 0" "take ?n data = ip_payload f" "more_fragments f \<longleftrightarrow> ?n < length data \<or> mf"
    "reassembles fs (off + ?n) (drop ?n data) mf" using Cons.prems(2) by (simp_all add: Let_def)
  have b: "reassembles b (off + ?n) (drop ?n data) mf" using Cons.IH [OF ab(3) f(5)] .
  show ?case
  proof (cases "a = [f]")
    case True
    then show ?thesis using f b ab(1) by (simp add: Let_def)
  next
    case False
    then have "reassembles a off (ip_payload f) (more_fragments f)" using ab(2) f(1) by (simp add: split_of_def)
    moreover have "more_fragments f = (drop ?n data \<noteq> [] \<or> mf)" using f(4) by auto
    ultimately have "reassembles (a @ b) off (ip_payload f @ drop ?n data) mf" using b by (intro reassembles_append)
    then show ?thesis using f(3) ab(1) by (metis append_take_drop_id)
  qed
qed simp

lemma fragment_of_trans: "fragment_of p n f \<Longrightarrow> fragment_of f m g \<Longrightarrow> fragment_of p m g"
  by (simp add: fragment_of_def)

lemma fragment_of_mono: "fragment_of p n f \<Longrightarrow> n \<le> m \<Longrightarrow> fragment_of p m f"
  by (simp add: fragment_of_def)

lemma pieces_fragments:
  "pieces fs parts \<Longrightarrow> list_all (fragment_of p 65535) fs \<Longrightarrow> list_all (fragment_of p 65535) parts"
  by (induction fs arbitrary: parts) (auto simp: split_of_def list_all_iff intro: fragment_of_trans)

lemma pieces_refragment:
  assumes "fragment_ipv4 packet limit = Ok fs" and "limit < length packet" and "pieces (fs @ waiting) parts"
  shows "pieces (packet # waiting) parts"
proof -
  obtain a b where ab: "parts = a @ b" "pieces fs a" "pieces waiting b" using assms(3) pieces_append by auto
  obtain info where "limit \<le> 65535" and fs: "list_all (fragment_of packet limit) fs"
    "reassembles fs (frag_offset packet) (ip_payload packet) (more_fragments packet)"
    using assms(1,2) by (auto elim!: fragment_ipv4_Ok)
  then have "list_all (fragment_of packet 65535) fs" by (auto simp: list_all_iff intro: fragment_of_mono)
  then have "split_of packet a" using pieces_reassemble [OF ab(2) fs(2)] pieces_fragments [OF ab(2)] by (simp add: split_of_def)
  then show ?thesis using ab by auto
qed

definition part_ok :: "nat \<Rightarrow> u16 \<Rightarrow> part \<Rightarrow> bool" where
  "part_ok limit mtu part =
    (case part of
       AsDatagram p \<Rightarrow> length p \<le> limit
     | AsCapsule p \<Rightarrow> length p \<le> unat mtu
     | Discarded p \<Rightarrow> (\<exists>at e. at < length p \<and> fragment_ipv4 p at = Err e))"

definition accounted :: "nat \<Rightarrow> u16 \<Rightarrow> bytes list \<Rightarrow> part list \<Rightarrow> bool" where
  "accounted limit mtu ps parts \<longleftrightarrow> pieces ps (map part_bytes parts) \<and> list_all (part_ok limit mtu) parts"

lemma accounted_Nil [simp]: "accounted limit mtu [] parts \<longleftrightarrow> parts = []"
  by (auto simp: accounted_def)

lemma part_ok_mono: "part_ok limit' mtu part \<Longrightarrow> limit' \<le> limit \<Longrightarrow> part_ok limit mtu part"
  by (auto simp: part_ok_def split: part.splits)

lemma pieces_keep: "pieces ps parts \<Longrightarrow> pieces (p # ps) (p # parts)"
  by (simp, rule exI [of _ "[p]"]) (simp add: split_of_def)

lemma accounted_mono: "accounted limit' mtu ps parts \<Longrightarrow> limit' \<le> limit \<Longrightarrow> accounted limit mtu ps parts"
  by (auto simp: accounted_def list_all_iff dest: part_ok_mono)

lemma accounted_Cons:
  "part_bytes part = p \<Longrightarrow> part_ok limit mtu part \<Longrightarrow> accounted limit mtu ps parts \<Longrightarrow> accounted limit mtu (p # ps) (part # parts)"
  using pieces_keep [of ps "map part_bytes parts" p] by (simp add: accounted_def del: pieces.simps)

lemma accounted_refragment:
  "fragment_ipv4 packet at = Ok fs \<Longrightarrow> at < length packet \<Longrightarrow> accounted limit mtu (fs @ ps) parts
    \<Longrightarrow> accounted limit mtu (packet # ps) parts"
  using pieces_refragment [of packet at fs ps "map part_bytes parts"] by (simp add: accounted_def del: pieces.simps)

lemma send_within_accounts:
  assumes "send_within env packet waiting retries l = (Ok (parts, retries'), l')"
    and "length packet \<le> (if enabled l then limit_of l else unat mtu)"
  shows "limit_of l' \<le> limit_of l \<and> (parts = packet # waiting \<and> l_parts l' = l_parts l
    \<or> parts = waiting \<and> (\<exists>part. l_parts l' = l_parts l @ [part] \<and> part_bytes part = packet \<and> part_ok (limit_of l) mtu part))"
  using assms
  by (auto simp: send_within_def part_ok_def dest!: refresh_facts
      split: if_splits prod.splits sum.splits datagram_error_kind.splits option.splits)

lemma part_ok_discarded: "fragment_ipv4 p at = Err e \<Longrightarrow> at < length p \<Longrightarrow> part_ok limit mtu (Discarded p)"
  by (auto simp: part_ok_def)

lemma part_ok_capsule [simp]: "part_ok limit mtu (AsCapsule p) \<longleftrightarrow> length p \<le> unat mtu"
  by (simp add: part_ok_def)

lemma send_above_accounts:
  assumes "send_above env lease mtu now limit packet waiting retries l = (Ok (parts, retries'), l')" and "limit < length packet"
  shows "limit_of l' = limit_of l \<and> ((\<exists>fs. fragment_ipv4 packet limit = Ok fs \<and> parts = fs @ waiting) \<and> l_parts l' = l_parts l
    \<or> parts = waiting \<and> (\<exists>part. l_parts l' = l_parts l @ [part] \<and> part_bytes part = packet \<and> part_ok (limit_of l) mtu part))"
  using assms
  by (auto simp: send_above_def dest!: oversized_facts intro: part_ok_discarded [of _ limit]
      split: sum.splits mtu_error.splits prod.splits option.splits)

lemma send_round_accounts:
  assumes "send_round env lease mtu now packet waiting retries l = (Ok (parts, retries'), l')"
    and "l_parts l'' = l_parts l' @ out" and "accounted (limit_of l') mtu parts out"
  shows "\<exists>out'. l_parts l'' = l_parts l @ out' \<and> accounted (limit_of l) mtu (packet # waiting) out'"
proof -
  from send_round_refreshed [OF assms(1)] obtain l1 where l1: "limit_of l1 \<le> limit_of l" "l_parts l1 = l_parts l"
    "(if length packet > (if enabled l1 then limit_of l1 else unat mtu)
      then send_above env lease mtu now (if enabled l1 then limit_of l1 else unat mtu) packet waiting retries l1
      else send_within env packet waiting retries l1) = (Ok (parts, retries'), l')" .
  let ?limit = "if enabled l1 then limit_of l1 else unat mtu"
  consider (part) part where "parts = waiting" "limit_of l' \<le> limit_of l1" "l_parts l' = l_parts l1 @ [part]" "part_bytes part = packet"
      "part_ok (limit_of l1) mtu part"
    | (again) "parts = packet # waiting" "limit_of l' \<le> limit_of l1" "l_parts l' = l_parts l1"
    | (cut) fs where "fragment_ipv4 packet ?limit = Ok fs" "?limit < length packet" "parts = fs @ waiting" "limit_of l' \<le> limit_of l1"
      "l_parts l' = l_parts l1"
  proof (cases "length packet > ?limit")
    case True
    then have "send_above env lease mtu now ?limit packet waiting retries l1 = (Ok (parts, retries'), l')" using l1(3) by simp
    note above = send_above_accounts [OF this True]
    then have le: "limit_of l' \<le> limit_of l1" by simp
    show ?thesis using above
    proof (elim conjE disjE exE)
      fix fs assume "fragment_ipv4 packet ?limit = Ok fs" "parts = fs @ waiting" "l_parts l' = l_parts l1"
      then show ?thesis using cut True le by blast
    next
      fix p assume "parts = waiting" "l_parts l' = l_parts l1 @ [p]" "part_bytes p = packet" "part_ok (limit_of l1) mtu p"
      then show ?thesis using part le by blast
    qed
  next
    case False
    then have "send_within env packet waiting retries l1 = (Ok (parts, retries'), l')" using l1(3) by simp
    from send_within_accounts [OF this False [unfolded not_less]] show ?thesis
    proof (elim conjE disjE exE)
      assume "limit_of l' \<le> limit_of l1" "parts = packet # waiting" "l_parts l' = l_parts l1"
      then show ?thesis by (intro again)
    next
      fix p assume "limit_of l' \<le> limit_of l1" "parts = waiting" "l_parts l' = l_parts l1 @ [p]" "part_bytes p = packet"
        "part_ok (limit_of l1) mtu p"
      then show ?thesis by (intro part)
    qed
  qed
  then show ?thesis
  proof cases
    case part
    then have "accounted (limit_of l) mtu (packet # waiting) (part # out)"
      using assms(3) l1(1) by (auto intro!: accounted_Cons intro: accounted_mono part_ok_mono order_trans)
    then show ?thesis using part assms(2) l1(2) by auto
  next
    case again
    then show ?thesis using assms(2,3) l1 by (auto intro: accounted_mono order_trans)
  next
    case (cut fs)
    then have "accounted (limit_of l) mtu (packet # waiting) out"
      using assms(3) l1(1) by (auto intro!: accounted_refragment [OF cut(1,2)] intro: accounted_mono order_trans)
    then show ?thesis using cut assms(2) l1(2) by auto
  qed
qed

lemma send_loop_accounts:
  "send_loop env lease mtu now ps retries l = (None, l') \<Longrightarrow>
    \<exists>out. l_parts l' = l_parts l @ out \<and> accounted (limit_of l) mtu ps out"
proof (induction env lease mtu now ps retries l rule: send_loop.induct)
  case (1 env lease mtu now ps retries l)
  show ?case
  proof (cases ps)
    case Nil
    then show ?thesis using "1.prems" by (simp add: send_loop.simps [of _ _ _ _ "[]"])
  next
    case (Cons packet waiting)
    obtain r l1 where round: "send_round env lease mtu now packet waiting retries l = (r, l1)" by force
    obtain parts retries' where r: "r = Ok (parts, retries')" and rest: "send_loop env lease mtu now parts retries' l1 = (None, l')"
      using "1.prems" Cons round by (auto simp: send_loop.simps [of _ _ _ _ "packet # waiting"] split: sum.splits)
    from "1.IH" [OF Cons round [symmetric] r refl rest]
    show ?thesis using send_round_accounts [OF round [unfolded r]] Cons by auto
  qed
qed


subsection \<open>A path that keeps its capacity\<close>

lemma send_round_steady:
  assumes "\<forall>w. \<not> fst (h_cancelled env w)" and "\<forall>w. fst (h_capacity env w) = Some c" and "\<forall>w p. fst (h_send env w p) = Ok ()"
    and "MIN_IPV4_MTU \<le> c" and "enabled l"
  shows "\<exists>l1. enabled l1 \<and> limit_of l1 = min (limit_of l) c \<and> l_parts l1 = l_parts l \<and>
    send_round env lease mtu now packet waiting retries l =
      (if length packet > limit_of l1 then send_above env lease mtu now (limit_of l1) packet waiting retries l1
       else send_within env packet waiting retries l1)"
proof -
  obtain w where w: "h_cancelled env (l_env l) = (False, w)" using assms(1) by (metis prod.collapse)
  obtain w1 where w1: "h_capacity env w = (Some c, w1)" using assms(2) by (metis prod.collapse)
  obtain l1 where "refresh env (l\<lparr>l_env := w\<rparr>) = (None, l1)" "enabled l1" "limit_of l1 = min (limit_of l) c" "l_parts l1 = l_parts l"
    using assms(4,5) w1 by (cases "limit_of l \<le> c") (auto simp: refresh_def refresh_packet_mtu_def datagram_mtu_update_def Let_def)
  then show ?thesis using w assms(5) by (intro exI [of _ l1]) (simp add: send_round_def)
qed

lemma send_loop_steady:
  assumes env: "\<forall>w. \<not> fst (h_cancelled env w)" "\<forall>w. fst (h_capacity env w) = Some c" "\<forall>w p. fst (h_send env w p) = Ok ()"
    "MIN_IPV4_MTU \<le> c"
  shows "enabled l \<Longrightarrow> list_all (\<lambda>p. length p \<le> min (limit_of l) c) ps \<Longrightarrow>
    \<exists>l'. send_loop env lease mtu now ps retries l = (None, l') \<and> l_parts l' = l_parts l @ map AsDatagram ps"
proof (induction ps arbitrary: l)
  case Nil
  then show ?case by (simp add: send_loop.simps)
next
  case (Cons p ps)
  have fits: "length p \<le> min (limit_of l) c" using Cons.prems(2) by simp
  obtain l1 where l1: "enabled l1" "limit_of l1 = min (limit_of l) c" "l_parts l1 = l_parts l"
    "send_round env lease mtu now p ps retries l = send_within env p ps retries l1"
    using send_round_steady [OF env Cons.prems(1), of lease mtu now p ps retries] fits by (metis leD)
  obtain w where w: "h_send env (l_env l1) p = (Ok (), w)" using env(3) by (metis prod.collapse)
  obtain l2 where l2: "send_within env p ps retries l1 = (Ok (ps, retries), l2)" "enabled l2" "limit_of l2 = limit_of l1"
    "l_parts l2 = l_parts l1 @ [AsDatagram p]"
    using l1(1) w by (simp add: send_within_def)
  have "list_all (\<lambda>p. length p \<le> min (limit_of l2) c) ps" using Cons.prems(2) l1(2) l2(3) by simp
  then obtain l3 where "send_loop env lease mtu now ps retries l2 = (None, l3)" "l_parts l3 = l_parts l2 @ map AsDatagram ps"
    using Cons.IH [OF l2(2)] by blast
  then show ?case using l1 l2 by (simp add: send_loop.simps [of _ _ _ _ "p # ps"])
qed

text \<open>C15: a packet sent over HTTP/3 on a path that keeps its capacity. As long as the session is not
  cancelled and no datagram is refused, \<open>send_downlink\<close> succeeds and sends the packet in datagrams
  only: whole when it fits, otherwise its fragments at the path's limit, in order.\<close>

theorem downlink_on_steady_path:
  assumes "\<forall>w. \<not> fst (h_cancelled env w)" and "\<forall>w. fst (h_capacity env w) = Some c" and "\<forall>w p. fst (h_send env w p) = Ok ()"
    and "MIN_IPV4_MTU \<le> c" and "enabled l" and "fragment_ipv4 packet (min (limit_of l) c) = Ok fragments"
  shows "\<exists>l'. send_downlink env lease mtu now packet l = (None, l') \<and> l_parts l' = l_parts l @ map AsDatagram fragments"
proof (cases "length packet \<le> min (limit_of l) c")
  case True
  then have "fragments = [packet]" using assms(6) by (elim fragment_ipv4_Ok) blast
  then show ?thesis
    using send_loop_steady [OF assms(1-5), of "[packet]"] True by (simp add: send_downlink_def)
next
  case False
  obtain l1 where l1: "enabled l1" "limit_of l1 = min (limit_of l) c" "l_parts l1 = l_parts l"
    "send_round env lease mtu now packet [] 0 l = send_above env lease mtu now (limit_of l1) packet [] 0 l1"
    using send_round_steady [OF assms(1-5), of lease mtu now packet "[]" 0] False by (metis not_le)
  have "send_above env lease mtu now (limit_of l1) packet [] 0 l1 = (Ok (fragments, 0), l_call [MtuFragmented] l1)"
    using assms(6) l1(2) by (simp add: send_above_def)
  moreover have "list_all (\<lambda>p. length p \<le> min (limit_of (l_call [MtuFragmented] l1)) c) fragments"
    using fragments_of_packet [OF assms(6)] l1(2) by (auto simp: list_all_iff fragment_of_def)
  then obtain l' where "send_loop env lease mtu now fragments 0 (l_call [MtuFragmented] l1) = (None, l')"
    "l_parts l' = l_parts l1 @ map AsDatagram fragments"
    using send_loop_steady [OF assms(1-4), of "l_call [MtuFragmented] l1" fragments lease mtu now 0] l1(1) by auto
  ultimately show ?thesis using l1(3,4) by (simp add: send_downlink_def send_loop.simps [of _ _ _ _ "[packet]"])
qed

text \<open>A path of capacity 96, and one that shrinks to 68 with the first datagram it refuses; the state is
  whether it has shrunk.\<close>

definition plain_path :: "(string, bool) h3_environment" where
  "plain_path = \<lparr>h_cancelled = Pair False, h_capacity = Pair (Some 96), h_send = (\<lambda>w p. (Ok (), w)), h_rtt = Pair (millis 20),
     h_identification = Pair 7, h_inject = (\<lambda>w p. (Ok (), w)), h_queue = (\<lambda>w p. (Ok (), w))\<rparr>"

definition shrinking_path :: "(string, bool) h3_environment" where
  "shrinking_path = plain_path\<lparr>h_capacity := \<lambda>w. (Some (if w then 68 else 96), w),
     h_send := \<lambda>w p. if length p > 68 then (Err TooLarge, True) else (Ok (), w)\<rparr>"

definition sample_downlink :: "bool downlink" where
  "sample_downlink =
    \<lparr>l_env = False,
     l_diagnostics = \<lparr>d_selected_mtu = 1280, datagrams_enabled = True, datagrams_disabled_reason = ''none'',
       min_oversize_ip_capacity = None, packet_mtu = \<lparr>mtu_limit = 1280\<rparr>, mtu_reductions = 0, too_large_retries = 0,
       feedback = new_policy,
       d_sends = \<lparr>datagram_queued_packets = 0, datagram_queued_ip_bytes = 0, capsule_submitted_packets = 0,
         capsule_submitted_ip_bytes = 0, oversize_fallback_packets = 0, oversize_fallback_ip_bytes = 0,
         max_oversize_ip_bytes = 0, unavailable_fallback_packets = 0\<rparr>\<rparr>,
     l_calls = [], l_parts = []\<rparr>"


theorem downlink_on_steady_path_witness:
  "\<exists>l' f g. send_downlink plain_path sample_lease 1280 0 sample_packet sample_downlink = (None, l')
    \<and> l_parts l' = [AsDatagram f, AsDatagram g] \<and> fragment_ipv4 sample_packet 96 = Ok [f, g]"
proof -
  have "case fragment_ipv4 sample_packet 96 of Ok [f, g] \<Rightarrow> True | _ \<Rightarrow> False" by code_simp
  then obtain f g where fg: "fragment_ipv4 sample_packet 96 = Ok [f, g]" by (auto split: sum.splits list.splits)
  have "fragment_ipv4 sample_packet (min (limit_of sample_downlink) 96) = Ok [f, g]" "enabled sample_downlink" "MIN_IPV4_MTU \<le> 96"
    "l_parts sample_downlink = []" using fg by (simp_all add: sample_downlink_def MIN_IPV4_MTU_def)
  from downlink_on_steady_path [of plain_path 96 sample_downlink, OF _ _ _ this(3,2,1)] this(4) fg show ?thesis
    by (auto simp: plain_path_def)
qed

end
