(* ===== verification/Registry.thy ===== *)
theory Registry
  imports Device_Auth Live_Sessions
begin

text \<open>
  The registry of accounts and devices (porta-server/src/state/registry.rs): the clients with their
  tokens and enrolled devices, the nonces of recent proofs, the fences of disconnected accounts and
  devices, and the file the clients are kept in. An operation of the code is a sequence of sections,
  each under the lock of the state or between two waits; each section is a definition here, and
  their interleavings are in Registry_Runs.

  The crates are parameters: those of the device proofs, \<open>hex\<close>, \<open>serde_json\<close> with the format of the
  file, and the arithmetic of \<open>OffsetDateTime\<close>, whose values are linearly ordered. A \<open>HashMap\<close> is an
  association list with distinct keys. Tokens and identifiers that the code draws at random are
  arguments. Strings are lists of their UTF-8 bytes as characters.
\<close>

definition REGISTRY_VERSION :: u32 where "REGISTRY_VERSION = 2"
definition MAX_DEVICE_NONCES :: nat where "MAX_DEVICE_NONCES = 2048"
definition FORWARD_PROXY_DEVICE_ID :: string where "FORWARD_PROXY_DEVICE_ID = ''forward-proxy''"
definition FORWARD_PROXY_DEVICE_NAME :: string where "FORWARD_PROXY_DEVICE_NAME = ''Forward proxy''"
definition LAST_SEEN_INTERVAL :: int where "LAST_SEEN_INTERVAL = 60 * 1000000000"
definition MAX_CLOCK_SKEW :: int where "MAX_CLOCK_SKEW = 5 * 60 * 1000000000"

text \<open>The messages of \<open>InvalidInput\<close>, with what is formatted into them.\<close>

datatype invalid_input =
    NoRegistryPath | NoBootstrapToken | InvalidEntry nat invalid_input | BadClientName | BadDeviceLimit
  | LimitBelowDevices nat | BadClientId | BadTokenHash | BadDeviceId string | BadProxyDevice
  | BadDeviceName string | BadPublicKey string | NonCanonicalKey string | KeyMismatch string | TooManyDevices

datatype registry_error =
    Unauthorized | Disabled | DeviceLimit | Draining | RegistryClosed | NotFound | InvalidInput invalid_input
  | UnsupportedVersion u32 | Decode string | RegistryIo string | InvalidDeviceProof | DurabilityFailed string

record 'tm device_record =
  dv_id :: string
  dv_name :: string
  dv_public_key :: string
  dv_first_seen :: 'tm
  dv_last_seen :: 'tm

record 'tm client_record =
  cl_id :: string
  cl_name :: string
  cl_token_hash :: string
  cl_max_devices :: nat
  cl_enabled :: bool
  cl_created_at :: 'tm
  cl_devices :: "'tm device_record list"

record client_identity =
  account_id :: string
  lease_id :: string

record authenticated_session =
  session_identity :: client_identity
  session_device_id :: string
  authenticated_guard :: session_guard

record device_key =
  dk_account :: string
  dk_device :: string

record 'tm nonce_window =
  nw_values :: "(string \<times> 'tm) list"
  nw_next_expiry :: "'tm option"

record 'tm registry =
  clients :: "'tm client_record list"
  token_index :: "(bytes \<times> nat) list"
  nonces :: "(device_key \<times> 'tm nonce_window) list"
  retiring_devices :: "(device_key \<times> nat) list"
  retiring_accounts :: "(string \<times> nat) list"
  account_disconnect :: "(string \<times> u64) list"
  device_disconnect :: "(device_key \<times> u64) list"
  next_persist_sequence :: u64
  metadata_dirty :: bool
  metadata_version :: u64
  persisted_sequence :: u64
  durability_error :: "string option"
  registry_file :: "bytes option"
  detached :: "(u64 \<times> bytes) list"
  sessions :: live_sessions
  disconnect_epoch :: u64
  authentication_epochs :: "(u64 \<times> nat) list"
  registry_closed :: bool

record ('pk, 'sg, 'tm) registry_api =
  proof_api :: "('pk, 'sg, 'tm) crates"
  hex_encode :: "bytes \<Rightarrow> string"
  hex_decode :: "string \<Rightarrow> bytes option"
  hex_decode_slice :: "string \<Rightarrow> bytes"
  t_plus :: "'tm \<Rightarrow> int \<Rightarrow> 'tm"
  t_minus :: "'tm \<Rightarrow> 'tm \<Rightarrow> int"
  t_unix :: "'tm \<Rightarrow> int"
  encode_registry :: "'tm client_record list \<Rightarrow> string + bytes"
  decode_registry :: "bytes \<Rightarrow> string + u32 \<times> 'tm client_record list"

subsection \<open>Tokens\<close>

definition hash_token :: "('pk, 'sg, 'tm) registry_api \<Rightarrow> string \<Rightarrow> string" where
  "hash_token api token = hex_encode api (sha256 (proof_api api) (as_bytes token))"

text \<open>\<open>decode_to_slice\<close> writes into a buffer of 32 zeros and its result is ignored:
  \<open>hex_decode_slice\<close> is the buffer afterwards. The indexing \<open>clients[index]\<close> that follows stays within
  the list, as the invariant of the index shows.\<close>

definition client_index_for_token :: "('pk, 'sg, 'tm) registry_api \<Rightarrow> 'tm registry \<Rightarrow> string \<Rightarrow> registry_error + nat" where
  "client_index_for_token api r token =
    (let digest = sha256 (proof_api api) (as_bytes token);
         index = map_of (token_index r) digest;
         indexed_digest = (case index of
             None \<Rightarrow> replicate 32 0
           | Some i \<Rightarrow> if i < length (clients r) then hex_decode_slice api (cl_token_hash (clients r ! i)) else replicate 32 0)
     in case index of
          None \<Rightarrow> Err Unauthorized
        | Some i \<Rightarrow>
            if indexed_digest \<noteq> digest then Err Unauthorized
            else if \<not> cl_enabled (clients r ! i) then Err Disabled
            else Ok i)"

definition client_for_token :: "('pk, 'sg, 'tm) registry_api \<Rightarrow> 'tm registry \<Rightarrow> string \<Rightarrow> registry_error + 'tm client_record" where
  "client_for_token api r token = rbind (client_index_for_token api r token) (\<lambda>i. Ok (clients r ! i))"

fun index_tokens :: "('pk, 'sg, 'tm) registry_api \<Rightarrow> nat \<Rightarrow> 'tm client_record list \<Rightarrow> (bytes \<times> nat) list \<Rightarrow> (bytes \<times> nat) list" where
  "index_tokens api i [] index = index"
| "index_tokens api i (c # cs) index =
    index_tokens api (i + 1) cs
      (case hex_decode api (cl_token_hash c) of
         None \<Rightarrow> index
       | Some digest \<Rightarrow> if length digest = 32 \<and> map_of index digest = None then (digest, i) # index else index)"

definition rebuild_token_index :: "('pk, 'sg, 'tm) registry_api \<Rightarrow> 'tm registry \<Rightarrow> 'tm registry" where
  "rebuild_token_index api r = r\<lparr>token_index := index_tokens api 0 (clients r) []\<rparr>"

definition registry_identity :: "('pk, 'sg, 'tm) registry_api \<Rightarrow> string \<Rightarrow> string \<Rightarrow> client_identity" where
  "registry_identity api account device =
    \<lparr>account_id = account,
     lease_id = ''device-'' @ hex_encode api (take 16 (sha256 (proof_api api) (as_bytes account @ [0] @ as_bytes device)))\<rparr>"

definition elapsed_at_least :: "('pk, 'sg, 'tm) registry_api \<Rightarrow> 'tm \<Rightarrow> 'tm \<Rightarrow> int \<Rightarrow> bool" where
  "elapsed_at_least api at now duration \<longleftrightarrow> t_minus api now at \<ge> duration"

subsection \<open>Nonces\<close>

definition nonce_refused :: "string \<Rightarrow> 'tm nonce_window \<Rightarrow> bool" where
  "nonce_refused nonce w \<longleftrightarrow> map_of (nw_values w) nonce \<noteq> None \<or> length (nw_values w) \<ge> MAX_DEVICE_NONCES"

definition nonce_seen ::
  "('pk, 'sg, 'tm :: linorder) registry_api \<Rightarrow> device_key \<Rightarrow> string \<Rightarrow> 'tm \<Rightarrow> 'tm \<Rightarrow> 'tm registry \<Rightarrow> bool \<times> 'tm registry" where
  "nonce_seen api key nonce signed_time now r =
    (if t_plus api signed_time MAX_CLOCK_SKEW < now then (True, r)
     else case map_of (nonces r) key of
       None \<Rightarrow> (False, r)
     | Some w \<Rightarrow>
         if (case nw_next_expiry w of None \<Rightarrow> True | Some expiry \<Rightarrow> expiry \<le> now) then
           (let values = filter (\<lambda>(_, expiry). expiry > now) (nw_values w) in
            if values = [] then (False, r\<lparr>nonces := AList.delete key (nonces r)\<rparr>)
            else let w = \<lparr>nw_values = values, nw_next_expiry = Some (Min (set (map snd values)))\<rparr>
                 in (nonce_refused nonce w, r\<lparr>nonces := AList.update key w (nonces r)\<rparr>))
         else (nonce_refused nonce w, r))"

definition remember_nonce ::
  "('pk, 'sg, 'tm :: linorder) registry_api \<Rightarrow> device_key \<Rightarrow> string \<Rightarrow> 'tm \<Rightarrow> 'tm registry \<Rightarrow> 'tm registry" where
  "remember_nonce api key nonce signed_time r =
    (let expiry = t_plus api signed_time MAX_CLOCK_SKEW;
         w = (case map_of (nonces r) key of None \<Rightarrow> \<lparr>nw_values = [], nw_next_expiry = None\<rparr> | Some w \<Rightarrow> w)
     in r\<lparr>nonces := AList.update key
           \<lparr>nw_values = AList.update nonce expiry (nw_values w),
            nw_next_expiry = Some (case nw_next_expiry w of None \<Rightarrow> expiry | Some current \<Rightarrow> min current expiry)\<rparr> (nonces r)\<rparr>)"

subsection \<open>Fences\<close>

datatype drain_target = AccountTarget string | DeviceTarget device_key

definition begin_authentication :: "'tm registry \<Rightarrow> u64 \<times> 'tm registry" where
  "begin_authentication r =
    (let epoch = disconnect_epoch r;
         count = (case map_of (authentication_epochs r) epoch of None \<Rightarrow> 0 | Some n \<Rightarrow> n)
     in (epoch, r\<lparr>authentication_epochs := AList.update epoch (count + 1) (authentication_epochs r)\<rparr>))"

definition decrement :: "('k \<times> nat) list \<Rightarrow> 'k \<Rightarrow> ('k \<times> nat) list" where
  "decrement counts key =
    (case map_of counts key of
       None \<Rightarrow> counts
     | Some n \<Rightarrow> if n - 1 = 0 then AList.delete key counts else AList.update key (n - 1) counts)"

definition prune_disconnects :: "(u64 \<times> nat) list \<Rightarrow> u64 \<Rightarrow> 'tm registry \<Rightarrow> 'tm registry" where
  "prune_disconnects epochs current_epoch r =
    (let oldest = (if epochs = [] then current_epoch else Min (set (map fst epochs)))
     in r\<lparr>account_disconnect := filter (\<lambda>(_, epoch). epoch > oldest) (account_disconnect r),
          device_disconnect := filter (\<lambda>(_, epoch). epoch > oldest) (device_disconnect r)\<rparr>)"

definition drop_attempt :: "u64 \<Rightarrow> 'tm registry \<Rightarrow> 'tm registry" where
  "drop_attempt epoch r =
    (let epochs = decrement (authentication_epochs r) epoch
     in prune_disconnects epochs (disconnect_epoch r) (r\<lparr>authentication_epochs := epochs\<rparr>))"

definition above :: "('k \<times> u64) list \<Rightarrow> 'k \<Rightarrow> u64 \<Rightarrow> bool" where
  "above epochs key limit \<longleftrightarrow> (case map_of epochs key of None \<Rightarrow> False | Some epoch \<Rightarrow> epoch > limit)"

definition counted :: "('k \<times> nat) list \<Rightarrow> 'k \<Rightarrow> bool" where
  "counted counts key \<longleftrightarrow> (case map_of counts key of None \<Rightarrow> False | Some n \<Rightarrow> n > 0)"

definition authentication_blocked :: "'tm registry \<Rightarrow> string \<Rightarrow> device_key \<Rightarrow> u64 \<Rightarrow> bool" where
  "authentication_blocked r account key attempt_epoch \<longleftrightarrow>
    counted (retiring_accounts r) account \<or> counted (retiring_devices r) key
    \<or> above (account_disconnect r) account attempt_epoch \<or> above (device_disconnect r) key attempt_epoch"

definition increment_count :: "'k \<Rightarrow> ('k \<times> nat) list \<Rightarrow> ('k \<times> nat) list" where
  "increment_count key counts = AList.update key ((case map_of counts key of None \<Rightarrow> 0 | Some n \<Rightarrow> n) + 1) counts"

fun begin_target_drain :: "drain_target \<Rightarrow> 'tm registry \<Rightarrow> 'tm registry" where
  "begin_target_drain (AccountTarget account) r =
    (let epoch = disconnect_epoch r + 1
     in r\<lparr>disconnect_epoch := epoch, account_disconnect := AList.update account epoch (account_disconnect r),
          retiring_accounts := increment_count account (retiring_accounts r)\<rparr>)"
| "begin_target_drain (DeviceTarget key) r =
    (let epoch = disconnect_epoch r + 1
     in r\<lparr>disconnect_epoch := epoch, device_disconnect := AList.update key epoch (device_disconnect r),
          retiring_devices := increment_count key (retiring_devices r)\<rparr>)"

definition finish_drain :: "drain_target \<Rightarrow> 'tm registry \<Rightarrow> 'tm registry" where
  "finish_drain target r =
    (let epoch = disconnect_epoch r + 1;
         r = r\<lparr>disconnect_epoch := epoch\<rparr>;
         r = (case target of
             AccountTarget account \<Rightarrow>
               r\<lparr>account_disconnect := AList.update account epoch (account_disconnect r),
                 retiring_accounts := decrement (retiring_accounts r) account\<rparr>
           | DeviceTarget key \<Rightarrow>
               r\<lparr>device_disconnect := AList.update key epoch (device_disconnect r),
                 retiring_devices := decrement (retiring_devices r) key\<rparr>)
     in prune_disconnects (authentication_epochs r) epoch r)"

definition target_account :: "drain_target \<Rightarrow> string" where
  "target_account target = (case target of AccountTarget account \<Rightarrow> account | DeviceTarget key \<Rightarrow> dk_account key)"

definition target_device :: "drain_target \<Rightarrow> string option" where
  "target_device target = (case target of AccountTarget account \<Rightarrow> None | DeviceTarget key \<Rightarrow> Some (dk_device key))"

text \<open>\<open>cancel_account\<close> and \<open>cancel_device\<close> of the live sessions, up to the wait.\<close>

definition cancel_target :: "drain_target \<Rightarrow> 'tm registry \<Rightarrow> nat list \<times> 'tm registry" where
  "cancel_target target r =
    (case begin_drain (target_account target) (target_device target) (sessions r) of
       (waiting, s) \<Rightarrow> (waiting, r\<lparr>sessions := s\<rparr>))"

subsection \<open>The file\<close>

text \<open>The replies of the file system to the calls of an atomic write, in their order. The content of the
  file changes at the rename.\<close>

record registry_fs =
  rf_create_dir :: "string + unit"
  rf_open :: "string + unit"
  rf_write :: "string + unit"
  rf_sync :: "string + unit"
  rf_rename :: "string + unit"
  rf_sync_dir :: "string + unit"

definition atomic_write_registry :: "registry_fs \<Rightarrow> bytes \<Rightarrow> bytes option \<Rightarrow> (string + string option) \<times> bytes option" where
  "atomic_write_registry fs data disk =
    (case rbind (rf_create_dir fs) (\<lambda>_. rbind (rf_open fs) (\<lambda>_. rbind (rf_write fs) (\<lambda>_. rbind (rf_sync fs) (\<lambda>_. rf_rename fs)))) of
       Err e \<Rightarrow> (Err e, disk)
     | Ok _ \<Rightarrow> (Ok (case rf_sync_dir fs of Err e \<Rightarrow> Some e | Ok _ \<Rightarrow> None), Some data))"

text \<open>\<open>persist_clients\<close> numbers the write and hands it to a task of its own, for which it waits. A task whose
  operation has been given up is \<open>detached\<close> and still runs at some time, after it gets the lock on the
  persistence state; a task that is older than what has been written does nothing.\<close>

definition persist_task :: "registry_fs \<Rightarrow> u64 \<Rightarrow> bytes \<Rightarrow> 'tm registry \<Rightarrow> (registry_error + unit) \<times> 'tm registry" where
  "persist_task fs sequence data r =
    (if sequence \<le> persisted_sequence r then (Ok (), r)
     else (case atomic_write_registry fs data (registry_file r) of
             (Err e, disk) \<Rightarrow> (Err (RegistryIo e), r\<lparr>registry_file := disk\<rparr>)
           | (Ok outcome, disk) \<Rightarrow>
               (Ok (), r\<lparr>registry_file := disk, persisted_sequence := sequence, durability_error := outcome\<rparr>)))"

definition persist_clients ::
  "('pk, 'sg, 'tm) registry_api \<Rightarrow> registry_fs \<Rightarrow> 'tm client_record list \<Rightarrow> 'tm registry \<Rightarrow> (registry_error + unit) \<times> 'tm registry" where
  "persist_clients api fs candidate r =
    (let sequence = next_persist_sequence r + 1;
         r = r\<lparr>next_persist_sequence := sequence\<rparr>
     in case encode_registry api candidate of
          Err e \<Rightarrow> (Err (Decode e), r)
        | Ok json \<Rightarrow> persist_task fs sequence (json @ [0x0A]) r)"

definition detach_write :: "('pk, 'sg, 'tm) registry_api \<Rightarrow> 'tm client_record list \<Rightarrow> 'tm registry \<Rightarrow> 'tm registry" where
  "detach_write api candidate r =
    (let sequence = next_persist_sequence r + 1;
         r = r\<lparr>next_persist_sequence := sequence\<rparr>
     in case encode_registry api candidate of
          Err _ \<Rightarrow> r
        | Ok json \<Rightarrow> r\<lparr>detached := detached r @ [(sequence, json @ [0x0A])]\<rparr>)"

definition run_detached :: "registry_fs \<Rightarrow> nat \<Rightarrow> 'tm registry \<Rightarrow> 'tm registry" where
  "run_detached fs n r =
    (if n < length (detached r)
     then (snd (persist_task fs (fst (detached r ! n)) (snd (detached r ! n)) r))\<lparr>detached := remove_nth n (detached r)\<rparr>
     else r)"

definition retry_durability_sync :: "string + unit \<Rightarrow> 'tm registry \<Rightarrow> (registry_error + unit) \<times> 'tm registry" where
  "retry_durability_sync reply r =
    (case durability_error r of
       None \<Rightarrow> (Ok (), r)
     | Some previous \<Rightarrow>
         (case reply of
            Ok _ \<Rightarrow> (Ok (), r\<lparr>durability_error := None\<rparr>)
          | Err e \<Rightarrow> (Err (DurabilityFailed (previous @ ''; retry: '' @ e)), r)))"

subsection \<open>Authentication of a device\<close>

definition ensure_open :: "'tm registry \<Rightarrow> registry_error + unit" where
  "ensure_open r = (if registry_closed r then Err RegistryClosed else Ok ())"

definition admit_session ::
  "('pk, 'sg, 'tm) registry_api \<Rightarrow> string \<Rightarrow> string \<Rightarrow> 'tm registry \<Rightarrow> authenticated_session \<times> 'tm registry" where
  "admit_session api account device r =
    (case register_session account device (sessions r) of
       (guard, s) \<Rightarrow>
         (\<lparr>session_identity = registry_identity api account device, session_device_id = device, authenticated_guard = guard\<rparr>,
          r\<lparr>sessions := s\<rparr>))"

text \<open>The first lock of \<open>authenticate_device_session\<close> and the verification of the proof.\<close>

definition check_device ::
  "('pk, 'sg, 'tm) registry_api \<Rightarrow> string \<Rightarrow> device_proof \<Rightarrow> string \<Rightarrow> string \<Rightarrow> 'tm \<Rightarrow> 'tm registry
    \<Rightarrow> registry_error + 'tm verified_proof" where
  "check_device api token p method path now r =
    rbind (client_for_token api r token) (\<lambda>_.
      map_err (\<lambda>_. Unauthorized) (verify (proof_api api) p token method path (t_unix api now)))"

abbreviation canonical_key :: "('pk, 'sg, 'tm) registry_api \<Rightarrow> 'tm verified_proof \<Rightarrow> string" where
  "canonical_key api v \<equiv> b64_encode (proof_api api) (encoded_public_key v)"

text \<open>The checks with which both sections of \<open>authenticate_device_session\<close> begin: the token, the fences and
  the nonce.\<close>

abbreviation device_key_of :: "'tm client_record \<Rightarrow> device_proof \<Rightarrow> device_key" where
  "device_key_of client p \<equiv> \<lparr>dk_account = cl_id client, dk_device = device_id_of p\<rparr>"

definition device_gate ::
  "('pk, 'sg, 'tm :: linorder) registry_api \<Rightarrow> string \<Rightarrow> device_proof \<Rightarrow> 'tm verified_proof \<Rightarrow> 'tm \<Rightarrow> u64 \<Rightarrow> 'tm registry
    \<Rightarrow> (registry_error + nat) \<times> 'tm registry" where
  "device_gate api token p v now epoch r =
    (case rbind (ensure_open r) (\<lambda>_. client_index_for_token api r token) of
       Err e \<Rightarrow> (Err e, r)
     | Ok i \<Rightarrow>
         if authentication_blocked r (cl_id (clients r ! i)) (device_key_of (clients r ! i) p) epoch then (Err Draining, r)
         else (case nonce_seen api (device_key_of (clients r ! i) p) (nonce_of p) (signed_at v) now r of
                 (True, r) \<Rightarrow> (Err Unauthorized, r)
               | (False, r) \<Rightarrow> (Ok i, r)))"

text \<open>A session of the device: its nonce is remembered.\<close>

definition admit_device ::
  "('pk, 'sg, 'tm :: linorder) registry_api \<Rightarrow> string \<Rightarrow> device_proof \<Rightarrow> 'tm verified_proof \<Rightarrow> 'tm registry
    \<Rightarrow> authenticated_session \<times> 'tm registry" where
  "admit_device api account p v r =
    admit_session api account (device_id_of p)
      (remember_nonce api \<lparr>dk_account = account, dk_device = device_id_of p\<rparr> (nonce_of p) (signed_at v) r)"

text \<open>The fast path: a device that is enrolled under this name and was seen within the last minute is
  admitted under the one lock. Otherwise the authentication goes on.\<close>

definition fast_device ::
  "('pk, 'sg, 'tm :: linorder) registry_api \<Rightarrow> string \<Rightarrow> device_proof \<Rightarrow> 'tm verified_proof \<Rightarrow> 'tm \<Rightarrow> u64 \<Rightarrow> 'tm registry
    \<Rightarrow> (registry_error + authenticated_session option) \<times> 'tm registry" where
  "fast_device api token p v now epoch r =
    (case device_gate api token p v now epoch r of
       (Err e, r) \<Rightarrow> (Err e, r)
     | (Ok i, r) \<Rightarrow>
         (case find (\<lambda>d. dv_id d = device_id_of p) (cl_devices (clients r ! i)) of
            None \<Rightarrow> (Ok None, r)
          | Some d \<Rightarrow>
              if dv_public_key d \<noteq> canonical_key api v then (Err Unauthorized, r)
              else if dv_name d = name_of p \<and> \<not> elapsed_at_least api (dv_last_seen d) now LAST_SEEN_INTERVAL then
                (case admit_device api (cl_id (clients r ! i)) p v r of (s, r) \<Rightarrow> (Ok (Some s), r))
              else (Ok None, r)))"

text \<open>The section after the lock on mutations has been taken: admission of a device that meanwhile needs
  no change, or a candidate for the new list of clients.\<close>

record 'tm enrolment =
  en_account :: string
  en_candidate :: "'tm client_record list"
  en_existing :: "nat option"
  en_new :: bool

definition slow_device ::
  "('pk, 'sg, 'tm :: linorder) registry_api \<Rightarrow> string \<Rightarrow> device_proof \<Rightarrow> 'tm verified_proof \<Rightarrow> 'tm \<Rightarrow> u64 \<Rightarrow> 'tm registry
    \<Rightarrow> (registry_error + (authenticated_session + 'tm enrolment)) \<times> 'tm registry" where
  "slow_device api token p v now epoch r =
    (case device_gate api token p v now epoch r of
       (Err e, r) \<Rightarrow> (Err e, r)
     | (Ok i, r) \<Rightarrow>
         let client = clients r ! i; devices = cl_devices client in
         (case position (\<lambda>d. dv_id d = device_id_of p) devices of
            Some j \<Rightarrow>
              let d = devices ! j in
              if dv_public_key d \<noteq> canonical_key api v then (Err Unauthorized, r)
              else if \<not> (dv_name d \<noteq> name_of p \<or> elapsed_at_least api (dv_last_seen d) now LAST_SEEN_INTERVAL) then
                (case admit_device api (cl_id client) p v r of (s, r) \<Rightarrow> (Ok (Inl s), r))
              else
                (Ok (Inr \<lparr>en_account = cl_id client,
                   en_candidate = (clients r)[i := client\<lparr>cl_devices := devices[j := d\<lparr>dv_name := name_of p, dv_last_seen := now\<rparr>]\<rparr>],
                   en_existing = Some j, en_new = False\<rparr>), r)
          | None \<Rightarrow>
              if length devices \<ge> cl_max_devices client then (Err DeviceLimit, r)
              else
                (Ok (Inr \<lparr>en_account = cl_id client,
                   en_candidate = (clients r)[i := client\<lparr>cl_devices := devices @
                     [\<lparr>dv_id = device_id_of p, dv_name = name_of p, dv_public_key = canonical_key api v,
                       dv_first_seen = now, dv_last_seen = now\<rparr>]\<rparr>],
                   en_existing = None, en_new = True\<rparr>), r)))"

text \<open>\<open>iter_mut().find\<close> followed by an assignment changes the first element that is found.\<close>

fun update_first :: "('a \<Rightarrow> bool) \<Rightarrow> ('a \<Rightarrow> 'a) \<Rightarrow> 'a list \<Rightarrow> 'a list" where
  "update_first found f [] = []"
| "update_first found f (x # xs) = (if found x then f x # xs else x # update_first found f xs)"

abbreviation has_id :: "string \<Rightarrow> 'tm client_record \<Rightarrow> bool" where
  "has_id i c \<equiv> cl_id c = i"

definition last_device :: "string \<Rightarrow> 'tm client_record list \<Rightarrow> 'tm device_record option" where
  "last_device account candidate =
    Option.bind (find (has_id account) candidate) (\<lambda>c. if cl_devices c = [] then None else Some (List.last (cl_devices c)))"

definition device_at :: "string \<Rightarrow> nat \<Rightarrow> 'tm client_record list \<Rightarrow> 'tm device_record option" where
  "device_at account j candidate =
    Option.bind (find (has_id account) candidate) (\<lambda>c. if j < length (cl_devices c) then Some (cl_devices c ! j) else None)"

abbreviation with_devices :: "('tm device_record list \<Rightarrow> 'tm device_record list) \<Rightarrow> 'tm client_record \<Rightarrow> 'tm client_record" where
  "with_devices f c \<equiv> c\<lparr>cl_devices := f (cl_devices c)\<rparr>"

text \<open>The change of the clients in memory once the candidate has been written.\<close>

definition enrol_device :: "device_proof \<Rightarrow> 'tm enrolment \<Rightarrow> 'tm client_record list \<Rightarrow> registry_error + 'tm client_record list" where
  "enrol_device p en cs =
    (case find (has_id (en_account en)) cs of
       None \<Rightarrow> Err Unauthorized
     | Some client \<Rightarrow>
         if en_new en then
           (if length (cl_devices client) \<ge> cl_max_devices client then Err DeviceLimit
            else rbind (ok_or InvalidDeviceProof (last_device (en_account en) (en_candidate en))) (\<lambda>d.
              Ok (update_first (has_id (en_account en)) (with_devices (\<lambda>ds. ds @ [d])) cs)))
         else (case en_existing en of
             None \<Rightarrow> Ok cs
           | Some j \<Rightarrow>
               rbind (ok_or InvalidDeviceProof (device_at (en_account en) j (en_candidate en))) (\<lambda>persisted.
                 if find (\<lambda>d. dv_id d = device_id_of p) (cl_devices client) = None then Err Unauthorized
                 else Ok (update_first (has_id (en_account en))
                   (with_devices (update_first (\<lambda>d. dv_id d = device_id_of p)
                     (\<lambda>d. d\<lparr>dv_name := dv_name persisted, dv_last_seen := dv_last_seen persisted\<rparr>))) cs))))"

definition commit_device ::
  "('pk, 'sg, 'tm :: linorder) registry_api \<Rightarrow> device_proof \<Rightarrow> 'tm verified_proof \<Rightarrow> 'tm enrolment \<Rightarrow> 'tm registry
    \<Rightarrow> (registry_error + authenticated_session) \<times> 'tm registry" where
  "commit_device api p v en r =
    (case enrol_device p en (clients r) of
       Err e \<Rightarrow> (Err e, r)
     | Ok cs \<Rightarrow>
         (case admit_device api (en_account en) p v (r\<lparr>clients := cs\<rparr>) of (s, r) \<Rightarrow> (Ok s, r)))"

subsection \<open>Authentication of the forward proxy\<close>

abbreviation proxy_key :: "string \<Rightarrow> device_key" where
  "proxy_key account \<equiv> \<lparr>dk_account = account, dk_device = FORWARD_PROXY_DEVICE_ID\<rparr>"

abbreviation is_proxy :: "'tm device_record \<Rightarrow> bool" where
  "is_proxy d \<equiv> dv_id d = FORWARD_PROXY_DEVICE_ID"

definition fast_proxy ::
  "('pk, 'sg, 'tm) registry_api \<Rightarrow> string \<Rightarrow> 'tm \<Rightarrow> u64 \<Rightarrow> 'tm registry
    \<Rightarrow> (registry_error + authenticated_session option) \<times> 'tm registry" where
  "fast_proxy api token now epoch r =
    (case rbind (ensure_open r) (\<lambda>_. client_index_for_token api r token) of
       Err e \<Rightarrow> (Err e, r)
     | Ok i \<Rightarrow>
         let client = clients r ! i; account = cl_id client in
         if authentication_blocked r account (proxy_key account) epoch then (Err Draining, r)
         else (case find is_proxy (cl_devices client) of
                 None \<Rightarrow> (Ok None, r)
               | Some d \<Rightarrow>
                   let r = (if elapsed_at_least api (dv_last_seen d) now LAST_SEEN_INTERVAL
                       then r\<lparr>clients := (clients r)[i := with_devices (update_first is_proxy (\<lambda>d. d\<lparr>dv_last_seen := now\<rparr>)) client],
                              metadata_dirty := True, metadata_version := metadata_version r + 1\<rparr>
                       else r)
                   in (case admit_session api account FORWARD_PROXY_DEVICE_ID r of (s, r) \<Rightarrow> (Ok (Some s), r))))"

definition slow_proxy ::
  "('pk, 'sg, 'tm) registry_api \<Rightarrow> string \<Rightarrow> 'tm \<Rightarrow> u64 \<Rightarrow> 'tm registry
    \<Rightarrow> (registry_error + (authenticated_session + string \<times> 'tm client_record list)) \<times> 'tm registry" where
  "slow_proxy api token now epoch r =
    (case rbind (ensure_open r) (\<lambda>_. client_index_for_token api r token) of
       Err e \<Rightarrow> (Err e, r)
     | Ok i \<Rightarrow>
         let client = clients r ! i; account = cl_id client in
         if authentication_blocked r account (proxy_key account) epoch then (Err Draining, r)
         else (case find is_proxy (cl_devices client) of
                 Some _ \<Rightarrow> (case admit_session api account FORWARD_PROXY_DEVICE_ID r of (s, r) \<Rightarrow> (Ok (Inl s), r))
               | None \<Rightarrow>
                   if length (cl_devices client) \<ge> cl_max_devices client then (Err DeviceLimit, r)
                   else (Ok (Inr (account, (clients r)[i := with_devices (\<lambda>ds. ds @
                     [\<lparr>dv_id = FORWARD_PROXY_DEVICE_ID, dv_name = FORWARD_PROXY_DEVICE_NAME, dv_public_key = [],
                       dv_first_seen = now, dv_last_seen = now\<rparr>]) client])), r)))"

definition enrol_proxy :: "string \<Rightarrow> 'tm client_record list \<Rightarrow> 'tm client_record list \<Rightarrow> registry_error + 'tm client_record list" where
  "enrol_proxy account candidate cs =
    (case find (has_id account) cs of
       None \<Rightarrow> Err Unauthorized
     | Some client \<Rightarrow>
         if list_ex is_proxy (cl_devices client) then Ok cs
         else rbind (ok_or Unauthorized (last_device account candidate)) (\<lambda>d.
           Ok (update_first (has_id account) (with_devices (\<lambda>ds. ds @ [d])) cs)))"

definition commit_proxy ::
  "('pk, 'sg, 'tm) registry_api \<Rightarrow> string \<Rightarrow> 'tm client_record list \<Rightarrow> 'tm registry
    \<Rightarrow> (registry_error + authenticated_session) \<times> 'tm registry" where
  "commit_proxy api account candidate r =
    (case enrol_proxy account candidate (clients r) of
       Err e \<Rightarrow> (Err e, r)
     | Ok cs \<Rightarrow> (case admit_session api account FORWARD_PROXY_DEVICE_ID (r\<lparr>clients := cs\<rparr>) of (s, r) \<Rightarrow> (Ok s, r)))"

subsection \<open>Changes by an administrator\<close>

definition validate_client_input :: "string \<Rightarrow> nat \<Rightarrow> registry_error + string" where
  "validate_client_input name max_devices =
    (let name = str_trim name in
     if name = [] \<or> length name > 80 then Err (InvalidInput BadClientName)
     else if \<not> (1 \<le> max_devices \<and> max_devices \<le> 100) then Err (InvalidInput BadDeviceLimit)
     else Ok name)"

text \<open>What an operation decides before it writes: the change to be made, and the candidate. The index that
  \<open>delete\<close> and \<open>retire_device\<close> remember is checked again when the change is made.\<close>

datatype 'tm change =
    CreateClient "'tm client_record"
  | UpdateClient string string nat bool
  | RotateToken string string
  | DeleteClient string nat
  | RetireDevice string string nat

definition create_client ::
  "('pk, 'sg, 'tm) registry_api \<Rightarrow> string \<Rightarrow> nat \<Rightarrow> string \<Rightarrow> string \<Rightarrow> 'tm \<Rightarrow> 'tm registry
    \<Rightarrow> registry_error + 'tm change \<times> 'tm client_record list" where
  "create_client api name max_devices token i now r =
    rbind (ensure_open r) (\<lambda>_.
    rbind (validate_client_input name max_devices) (\<lambda>name.
      let client = \<lparr>cl_id = i, cl_name = name, cl_token_hash = hash_token api token, cl_max_devices = max_devices,
        cl_enabled = True, cl_created_at = now, cl_devices = []\<rparr>
      in Ok (CreateClient client, clients r @ [client])))"

definition update_client ::
  "string \<Rightarrow> string \<Rightarrow> nat \<Rightarrow> bool \<Rightarrow> 'tm registry \<Rightarrow> registry_error + 'tm change \<times> 'tm client_record list" where
  "update_client i name max_devices enabled r =
    rbind (ensure_open r) (\<lambda>_.
    rbind (validate_client_input name max_devices) (\<lambda>name.
    rbind (ok_or NotFound (find (has_id i) (clients r))) (\<lambda>client.
      if max_devices < length (cl_devices client)
      then Err (InvalidInput (LimitBelowDevices (length (cl_devices client))))
      else Ok (UpdateClient i name max_devices enabled,
        update_first (has_id i) (\<lambda>c. c\<lparr>cl_name := name, cl_max_devices := max_devices, cl_enabled := enabled\<rparr>) (clients r)))))"

definition rotate_token ::
  "('pk, 'sg, 'tm) registry_api \<Rightarrow> string \<Rightarrow> string \<Rightarrow> 'tm registry \<Rightarrow> registry_error + 'tm change \<times> 'tm client_record list" where
  "rotate_token api i token r =
    rbind (ensure_open r) (\<lambda>_.
      if \<not> list_ex (has_id i) (clients r) then Err NotFound
      else Ok (RotateToken i (hash_token api token),
        update_first (has_id i) (\<lambda>c. c\<lparr>cl_token_hash := hash_token api token\<rparr>) (clients r)))"

definition delete_client :: "string \<Rightarrow> 'tm registry \<Rightarrow> registry_error + 'tm change \<times> 'tm client_record list" where
  "delete_client i r =
    rbind (ensure_open r) (\<lambda>_.
    rbind (ok_or NotFound (position (has_id i) (clients r))) (\<lambda>index.
      Ok (DeleteClient i index, remove_nth index (clients r))))"

definition retire_device :: "string \<Rightarrow> string \<Rightarrow> 'tm registry \<Rightarrow> registry_error + 'tm change \<times> 'tm client_record list" where
  "retire_device account device r =
    rbind (ensure_open r) (\<lambda>_.
    rbind (ok_or NotFound (find (has_id account) (clients r))) (\<lambda>client.
    rbind (ok_or NotFound (position (\<lambda>d. dv_id d = device) (cl_devices client))) (\<lambda>index.
      Ok (RetireDevice account device index, update_first (has_id account) (with_devices (remove_nth index)) (clients r)))))"

definition check_disconnect :: "string \<Rightarrow> string option \<Rightarrow> 'tm registry \<Rightarrow> registry_error + drain_target" where
  "check_disconnect account device r =
    rbind (ensure_open r) (\<lambda>_.
    rbind (ok_or NotFound (find (has_id account) (clients r))) (\<lambda>client.
      case device of
        None \<Rightarrow> Ok (AccountTarget account)
      | Some d \<Rightarrow> if list_ex (\<lambda>x. dv_id x = d) (cl_devices client)
                   then Ok (DeviceTarget \<lparr>dk_account = account, dk_device = d\<rparr>) else Err NotFound))"

text \<open>The change of the clients in memory once the candidate has been written.\<close>

definition commit_update :: "string \<Rightarrow> string \<Rightarrow> nat \<Rightarrow> bool \<Rightarrow> 'tm registry \<Rightarrow> (registry_error + unit) \<times> 'tm registry" where
  [simp]: "commit_update i name max_devices enabled r =
    (if \<not> list_ex (has_id i) (clients r) then (Err NotFound, r)
     else (Ok (), r\<lparr>clients := update_first (has_id i)
       (\<lambda>c. c\<lparr>cl_name := name, cl_max_devices := max_devices, cl_enabled := enabled\<rparr>) (clients r)\<rparr>))"

definition commit_rotation ::
  "('pk, 'sg, 'tm) registry_api \<Rightarrow> string \<Rightarrow> string \<Rightarrow> 'tm registry \<Rightarrow> (registry_error + unit) \<times> 'tm registry" where
  [simp]: "commit_rotation api i new_hash r =
    (if \<not> list_ex (has_id i) (clients r) then (Err NotFound, r)
     else (Ok (), rebuild_token_index api (r\<lparr>clients := update_first (has_id i) (\<lambda>c. c\<lparr>cl_token_hash := new_hash\<rparr>) (clients r)\<rparr>)))"

definition commit_deletion ::
  "('pk, 'sg, 'tm) registry_api \<Rightarrow> string \<Rightarrow> nat \<Rightarrow> 'tm registry \<Rightarrow> (registry_error + unit) \<times> 'tm registry" where
  [simp]: "commit_deletion api i index r =
    (if index < length (clients r) \<and> cl_id (clients r ! index) = i
     then (Ok (), rebuild_token_index api (r\<lparr>clients := remove_nth index (clients r)\<rparr>))
     else (Err NotFound, r))"

definition commit_retirement :: "string \<Rightarrow> string \<Rightarrow> nat \<Rightarrow> 'tm registry \<Rightarrow> (registry_error + unit) \<times> 'tm registry" where
  [simp]: "commit_retirement account device index r =
    (case find (has_id account) (clients r) of
       None \<Rightarrow> (Err NotFound, r)
     | Some client \<Rightarrow>
         if index < length (cl_devices client) \<and> dv_id (cl_devices client ! index) = device
         then (Ok (), r\<lparr>clients := update_first (has_id account) (with_devices (remove_nth index)) (clients r)\<rparr>)
         else (Err NotFound, r))"

fun apply_change :: "('pk, 'sg, 'tm) registry_api \<Rightarrow> 'tm change \<Rightarrow> 'tm registry \<Rightarrow> (registry_error + unit) \<times> 'tm registry" where
  "apply_change api (CreateClient client) r = (Ok (), rebuild_token_index api (r\<lparr>clients := clients r @ [client]\<rparr>))"
| "apply_change api (UpdateClient i name max_devices enabled) r = commit_update i name max_devices enabled r"
| "apply_change api (RotateToken i new_hash) r = commit_rotation api i new_hash r"
| "apply_change api (DeleteClient i index) r = commit_deletion api i index r"
| "apply_change api (RetireDevice account device index) r = commit_retirement account device index r"

definition forget_nonces :: "drain_target \<Rightarrow> 'tm registry \<Rightarrow> 'tm registry" where
  "forget_nonces target r =
    (case target of
       AccountTarget account \<Rightarrow> r\<lparr>nonces := filter (\<lambda>(key, _). dk_account key \<noteq> account) (nonces r)\<rparr>
     | DeviceTarget key \<Rightarrow> r\<lparr>nonces := AList.delete key (nonces r)\<rparr>)"

text \<open>The metadata worker: what it writes, and the mark that it has been written.\<close>

definition flush_candidate :: "'tm registry \<Rightarrow> (u64 \<times> 'tm client_record list) option" where
  "flush_candidate r = (if \<not> metadata_dirty r then None else Some (metadata_version r, clients r))"

definition flush_commit :: "u64 \<Rightarrow> 'tm registry \<Rightarrow> 'tm registry" where
  "flush_commit version r = (if metadata_version r = version then r\<lparr>metadata_dirty := False\<rparr> else r)"

subsection \<open>Opening the registry\<close>

definition is_ascii_hexdigit :: "char \<Rightarrow> bool" where
  "is_ascii_hexdigit c \<longleftrightarrow> is_ascii_digit c \<or> (let n = of_char c :: nat in 65 \<le> n \<and> n \<le> 70 \<or> 97 \<le> n \<and> n \<le> 102)"

definition check_device_key :: "('pk, 'sg, 'tm) registry_api \<Rightarrow> 'tm device_record \<Rightarrow> invalid_input + unit" where
  "check_device_key api d =
    (case b64_decode (proof_api api) (dv_public_key d) of
       None \<Rightarrow> Err (BadPublicKey (dv_id d))
     | Some encoded \<Rightarrow>
         if encoded = [] \<or> b64_encode (proof_api api) encoded \<noteq> dv_public_key d then Err (NonCanonicalKey (dv_id d))
         else (case device_id_from_encoded (proof_api api) encoded of
                 Err _ \<Rightarrow> Err (BadPublicKey (dv_id d))
               | Ok derived \<Rightarrow> if derived \<noteq> dv_id d then Err (KeyMismatch (dv_id d)) else Ok ()))"

fun validate_devices :: "('pk, 'sg, 'tm) registry_api \<Rightarrow> string list \<Rightarrow> 'tm device_record list \<Rightarrow> invalid_input + unit" where
  "validate_devices api seen [] = Ok ()"
| "validate_devices api seen (d # ds) =
    (if \<not> (is_proxy d \<or> is_valid_device_id (dv_id d)) \<or> dv_id d \<in> set seen then Err (BadDeviceId (dv_id d))
     else if is_proxy d then
       (if dv_public_key d \<noteq> [] \<or> dv_name d \<noteq> FORWARD_PROXY_DEVICE_NAME then Err BadProxyDevice
        else validate_devices api (dv_id d # seen) ds)
     else if \<not> is_valid_device_name (dv_name d) then Err (BadDeviceName (dv_name d))
     else rbind (check_device_key api d) (\<lambda>_. validate_devices api (dv_id d # seen) ds))"

definition validate_stored_client :: "('pk, 'sg, 'tm) registry_api \<Rightarrow> 'tm client_record \<Rightarrow> registry_error + unit" where
  "validate_stored_client api c =
    (if length (cl_id c) \<noteq> 16 \<or> \<not> list_all is_ascii_hexdigit (cl_id c) then Err (InvalidInput BadClientId)
     else rbind (validate_client_input (cl_name c) (cl_max_devices c)) (\<lambda>_.
       if length (cl_token_hash c) \<noteq> 64 \<or> \<not> list_all is_ascii_hexdigit (cl_token_hash c) then Err (InvalidInput BadTokenHash)
       else rbind (map_err InvalidInput (validate_devices api [] (cl_devices c))) (\<lambda>_.
         if length (cl_devices c) > cl_max_devices c then Err (InvalidInput TooManyDevices) else Ok ())))"

text \<open>The first entry that is not valid is reported with its position from one.\<close>

fun validate_entries :: "('pk, 'sg, 'tm) registry_api \<Rightarrow> nat \<Rightarrow> 'tm client_record list \<Rightarrow> registry_error + unit" where
  "validate_entries api index [] = Ok ()"
| "validate_entries api index (c # cs) =
    (case validate_stored_client api c of
       Err (InvalidInput reason) \<Rightarrow> Err (InvalidInput (InvalidEntry (index + 1) reason))
     | Err e \<Rightarrow> Err e
     | Ok _ \<Rightarrow> validate_entries api (index + 1) cs)"

datatype registry_read = ReadRegistry bytes | RegistryMissing | RegistryReadFailed string

definition stored_clients ::
  "('pk, 'sg, 'tm) registry_api \<Rightarrow> string \<Rightarrow> registry_read \<Rightarrow> string \<Rightarrow> 'tm \<Rightarrow> registry_error + 'tm client_record list" where
  "stored_clients api bootstrap_token reply i now =
    (case reply of
       ReadRegistry data \<Rightarrow>
         rbind (map_err Decode (decode_registry api data)) (\<lambda>(version, cs).
           if version \<noteq> REGISTRY_VERSION then Err (UnsupportedVersion version)
           else rbind (validate_entries api 0 cs) (\<lambda>_. Ok cs))
     | RegistryMissing \<Rightarrow>
         if str_trim bootstrap_token = [] then Err (InvalidInput NoBootstrapToken)
         else Ok [\<lparr>cl_id = i, cl_name = ''Default client'', cl_token_hash = hash_token api bootstrap_token,
                   cl_max_devices = 5, cl_enabled = True, cl_created_at = now, cl_devices = []\<rparr>]
     | RegistryReadFailed e \<Rightarrow> Err (RegistryIo e))"

definition new_registry :: "('pk, 'sg, 'tm) registry_api \<Rightarrow> 'tm client_record list \<Rightarrow> bytes option \<Rightarrow> 'tm registry" where
  "new_registry api cs disk =
    rebuild_token_index api
      \<lparr>clients = cs, token_index = [], nonces = [], retiring_devices = [], retiring_accounts = [],
       account_disconnect = [], device_disconnect = [], next_persist_sequence = 0, metadata_dirty = False,
       metadata_version = 0, persisted_sequence = 0, durability_error = None, registry_file = disk, detached = [],
       sessions = default_live, disconnect_epoch = 0, authentication_epochs = [], registry_closed = False\<rparr>"

text \<open>The path is empty or not; \<open>try_exists\<close> fails or tells whether the file exists by then. An error of
  \<open>persist_current\<close> is the error of \<open>open\<close>.\<close>

definition open_registry ::
  "('pk, 'sg, 'tm) registry_api \<Rightarrow> string \<Rightarrow> string \<Rightarrow> registry_read \<Rightarrow> string \<Rightarrow> 'tm \<Rightarrow> string + bool \<Rightarrow> registry_fs
    \<Rightarrow> registry_error + 'tm registry" where
  "open_registry api path bootstrap_token reply i now exists fs =
    (if path = [] then Err (InvalidInput NoRegistryPath)
     else rbind (stored_clients api bootstrap_token reply i now) (\<lambda>cs.
       let r = new_registry api cs (case reply of ReadRegistry data \<Rightarrow> Some data | _ \<Rightarrow> None)
       in case exists of
            Err e \<Rightarrow> Err (RegistryIo e)
          | Ok True \<Rightarrow> Ok r
          | Ok False \<Rightarrow> (case persist_clients api fs (clients r) r of (Err e, _) \<Rightarrow> Err e | (Ok _, r) \<Rightarrow> Ok r)))"

subsection \<open>The web portal\<close>

definition authenticate_portal :: "('pk, 'sg, 'tm) registry_api \<Rightarrow> string \<Rightarrow> 'tm registry \<Rightarrow> registry_error + string \<times> string" where
  "authenticate_portal api token r = rbind (client_for_token api r token) (\<lambda>c. Ok (cl_id c, cl_name c))"

definition portal_client_active :: "string \<Rightarrow> string \<Rightarrow> 'tm registry \<Rightarrow> bool" where
  "portal_client_active client_id token_hash r =
    (case find (has_id client_id) (clients r) of
       None \<Rightarrow> False
     | Some c \<Rightarrow> cl_enabled c \<and> length (cl_token_hash c) = length token_hash \<and> cl_token_hash c = token_hash)"

subsection \<open>The sections by their outcome\<close>

lemma nonce_seen_keeps: "nonce_seen api key nonce at now r = (res, r') \<Longrightarrow> \<exists>ns. r' = r\<lparr>nonces := ns\<rparr>"
  by (auto simp: nonce_seen_def Let_def split: if_splits option.splits intro: exI [of _ "nonces r"])

lemma remember_nonce_keeps: "\<exists>ns. remember_nonce api key nonce at r = r\<lparr>nonces := ns\<rparr>"
  by (auto simp: remember_nonce_def Let_def)

lemma admit_session_keeps:
  "admit_session api account device r = (s, r') \<Longrightarrow>
    \<exists>ss. register_session account device (sessions r) = (authenticated_guard s, ss) \<and> r' = r\<lparr>sessions := ss\<rparr>"
  by (auto simp: admit_session_def split: prod.splits)

lemma admit_device_keeps:
  assumes "admit_device api account p v r = (s, r')"
  shows "\<exists>ss. register_session account (device_id_of p) (sessions r) = (authenticated_guard s, ss)
    \<and> r' = (remember_nonce api \<lparr>dk_account = account, dk_device = device_id_of p\<rparr> (nonce_of p) (signed_at v) r)\<lparr>sessions := ss\<rparr>"
  using admit_session_keeps [OF assms [unfolded admit_device_def]]
    remember_nonce_keeps [of api "\<lparr>dk_account = account, dk_device = device_id_of p\<rparr>" "nonce_of p" "signed_at v" r] by auto

lemma device_gate_cases:
  assumes "device_gate api token p v now epoch r = (res, r')"
  obtains (refused) e ns where "res = Err e" "r' = r\<lparr>nonces := ns\<rparr>"
  | (passed) i ns where "res = Ok i" "r' = r\<lparr>nonces := ns\<rparr>" "client_index_for_token api r token = Ok i"
      "\<not> authentication_blocked r (cl_id (clients r ! i)) (device_key_of (clients r ! i) p) epoch"
      "nonce_seen api (device_key_of (clients r ! i) p) (nonce_of p) (signed_at v) now r = (False, r')"
proof (cases "rbind (ensure_open r) (\<lambda>_. client_index_for_token api r token)")
  case (Inl e)
  then show ?thesis using assms refused [of e "nonces r"] by (simp add: device_gate_def)
next
  case (Inr i)
  then have i: "client_index_for_token api r token = Ok i" by (auto simp: ensure_open_def split: if_splits)
  let ?k = "device_key_of (clients r ! i) p"
  obtain seen r1 where seen: "nonce_seen api ?k (nonce_of p) (signed_at v) now r = (seen, r1)" by fastforce
  then obtain ns where ns: "r1 = r\<lparr>nonces := ns\<rparr>" using nonce_seen_keeps by blast
  show ?thesis
  proof (cases "authentication_blocked r (cl_id (clients r ! i)) ?k epoch")
    case True
    then show ?thesis using assms Inr refused [of Draining "nonces r"] by (simp add: device_gate_def)
  next
    case False
    then show ?thesis
      using assms Inr seen ns i refused [of Unauthorized ns] passed [of i ns]
      by (cases seen) (auto simp: device_gate_def)
  qed
qed

lemma fast_device_cases:
  assumes "fast_device api token p v now epoch r = (res, r')"
  obtains (refused) e ns where "res = Err e" "r' = r\<lparr>nonces := ns\<rparr>"
  | (undecided) ns where "res = Ok None" "r' = r\<lparr>nonces := ns\<rparr>"
  | (admitted) session i r1 where "res = Ok (Some session)" "device_gate api token p v now epoch r = (Ok i, r1)"
      "admit_device api (cl_id (clients r1 ! i)) p v r1 = (session, r')"
proof -
  obtain res1 r1 where gate: "device_gate api token p v now epoch r = (res1, r1)" by fastforce
  then show ?thesis
  proof (cases rule: device_gate_cases)
    case (refused e ns)
    then show ?thesis using assms gate that(1) [of e ns] by (simp add: fast_device_def)
  next
    case (passed i ns)
    then have "(\<exists>e. res = Err e) \<and> r' = r1 \<or> res = Ok None \<and> r' = r1
        \<or> (\<exists>session. res = Ok (Some session) \<and> admit_device api (cl_id (clients r1 ! i)) p v r1 = (session, r'))"
      using assms gate by (auto simp: fast_device_def split: option.splits if_splits prod.splits)
    then show ?thesis using that(1) [of _ ns] that(2) [of ns] that(3) passed gate by blast
  qed
qed

lemma slow_device_cases:
  assumes "slow_device api token p v now epoch r = (res, r')"
  obtains (refused) e ns where "res = Err e" "r' = r\<lparr>nonces := ns\<rparr>"
  | (admitted) session i r1 where "res = Ok (Inl session)" "device_gate api token p v now epoch r = (Ok i, r1)"
      "admit_device api (cl_id (clients r1 ! i)) p v r1 = (session, r')"
  | (rewrite) i ns j d where "device_gate api token p v now epoch r = (Ok i, r')" "r' = r\<lparr>nonces := ns\<rparr>"
      "j < length (cl_devices (clients r ! i))" "dv_id (cl_devices (clients r ! i) ! j) = device_id_of p"
      "dv_id d = device_id_of p"
      "res = Ok (Inr \<lparr>en_account = cl_id (clients r ! i),
         en_candidate = (clients r)[i := with_devices (\<lambda>ds. ds[j := d]) (clients r ! i)], en_existing = Some j, en_new = False\<rparr>)"
  | (enrol) i ns d where "device_gate api token p v now epoch r = (Ok i, r')" "r' = r\<lparr>nonces := ns\<rparr>"
      "device_id_of p \<notin> dv_id ` set (cl_devices (clients r ! i))" "dv_id d = device_id_of p"
      "length (cl_devices (clients r ! i)) < cl_max_devices (clients r ! i)"
      "res = Ok (Inr \<lparr>en_account = cl_id (clients r ! i),
         en_candidate = (clients r)[i := with_devices (\<lambda>ds. ds @ [d]) (clients r ! i)], en_existing = None, en_new = True\<rparr>)"
proof -
  obtain res1 r1 where gate: "device_gate api token p v now epoch r = (res1, r1)" by fastforce
  then show ?thesis
  proof (cases rule: device_gate_cases)
    case (refused e ns)
    then show ?thesis using assms gate that(1) [of e ns] by (simp add: slow_device_def)
  next
    case (passed i ns)
    let ?c = "clients r ! i"
    show ?thesis
    proof (cases "position (\<lambda>d. dv_id d = device_id_of p) (cl_devices ?c)")
      case None
      then have "device_id_of p \<notin> dv_id ` set (cl_devices ?c)" by (auto simp: position_None)
      then show ?thesis
        using assms gate passed None that(1) [of _ ns] that(4) [of i ns "\<lparr>dv_id = device_id_of p, dv_name = name_of p,
            dv_public_key = canonical_key api v, dv_first_seen = now, dv_last_seen = now\<rparr>"]
        by (auto simp: slow_device_def Let_def not_le split: if_splits)
    next
      case (Some j)
      from position_Some [OF this] have j: "j < length (cl_devices ?c)" "dv_id (cl_devices ?c ! j) = device_id_of p" by auto
      then show ?thesis
        using assms gate passed Some that(1) [of _ ns] that(2) that(3) [of i ns j "(cl_devices ?c ! j)\<lparr>dv_name := name_of p, dv_last_seen := now\<rparr>"]
        by (auto simp: slow_device_def Let_def split: if_splits prod.splits)
    qed
  qed
qed

subsection \<open>The roster\<close>

text \<open>What the invariants depend on: the clients with their limits and the devices enrolled for them, but
  neither names nor times.\<close>

type_synonym roster = "(string \<times> string \<times> nat \<times> string list) list"

definition roster_entry :: "'tm client_record \<Rightarrow> string \<times> string \<times> nat \<times> string list" where
  "roster_entry c = (cl_id c, cl_token_hash c, cl_max_devices c, map dv_id (cl_devices c))"

definition roster :: "'tm client_record list \<Rightarrow> roster" where
  "roster cs = map roster_entry cs"

definition roster_ok :: "roster \<Rightarrow> bool" where
  "roster_ok ro \<longleftrightarrow> distinct (map fst ro) \<and> (\<forall>(_, _, limit, devices) \<in> set ro. distinct devices \<and> length devices \<le> limit)"

lemma roster_simps [simp]: "roster [] = []" "roster (c # cs) = roster_entry c # roster cs" "roster (cs @ ds) = roster cs @ roster ds"
  "length (roster cs) = length cs" "i < length cs \<Longrightarrow> roster cs ! i = roster_entry (cs ! i)"
  by (simp_all add: roster_def)

lemma roster_update [simp]: "roster (cs[i := c]) = (roster cs)[i := roster_entry c]"
  by (simp add: roster_def map_update)

lemma roster_ids: "map fst (roster cs) = map cl_id cs"
  by (simp add: roster_def roster_entry_def)

lemma update_first_map: "(\<And>x. g (f x) = g x) \<Longrightarrow> map g (update_first found f xs) = map g xs"
  by (induction xs) auto

lemma find_in: "find P xs = Some x \<Longrightarrow> x \<in> set xs \<and> P x"
  by (auto simp: find_Some_iff)

lemma update_first_found:
  "find found xs = Some x \<Longrightarrow> \<exists>as bs. xs = as @ x # bs \<and> (\<forall>y \<in> set as. \<not> found y) \<and> update_first found f xs = as @ f x # bs"
proof (induction xs)
  case (Cons y ys)
  show ?case
  proof (cases "found y")
    case True
    then show ?thesis using Cons.prems by (intro exI [of _ "[]"] exI [of _ ys]) auto
  next
    case False
    then obtain as bs where "ys = as @ x # bs" "\<forall>y \<in> set as. \<not> found y" "update_first found f ys = as @ f x # bs"
      using Cons by auto
    then show ?thesis using False by (intro exI [of _ "y # as"] exI [of _ bs]) auto
  qed
qed simp

lemma update_first_none: "find found xs = None \<Longrightarrow> update_first found f xs = xs"
  by (induction xs) (auto split: if_splits)

text \<open>The token index is a function of the token hashes, and its entries are in range.\<close>

lemma index_tokens_hashes:
  "map cl_token_hash cs = map cl_token_hash ds \<Longrightarrow> index_tokens api i cs m = index_tokens api i ds m"
proof (induction cs arbitrary: ds i m)
  case (Cons c cs)
  then obtain d es where ds: "ds = d # es" "cl_token_hash c = cl_token_hash d" "map cl_token_hash cs = map cl_token_hash es"
    by (cases ds) auto
  show ?case unfolding ds(1) index_tokens.simps ds(2) by (rule Cons.IH [OF ds(3)])
qed simp

lemma index_tokens_Some:
  "map_of (index_tokens api i cs m) digest = Some j \<Longrightarrow>
    map_of m digest = Some j
    \<or> (i \<le> j \<and> j < i + length cs \<and> hex_decode api (cl_token_hash (cs ! (j - i))) = Some digest \<and> length digest = 32)"
proof (induction cs arbitrary: i m)
  case (Cons c cs)
  from Cons.IH [OF Cons.prems [unfolded index_tokens.simps]] show ?case
    by (auto simp: nth_Cons' split: option.splits if_splits)
qed simp

definition index_ok :: "('pk, 'sg, 'tm) registry_api \<Rightarrow> 'tm registry \<Rightarrow> bool" where
  "index_ok api r \<longleftrightarrow> token_index r = index_tokens api 0 (clients r) []"

definition hex_laws :: "('pk, 'sg, 'tm) registry_api \<Rightarrow> bool" where
  "hex_laws api \<longleftrightarrow> (\<forall>s d. hex_decode api s = Some d \<and> length d = 32 \<longrightarrow> hex_decode_slice api s = d)"

lemma client_index_Ok:
  assumes "index_ok api r" and "client_index_for_token api r token = Ok i"
  shows "i < length (clients r) \<and> cl_enabled (clients r ! i)
    \<and> hex_decode api (cl_token_hash (clients r ! i)) = Some (sha256 (proof_api api) (as_bytes token))"
  using assms index_tokens_Some [of api 0 "clients r" "[]" "sha256 (proof_api api) (as_bytes token)" i]
  by (auto simp: client_index_for_token_def index_ok_def Let_def split: option.splits if_splits)

lemma rebuild_index_ok [simp]: "index_ok api (rebuild_token_index api r)"
  by (simp add: rebuild_token_index_def index_ok_def)

end
