(* ===== verification/Registry_Runs.thy ===== *)
theory Registry_Runs
  imports Registry
begin

text \<open>
  The registry under concurrent use: authentications, administrators, the metadata worker and sessions
  that end. A run is a sequence of sections; what holds the lock on mutations is the work in progress,
  and an operation that waits may be given up there. A drain guard that \<open>retire_device\<close> hands out is a
  retirement until it is dropped. The guards of sessions are recorded with the authentication that
  opened them.
\<close>

subsection \<open>Runs\<close>

datatype request = DeviceRequest string device_proof string string | ProxyRequest string

datatype 'tm stage =
    Started | DeviceFast "'tm verified_proof" 'tm | DeviceSlow "'tm verified_proof" 'tm
  | ProxyFast 'tm | ProxySlow 'tm | Finished | Gone

record 'tm attempt =
  at_epoch :: u64
  at_request :: request
  at_stage :: "'tm stage"

datatype 'tm work =
    Idle
  | EnrolWrite nat device_proof "'tm verified_proof" "'tm enrolment"
  | EnrolCommit nat device_proof "'tm verified_proof" "'tm enrolment"
  | ProxyWrite nat string "'tm client_record list"
  | ProxyCommit nat string "'tm client_record list"
  | ChangeWrite "'tm change" "'tm client_record list"
  | ChangeCommit "'tm change" "'tm client_record list"
  | FlushWrite u64 "'tm client_record list"
  | FlushCommit u64
  | ForgetStep drain_target bool
  | DrainStep drain_target bool
  | CancelStep drain_target bool
  | WaitStep drain_target bool "nat list"

record 'tm registry_system =
  reg :: "'tm registry"
  attempts :: "'tm attempt list"
  work :: "'tm work"
  retirements :: "device_key list"
  held :: "(session_guard \<times> nat) list"

datatype 'tm admin_request =
    AdminCreate string nat string string 'tm
  | AdminUpdate string string nat bool
  | AdminRotate string string
  | AdminDelete string
  | AdminRetire string string
  | AdminDisconnect string "string option"

datatype 'tm registry_action =
    BeginDevice string device_proof string string
  | BeginProxy string 'tm
  | CheckProof nat 'tm 'tm
  | RunFast nat
  | TakeLock nat
  | DropAttempt nat
  | Administer "'tm admin_request"
  | Flush
  | CloseRegistry
  | WriteFile registry_fs
  | Proceed
  | GiveUp
  | RunDetached registry_fs nat
  | EndRetirement nat
  | RetrySync "string + unit"
  | DropGuard nat

definition set_stage :: "nat \<Rightarrow> 'tm stage \<Rightarrow> 'tm registry_system \<Rightarrow> 'tm registry_system" where
  "set_stage i stage s = s\<lparr>attempts := (attempts s)[i := (attempts s ! i)\<lparr>at_stage := stage\<rparr>]\<rparr>"

definition accept :: "nat \<Rightarrow> authenticated_session \<Rightarrow> 'tm registry_system \<Rightarrow> 'tm registry_system" where
  "accept i session s = set_stage i Finished (s\<lparr>held := (authenticated_guard session, i) # held s\<rparr>)"

definition begin_attempt :: "request \<Rightarrow> 'tm stage \<Rightarrow> 'tm registry_system \<Rightarrow> 'tm registry_system" where
  "begin_attempt req stage s =
    (if registry_closed (reg s) then s
     else case begin_authentication (reg s) of
       (epoch, r) \<Rightarrow> s\<lparr>reg := r, attempts := attempts s @ [\<lparr>at_epoch = epoch, at_request = req, at_stage = stage\<rparr>]\<rparr>)"

definition check_proof ::
  "('pk, 'sg, 'tm :: linorder) registry_api \<Rightarrow> nat \<Rightarrow> 'tm \<Rightarrow> 'tm \<Rightarrow> 'tm registry_system \<Rightarrow> 'tm registry_system" where
  "check_proof api i at now s =
    (case (at_request (attempts s ! i), at_stage (attempts s ! i)) of
       (DeviceRequest token p verb path, Started) \<Rightarrow>
         (case check_device api token p verb path at (reg s) of
            Err _ \<Rightarrow> set_stage i Finished s
          | Ok v \<Rightarrow> set_stage i (DeviceFast v now) s)
     | _ \<Rightarrow> s)"

definition run_fast :: "('pk, 'sg, 'tm :: linorder) registry_api \<Rightarrow> nat \<Rightarrow> 'tm registry_system \<Rightarrow> 'tm registry_system" where
  "run_fast api i s =
    (let a = attempts s ! i in
     case (at_request a, at_stage a) of
       (DeviceRequest token p _ _, DeviceFast v now) \<Rightarrow>
         (case fast_device api token p v now (at_epoch a) (reg s) of
            (Err _, r) \<Rightarrow> set_stage i Finished (s\<lparr>reg := r\<rparr>)
          | (Ok None, r) \<Rightarrow> set_stage i (DeviceSlow v now) (s\<lparr>reg := r\<rparr>)
          | (Ok (Some session), r) \<Rightarrow> accept i session (s\<lparr>reg := r\<rparr>))
     | (ProxyRequest token, ProxyFast now) \<Rightarrow>
         (case fast_proxy api token now (at_epoch a) (reg s) of
            (Err _, r) \<Rightarrow> set_stage i Finished (s\<lparr>reg := r\<rparr>)
          | (Ok None, r) \<Rightarrow> set_stage i (ProxySlow now) (s\<lparr>reg := r\<rparr>)
          | (Ok (Some session), r) \<Rightarrow> accept i session (s\<lparr>reg := r\<rparr>))
     | _ \<Rightarrow> s)"

definition take_lock :: "('pk, 'sg, 'tm :: linorder) registry_api \<Rightarrow> nat \<Rightarrow> 'tm registry_system \<Rightarrow> 'tm registry_system" where
  "take_lock api i s =
    (let a = attempts s ! i in
     case (at_request a, at_stage a) of
       (DeviceRequest token p _ _, DeviceSlow v now) \<Rightarrow>
         (case slow_device api token p v now (at_epoch a) (reg s) of
            (Err _, r) \<Rightarrow> set_stage i Finished (s\<lparr>reg := r\<rparr>)
          | (Ok (Inl session), r) \<Rightarrow> accept i session (s\<lparr>reg := r\<rparr>)
          | (Ok (Inr en), r) \<Rightarrow> s\<lparr>reg := r, work := EnrolWrite i p v en\<rparr>)
     | (ProxyRequest token, ProxySlow now) \<Rightarrow>
         (case slow_proxy api token now (at_epoch a) (reg s) of
            (Err _, r) \<Rightarrow> set_stage i Finished (s\<lparr>reg := r\<rparr>)
          | (Ok (Inl session), r) \<Rightarrow> accept i session (s\<lparr>reg := r\<rparr>)
          | (Ok (Inr (account, candidate)), r) \<Rightarrow> s\<lparr>reg := r, work := ProxyWrite i account candidate\<rparr>)
     | _ \<Rightarrow> s)"

fun worker_of :: "'tm work \<Rightarrow> nat option" where
  "worker_of (EnrolWrite i _ _ _) = Some i"
| "worker_of (EnrolCommit i _ _ _) = Some i"
| "worker_of (ProxyWrite i _ _) = Some i"
| "worker_of (ProxyCommit i _ _) = Some i"
| "worker_of _ = None"

definition drop_authentication :: "nat \<Rightarrow> 'tm registry_system \<Rightarrow> 'tm registry_system" where
  "drop_authentication i s =
    (if at_stage (attempts s ! i) = Gone \<or> worker_of (work s) = Some i then s
     else set_stage i Gone (s\<lparr>reg := drop_attempt (at_epoch (attempts s ! i)) (reg s)\<rparr>))"

fun administer :: "('pk, 'sg, 'tm) registry_api \<Rightarrow> 'tm admin_request \<Rightarrow> 'tm registry \<Rightarrow> registry_error + 'tm work" where
  "administer api (AdminCreate name max_devices token i now) r =
    rbind (create_client api name max_devices token i now r) (\<lambda>(change, cs). Ok (ChangeWrite change cs))"
| "administer api (AdminUpdate i name max_devices enabled) r =
    rbind (update_client i name max_devices enabled r) (\<lambda>(change, cs). Ok (ChangeWrite change cs))"
| "administer api (AdminRotate i token) r =
    rbind (rotate_token api i token r) (\<lambda>(change, cs). Ok (ChangeWrite change cs))"
| "administer api (AdminDelete i) r = rbind (delete_client i r) (\<lambda>(change, cs). Ok (ChangeWrite change cs))"
| "administer api (AdminRetire account device) r =
    rbind (retire_device account device r) (\<lambda>(change, cs). Ok (ChangeWrite change cs))"
| "administer api (AdminDisconnect account device) r =
    rbind (check_disconnect account device r) (\<lambda>target. Ok (DrainStep target False))"

text \<open>A write that is waited for, and what follows when it succeeds.\<close>

fun pending_write :: "'tm work \<Rightarrow> ('tm client_record list \<times> 'tm work) option" where
  "pending_write (EnrolWrite i p v en) = Some (en_candidate en, EnrolCommit i p v en)"
| "pending_write (ProxyWrite i account cs) = Some (cs, ProxyCommit i account cs)"
| "pending_write (ChangeWrite change cs) = Some (cs, ChangeCommit change cs)"
| "pending_write (FlushWrite version cs) = Some (cs, FlushCommit version)"
| "pending_write _ = None"

text \<open>The end of an operation that has not been completed: its authentication is finished.\<close>

definition abandon :: "'tm registry_system \<Rightarrow> 'tm registry_system" where
  "abandon s =
    (let s' = s\<lparr>work := Idle\<rparr> in case worker_of (work s) of None \<Rightarrow> s' | Some i \<Rightarrow> set_stage i Finished s')"

definition write_file :: "('pk, 'sg, 'tm) registry_api \<Rightarrow> registry_fs \<Rightarrow> 'tm registry_system \<Rightarrow> 'tm registry_system" where
  "write_file api fs s =
    (case pending_write (work s) of
       None \<Rightarrow> s
     | Some (cs, following) \<Rightarrow>
         (case persist_clients api fs cs (reg s) of
            (Err _, r) \<Rightarrow> abandon (s\<lparr>reg := r\<rparr>)
          | (Ok _, r) \<Rightarrow> s\<lparr>reg := r, work := following\<rparr>))"

fun after_change :: "'tm change \<Rightarrow> 'tm work" where
  "after_change (CreateClient _) = Idle"
| "after_change (UpdateClient i _ _ enabled) = (if enabled then Idle else DrainStep (AccountTarget i) False)"
| "after_change (RotateToken i _) = ForgetStep (AccountTarget i) False"
| "after_change (DeleteClient i _) = ForgetStep (AccountTarget i) False"
| "after_change (RetireDevice account device _) = ForgetStep (DeviceTarget \<lparr>dk_account = account, dk_device = device\<rparr>) True"

text \<open>The end of a drain: the guard is handed out by \<open>retire_device\<close> and dropped by the others.\<close>

definition end_drain :: "drain_target \<Rightarrow> bool \<Rightarrow> 'tm registry_system \<Rightarrow> 'tm registry_system" where
  "end_drain target keep s =
    (case target of
       DeviceTarget key \<Rightarrow>
         if keep then s\<lparr>work := Idle, retirements := key # retirements s\<rparr>
         else s\<lparr>work := Idle, reg := finish_drain target (reg s)\<rparr>
     | AccountTarget _ \<Rightarrow> s\<lparr>work := Idle, reg := finish_drain target (reg s)\<rparr>)"

definition proceed :: "('pk, 'sg, 'tm :: linorder) registry_api \<Rightarrow> 'tm registry_system \<Rightarrow> 'tm registry_system" where
  "proceed api s =
    (case work s of
       EnrolCommit i p v en \<Rightarrow>
         (case commit_device api p v en (reg s) of
            (Err _, r) \<Rightarrow> abandon (s\<lparr>reg := r\<rparr>)
          | (Ok session, r) \<Rightarrow> accept i session (s\<lparr>reg := r, work := Idle\<rparr>))
     | ProxyCommit i account cs \<Rightarrow>
         (case commit_proxy api account cs (reg s) of
            (Err _, r) \<Rightarrow> abandon (s\<lparr>reg := r\<rparr>)
          | (Ok session, r) \<Rightarrow> accept i session (s\<lparr>reg := r, work := Idle\<rparr>))
     | ChangeCommit change cs \<Rightarrow>
         (case apply_change api change (reg s) of
            (Err _, r) \<Rightarrow> abandon (s\<lparr>reg := r\<rparr>)
          | (Ok _, r) \<Rightarrow> s\<lparr>reg := r, work := after_change change\<rparr>)
     | FlushCommit version \<Rightarrow> s\<lparr>reg := flush_commit version (reg s), work := Idle\<rparr>
     | ForgetStep target keep \<Rightarrow> s\<lparr>reg := forget_nonces target (reg s), work := DrainStep target keep\<rparr>
     | DrainStep target keep \<Rightarrow> s\<lparr>reg := begin_target_drain target (reg s), work := CancelStep target keep\<rparr>
     | CancelStep target keep \<Rightarrow>
         (case cancel_target target (reg s) of (waiting, r) \<Rightarrow> s\<lparr>reg := r, work := WaitStep target keep waiting\<rparr>)
     | WaitStep target keep waiting \<Rightarrow>
         if drain_wait waiting (sessions (reg s)) = [] then end_drain target keep s else s
     | _ \<Rightarrow> s)"

text \<open>An operation that waits for its write or for a drain is given up: its write is detached, its drain
  ends.\<close>

definition give_up :: "('pk, 'sg, 'tm) registry_api \<Rightarrow> 'tm registry_system \<Rightarrow> 'tm registry_system" where
  "give_up api s =
    (case work s of
       WaitStep target keep waiting \<Rightarrow> s\<lparr>work := Idle, reg := finish_drain target (reg s)\<rparr>
     | w \<Rightarrow> (case pending_write w of None \<Rightarrow> s | Some (cs, _) \<Rightarrow> abandon (s\<lparr>reg := detach_write api cs (reg s)\<rparr>)))"

fun registry_do :: "('pk, 'sg, 'tm :: linorder) registry_api \<Rightarrow> 'tm registry_system \<Rightarrow> 'tm registry_action \<Rightarrow> 'tm registry_system" where
  "registry_do api s (BeginDevice token p verb path) = begin_attempt (DeviceRequest token p verb path) Started s"
| "registry_do api s (BeginProxy token now) = begin_attempt (ProxyRequest token) (ProxyFast now) s"
| "registry_do api s (CheckProof i at now) = (if i < length (attempts s) then check_proof api i at now s else s)"
| "registry_do api s (RunFast i) = (if i < length (attempts s) then run_fast api i s else s)"
| "registry_do api s (TakeLock i) = (if i < length (attempts s) \<and> work s = Idle then take_lock api i s else s)"
| "registry_do api s (DropAttempt i) = (if i < length (attempts s) then drop_authentication i s else s)"
| "registry_do api s (Administer req) =
    (if work s \<noteq> Idle then s else case administer api req (reg s) of Err _ \<Rightarrow> s | Ok w \<Rightarrow> s\<lparr>work := w\<rparr>)"
| "registry_do api s Flush =
    (if work s \<noteq> Idle then s
     else case flush_candidate (reg s) of None \<Rightarrow> s | Some (version, cs) \<Rightarrow> s\<lparr>work := FlushWrite version cs\<rparr>)"
| "registry_do api s CloseRegistry = (if work s = Idle then s\<lparr>reg := (reg s)\<lparr>registry_closed := True\<rparr>\<rparr> else s)"
| "registry_do api s (WriteFile fs) = write_file api fs s"
| "registry_do api s Proceed = proceed api s"
| "registry_do api s GiveUp = give_up api s"
| "registry_do api s (RunDetached fs n) = s\<lparr>reg := run_detached fs n (reg s)\<rparr>"
| "registry_do api s (EndRetirement n) =
    (if n < length (retirements s)
     then s\<lparr>reg := finish_drain (DeviceTarget (retirements s ! n)) (reg s), retirements := remove_nth n (retirements s)\<rparr>
     else s)"
| "registry_do api s (RetrySync reply) = s\<lparr>reg := snd (retry_durability_sync reply (reg s))\<rparr>"
| "registry_do api s (DropGuard n) =
    (if n < length (held s)
     then s\<lparr>reg := (reg s)\<lparr>sessions := drop_guard (fst (held s ! n)) (sessions (reg s))\<rparr>, held := remove_nth n (held s)\<rparr>
     else s)"

definition system_of :: "'tm registry \<Rightarrow> 'tm registry_system" where
  "system_of r = \<lparr>reg = r, attempts = [], work = Idle, retirements = [], held = []\<rparr>"

text \<open>The identifiers that \<open>create\<close> draws at random are taken not to be in use.\<close>

fun draws_fresh :: "'tm registry_action \<Rightarrow> 'tm registry_system \<Rightarrow> bool" where
  "draws_fresh (Administer (AdminCreate _ _ _ i _)) s = (i \<notin> set (map cl_id (clients (reg s))))"
| "draws_fresh _ s = True"

inductive registry_run ::
  "('pk, 'sg, 'tm :: linorder) registry_api \<Rightarrow> 'tm registry_system \<Rightarrow> nat \<Rightarrow> 'tm registry_system \<Rightarrow> bool" for api s0 where
  run_start: "registry_run api s0 0 s0"
| run_action: "registry_run api s0 n s \<Longrightarrow> draws_fresh act s \<Longrightarrow> registry_run api s0 (Suc n) (registry_do api s act)"

subsection \<open>The roster\<close>

abbreviation ro_of :: "'tm registry_system \<Rightarrow> roster" where
  "ro_of s \<equiv> roster (clients (reg s))"

definition change_entry :: "string \<Rightarrow> (string \<times> nat \<times> string list \<Rightarrow> string \<times> nat \<times> string list) \<Rightarrow> roster \<Rightarrow> roster" where
  "change_entry i f ro = map (\<lambda>(j, e). if j = i then (j, f e) else (j, e)) ro"

lemma change_entry_simps [simp]:
  "change_entry i f [] = []"
  "change_entry i f ((j, e) # ro) = (if j = i then (j, f e) else (j, e)) # change_entry i f ro"
  by (simp_all add: change_entry_def)

lemma change_entry_absent: "i \<notin> fst ` set ro \<Longrightarrow> change_entry i f ro = ro"
  by (induction ro) auto

lemma change_entry_ids [simp]: "map fst (change_entry i f ro) = map fst ro"
  by (induction ro) auto

lemma fst_roster [simp]: "fst ` set (roster cs) = cl_id ` set cs"
  by (metis image_set roster_ids)

lemma roster_update_first:
  assumes "distinct (map cl_id cs)" and "\<And>c. cl_id c = i \<Longrightarrow> roster_entry (g c) = (i, f (snd (roster_entry c)))"
  shows "roster (update_first (has_id i) g cs) = change_entry i f (roster cs)"
  using assms(1)
proof (induction cs)
  case (Cons c cs)
  show ?case
  proof (cases "cl_id c = i")
    case True
    then have "i \<notin> fst ` set (roster cs)" using Cons.prems by auto
    then show ?thesis using True assms(2) [OF True] by (simp add: change_entry_absent roster_entry_def [of c])
  next
    case False
    then show ?thesis using Cons by (simp add: roster_entry_def [of c])
  qed
qed simp

lemma roster_update_nth:
  assumes "distinct (map cl_id cs)" and "n < length cs" and "roster_entry c = (cl_id (cs ! n), f (snd (roster_entry (cs ! n))))"
  shows "roster (cs[n := c]) = change_entry (cl_id (cs ! n)) f (roster cs)"
  using assms
proof (induction cs arbitrary: n)
  case (Cons d cs)
  show ?case
  proof (cases n)
    case 0
    then have "cl_id d \<notin> fst ` set (roster cs)" using Cons.prems by auto
    then show ?thesis using 0 Cons.prems(3) by (simp add: change_entry_absent roster_entry_def [of d])
  next
    case (Suc m)
    then have "cl_id (cs ! m) \<in> set (map cl_id cs)" using Cons.prems(2) by simp
    then have "cl_id (cs ! m) \<noteq> cl_id d" using Cons.prems(1) by (metis distinct.simps(2) list.map(2))
    then show ?thesis using Suc Cons.IH [of m] Cons.prems by (simp add: roster_entry_def [of d])
  qed
qed simp

definition enrolled :: "string \<Rightarrow> string \<Rightarrow> roster \<Rightarrow> roster" where
  "enrolled account device ro = change_entry account (\<lambda>(h, m, ds). (h, m, ds @ [device])) ro"

text \<open>What the work in progress will make of the roster.\<close>

fun planned_change :: "'tm change \<Rightarrow> roster \<Rightarrow> roster" where
  "planned_change (CreateClient c) ro = ro @ [roster_entry c]"
| "planned_change (UpdateClient i _ m _) ro = change_entry i (\<lambda>(h, _, ds). (h, m, ds)) ro"
| "planned_change (RotateToken i h) ro = change_entry i (\<lambda>(_, m, ds). (h, m, ds)) ro"
| "planned_change (DeleteClient _ n) ro = remove_nth n ro"
| "planned_change (RetireDevice a _ n) ro = change_entry a (\<lambda>(h, m, ds). (h, m, remove_nth n ds)) ro"

fun planned :: "'tm work \<Rightarrow> roster \<Rightarrow> roster" where
  "planned (EnrolWrite _ p _ en) ro = (if en_new en then enrolled (en_account en) (device_id_of p) ro else ro)"
| "planned (EnrolCommit _ p _ en) ro = (if en_new en then enrolled (en_account en) (device_id_of p) ro else ro)"
| "planned (ProxyWrite _ account _) ro = enrolled account FORWARD_PROXY_DEVICE_ID ro"
| "planned (ProxyCommit _ account _) ro = enrolled account FORWARD_PROXY_DEVICE_ID ro"
| "planned (ChangeWrite change _) ro = planned_change change ro"
| "planned (ChangeCommit change _) ro = planned_change change ro"
| "planned _ ro = ro"

fun candidate_of :: "'tm work \<Rightarrow> 'tm client_record list option" where
  "candidate_of (EnrolWrite _ _ _ en) = Some (en_candidate en)"
| "candidate_of (EnrolCommit _ _ _ en) = Some (en_candidate en)"
| "candidate_of (ProxyWrite _ _ cs) = Some cs"
| "candidate_of (ProxyCommit _ _ cs) = Some cs"
| "candidate_of (ChangeWrite _ cs) = Some cs"
| "candidate_of (ChangeCommit _ cs) = Some cs"
| "candidate_of (FlushWrite _ cs) = Some cs"
| "candidate_of _ = None"

fun enrols :: "'tm work \<Rightarrow> (string \<times> string) option" where
  "enrols (EnrolWrite _ p _ en) = (if en_new en then Some (en_account en, device_id_of p) else None)"
| "enrols (EnrolCommit _ p _ en) = (if en_new en then Some (en_account en, device_id_of p) else None)"
| "enrols (ProxyWrite _ account _) = Some (account, FORWARD_PROXY_DEVICE_ID)"
| "enrols (ProxyCommit _ account _) = Some (account, FORWARD_PROXY_DEVICE_ID)"
| "enrols _ = None"

fun written :: "'tm work \<Rightarrow> bool" where
  "written (EnrolCommit _ _ _ _) = True"
| "written (ProxyCommit _ _ _) = True"
| "written (ChangeCommit _ _) = True"
| "written _ = False"

definition work_ok :: "('pk, 'sg, 'tm) registry_api \<Rightarrow> bytes option \<Rightarrow> roster \<Rightarrow> 'tm work \<Rightarrow> bool" where
  "work_ok api disk ro w \<longleftrightarrow>
    roster_ok (planned w ro)
    \<and> (\<forall>cs. candidate_of w = Some cs \<longrightarrow> roster cs = planned w ro
        \<and> (written w \<longrightarrow> (\<exists>json. encode_registry api cs = Ok json \<and> disk = Some (json @ [0x0A]))))
    \<and> (\<forall>account device cs. enrols w = Some (account, device) \<and> candidate_of w = Some cs \<longrightarrow>
        (\<exists>d. last_device account cs = Some d \<and> dv_id d = device)
        \<and> account \<in> fst ` set ro)"

definition frame :: "'tm registry \<Rightarrow> roster \<times> (bytes \<times> nat) list \<times> bytes option \<times> (u64 \<times> bytes) list \<times> u64 \<times> u64" where
  "frame r = (roster (clients r), token_index r, registry_file r, detached r, next_persist_sequence r, persisted_sequence r)"

lemma frame_eq: "frame r' = frame r \<longleftrightarrow> roster (clients r') = roster (clients r) \<and> token_index r' = token_index r
    \<and> registry_file r' = registry_file r \<and> detached r' = detached r \<and> next_persist_sequence r' = next_persist_sequence r \<and> persisted_sequence r' = persisted_sequence r"
  by (simp add: frame_def)

lemma roster_hashes: "map (\<lambda>e. fst (snd e)) (roster cs) = map cl_token_hash cs"
  by (simp add: roster_def roster_entry_def)

lemma index_ok_roster:
  assumes "roster (clients r') = roster (clients r)" and "token_index r' = token_index r" and "index_ok api r"
  shows "index_ok api r'"
proof -
  have "map cl_token_hash (clients r') = map cl_token_hash (clients r)"
    unfolding roster_hashes [symmetric] assms(1) ..
  from index_tokens_hashes [OF this, of api 0 "[]"] show ?thesis using assms(2,3) by (simp add: index_ok_def)
qed

definition sys_ok :: "('pk, 'sg, 'tm) registry_api \<Rightarrow> nat \<Rightarrow> 'tm registry_system \<Rightarrow> bool" where
  "sys_ok api n s \<longleftrightarrow> roster_ok (ro_of s) \<and> index_ok api (reg s) \<and> work_ok api (registry_file (reg s)) (ro_of s) (work s)
    \<and> persisted_sequence (reg s) \<le> next_persist_sequence (reg s) \<and> unat (next_persist_sequence (reg s)) \<le> n
    \<and> (\<forall>(q, _) \<in> set (detached (reg s)). q \<le> next_persist_sequence (reg s))
    \<and> (written (work s) \<longrightarrow> persisted_sequence (reg s) = next_persist_sequence (reg s))"

lemma sys_ok_frame:
  "sys_ok api n s \<Longrightarrow> frame (reg s') = frame (reg s) \<Longrightarrow> work s' = work s \<Longrightarrow> sys_ok api (Suc n) s'"
  by (auto simp: sys_ok_def frame_eq intro: index_ok_roster)

lemma work_ok_none: "roster_ok ro \<Longrightarrow> planned w ro = ro \<Longrightarrow> candidate_of w = None \<Longrightarrow> work_ok api disk ro w"
  by (simp add: work_ok_def)

lemma written_candidate: "candidate_of w = None \<Longrightarrow> \<not> written w"
  by (cases w) simp_all

lemma sys_ok_work:
  assumes "sys_ok api n s" and "frame (reg s') = frame (reg s)" and "planned (work s') (ro_of s) = ro_of s" and "candidate_of (work s') = None"
  shows "sys_ok api (Suc n) s'"
  using assms written_candidate [OF assms(4)] by (auto simp: sys_ok_def frame_eq intro: index_ok_roster work_ok_none)

lemma fast_proxy_cases:
  assumes "fast_proxy api token now epoch r = (res, r')"
  obtains (refused) e where "res = Err e" "r' = r"
  | (undecided) "res = Ok None" "r' = r"
  | (admitted) session i cs dirty version where "res = Ok (Some session)" "client_index_for_token api r token = Ok i"
      "\<not> authentication_blocked r (cl_id (clients r ! i)) (proxy_key (cl_id (clients r ! i))) epoch"
      "roster cs = roster (clients r)"
      "admit_session api (cl_id (clients r ! i)) FORWARD_PROXY_DEVICE_ID
         (r\<lparr>clients := cs, metadata_dirty := dirty, metadata_version := version\<rparr>) = (session, r')"
proof (cases "rbind (ensure_open r) (\<lambda>_. client_index_for_token api r token)")
  case (Inl e)
  then show ?thesis using assms refused [of e] by (simp add: fast_proxy_def)
next
  case (Inr i)
  then have i: "client_index_for_token api r token = Ok i" by (auto simp: ensure_open_def split: if_splits)
  let ?c = "clients r ! i"
  let ?cs = "(clients r)[i := with_devices (update_first is_proxy (\<lambda>d. d\<lparr>dv_last_seen := now\<rparr>)) ?c]"
  have same: "roster ?cs = roster (clients r)"
  proof -
    have "map dv_id (update_first is_proxy (\<lambda>d. d\<lparr>dv_last_seen := now\<rparr>) ds) = map dv_id ds" for ds
      by (rule update_first_map) simp
    then have "roster_entry (with_devices (update_first is_proxy (\<lambda>d. d\<lparr>dv_last_seen := now\<rparr>)) ?c) = roster_entry ?c"
      by (simp add: roster_entry_def)
    then show ?thesis by (cases "i < length (clients r)") (simp_all add: list_update_beyond flip: roster_simps(5))
  qed
  consider e where "res = Err e" "r' = r" | "res = Ok None" "r' = r"
    | session where "res = Ok (Some session)" "\<not> authentication_blocked r (cl_id ?c) (proxy_key (cl_id ?c)) epoch"
        "admit_session api (cl_id ?c) FORWARD_PROXY_DEVICE_ID
           (r\<lparr>clients := ?cs, metadata_dirty := True, metadata_version := metadata_version r + 1\<rparr>) = (session, r')
         \<or> admit_session api (cl_id ?c) FORWARD_PROXY_DEVICE_ID r = (session, r')"
    using assms Inr by (auto simp: fast_proxy_def Let_def split: option.splits if_splits prod.splits)
  then show ?thesis
  proof cases
    case 3
    then show ?thesis
      using admitted [OF 3(1) i 3(2) same, where dirty = True and version = "metadata_version r + 1"]
        admitted [OF 3(1) i 3(2) refl, where dirty = "metadata_dirty r" and version = "metadata_version r"] by auto
  qed (use refused undecided in auto)
qed

lemma slow_proxy_cases:
  assumes "slow_proxy api token now epoch r = (res, r')"
  obtains (refused) e where "res = Err e" "r' = r"
  | (admitted) session i where "res = Ok (Inl session)" "client_index_for_token api r token = Ok i"
      "\<not> authentication_blocked r (cl_id (clients r ! i)) (proxy_key (cl_id (clients r ! i))) epoch"
      "admit_session api (cl_id (clients r ! i)) FORWARD_PROXY_DEVICE_ID r = (session, r')"
  | (enrol) i d where "client_index_for_token api r token = Ok i" "r' = r"
      "\<not> authentication_blocked r (cl_id (clients r ! i)) (proxy_key (cl_id (clients r ! i))) epoch"
      "FORWARD_PROXY_DEVICE_ID \<notin> dv_id ` set (cl_devices (clients r ! i))" "dv_id d = FORWARD_PROXY_DEVICE_ID"
      "length (cl_devices (clients r ! i)) < cl_max_devices (clients r ! i)"
      "res = Ok (Inr (cl_id (clients r ! i), (clients r)[i := with_devices (\<lambda>ds. ds @ [d]) (clients r ! i)]))"
proof (cases "rbind (ensure_open r) (\<lambda>_. client_index_for_token api r token)")
  case (Inl e)
  then show ?thesis using assms refused [of e] by (simp add: slow_proxy_def)
next
  case (Inr i)
  then have i: "client_index_for_token api r token = Ok i" by (auto simp: ensure_open_def split: if_splits)
  let ?c = "clients r ! i"
  show ?thesis
  proof (cases "find is_proxy (cl_devices ?c)")
    case None
    then have "FORWARD_PROXY_DEVICE_ID \<notin> dv_id ` set (cl_devices ?c)" by (auto simp: find_None_iff)
    then show ?thesis
      using assms Inr None i refused enrol [of i "\<lparr>dv_id = FORWARD_PROXY_DEVICE_ID, dv_name = FORWARD_PROXY_DEVICE_NAME,
          dv_public_key = [], dv_first_seen = now, dv_last_seen = now\<rparr>"]
      by (auto simp: slow_proxy_def Let_def not_le split: if_splits)
  next
    case (Some d)
    then show ?thesis
      using assms Inr i refused admitted by (auto simp: slow_proxy_def Let_def split: if_splits prod.splits)
  qed
qed

subsection \<open>Changes of the roster\<close>

lemma find_has_id:
  assumes "distinct (map cl_id cs)" and "n < length cs"
  shows "find (has_id (cl_id (cs ! n))) cs = Some (cs ! n)"
proof (cases "find (has_id (cl_id (cs ! n))) cs")
  case None
  then have "\<forall>c \<in> set cs. cl_id c \<noteq> cl_id (cs ! n)" by (auto simp: find_None_iff)
  then show ?thesis using nth_mem [OF assms(2)] by blast
next
  case (Some c)
  then obtain m where "m < length cs" "c = cs ! m" "cl_id (cs ! m) = cl_id (cs ! n)" by (auto simp: find_Some_iff)
  then have "m = n" using assms by (metis distinct_conv_nth length_map nth_map)
  then show ?thesis using Some \<open>c = cs ! m\<close> by simp
qed

lemma roster_entry_devices [simp]:
  "roster_entry (c\<lparr>cl_devices := ds\<rparr>) = (cl_id c, cl_token_hash c, cl_max_devices c, map dv_id ds)"
  by (simp add: roster_entry_def)

lemma enrolled_nth:
  assumes "distinct (map cl_id cs)" and "n < length cs" and "dv_id d = device"
  shows "roster (cs[n := with_devices (\<lambda>ds. ds @ [d]) (cs ! n)]) = enrolled (cl_id (cs ! n)) device (roster cs)"
    and "last_device (cl_id (cs ! n)) (cs[n := with_devices (\<lambda>ds. ds @ [d]) (cs ! n)]) = Some d"
proof -
  let ?c = "with_devices (\<lambda>ds. ds @ [d]) (cs ! n)"
  show "roster (cs[n := ?c]) = enrolled (cl_id (cs ! n)) device (roster cs)"
    unfolding enrolled_def by (rule roster_update_nth [OF assms(1,2)]) (simp add: roster_entry_def assms(3))
  have "map cl_id (cs[n := ?c]) = map cl_id cs" using assms(2) by (simp add: map_update list_update_same_conv)
  then have "distinct (map cl_id (cs[n := ?c]))" using assms(1) by simp
  from find_has_id [OF this, of n] show "last_device (cl_id (cs ! n)) (cs[n := ?c]) = Some d"
    using assms(2) by (simp add: last_device_def)
qed

lemma roster_ok_enrolled:
  assumes "roster_ok ro" and "\<And>h m ds. (account, h, m, ds) \<in> set ro \<Longrightarrow> device \<notin> set ds \<and> length ds < m"
  shows "roster_ok (enrolled account device ro)"
proof -
  have ids: "map fst (enrolled account device ro) = map fst ro" by (simp add: enrolled_def)
  have "distinct ds \<and> length ds \<le> m" if entry: "(i, h, m, ds) \<in> set (enrolled account device ro)" for i h m ds
  proof (cases "i = account")
    case True
    then obtain es where "(account, h, m, es) \<in> set ro" "ds = es @ [device]"
      using entry by (auto simp: enrolled_def change_entry_def split: if_splits)
    then show ?thesis using assms by (fastforce simp: roster_ok_def)
  next
    case False
    then have "(i, h, m, ds) \<in> set ro" using entry by (auto simp: enrolled_def change_entry_def split: if_splits)
    then show ?thesis using assms(1) by (auto simp: roster_ok_def)
  qed
  then show ?thesis using assms(1) ids by (auto simp: roster_ok_def)
qed

lemma roster_unique:
  assumes "distinct (map cl_id cs)" and "n < length cs" and "(cl_id (cs ! n), e) \<in> set (roster cs)"
  shows "(cl_id (cs ! n), e) = roster_entry (cs ! n)"
proof -
  obtain m where m: "m < length cs" "(cl_id (cs ! n), e) = roster_entry (cs ! m)"
    using assms(3) by (auto simp: roster_def in_set_conv_nth)
  then have "cl_id (cs ! m) = cl_id (cs ! n)" by (simp add: roster_entry_def)
  then have "m = n" using assms(1,2) m(1) by (metis distinct_conv_nth length_map nth_map)
  then show ?thesis using m by simp
qed

lemma roster_ok_distinct: "roster_ok (roster cs) \<Longrightarrow> distinct (map cl_id cs)"
  by (simp add: roster_ok_def roster_ids)

text \<open>An enrolment that has been decided fits the roster.\<close>

lemma work_ok_enrol:
  assumes ok: "roster_ok (roster cs)" and n: "n < length cs" and d: "dv_id d = device" "device \<notin> dv_id ` set (cl_devices (cs ! n))"
    "length (cl_devices (cs ! n)) < cl_max_devices (cs ! n)"
    and w: "enrols w = Some (cl_id (cs ! n), device)" "planned w (roster cs) = enrolled (cl_id (cs ! n)) device (roster cs)"
    "candidate_of w = Some (cs[n := with_devices (\<lambda>ds. ds @ [d]) (cs ! n)])" "\<not> written w"
  shows "work_ok api disk (roster cs) w"
proof -
  note dist = roster_ok_distinct [OF ok]
  have "device \<notin> set ds \<and> length ds < m" if "(cl_id (cs ! n), h, m, ds) \<in> set (roster cs)" for h m ds
    using roster_unique [OF dist n that] d by (auto simp: roster_entry_def)
  then have "roster_ok (enrolled (cl_id (cs ! n)) device (roster cs))" using roster_ok_enrolled [OF ok] by blast
  then show ?thesis
    using enrolled_nth [OF dist n d(1)] w d(1) n by (auto simp: work_ok_def)
qed

lemma roster_remove_nth [simp]: "roster (remove_nth n cs) = remove_nth n (roster cs)"
  by (simp add: roster_def remove_nth_def take_map drop_map)

lemma roster_ok_change:
  assumes "roster_ok ro" and "\<And>h m ds. (i, h, m, ds) \<in> set ro \<Longrightarrow> distinct ds \<Longrightarrow> length ds \<le> m \<Longrightarrow>
    distinct (snd (snd (f (h, m, ds)))) \<and> length (snd (snd (f (h, m, ds)))) \<le> fst (snd (f (h, m, ds)))"
  shows "roster_ok (change_entry i f ro)"
proof -
  have "distinct ds \<and> length ds \<le> m" if entry: "(j, h, m, ds) \<in> set (change_entry i f ro)" for j h m ds
  proof (cases "j = i")
    case True
    then obtain h' m' es where e: "(i, h', m', es) \<in> set ro" "f (h', m', es) = (h, m, ds)"
      using entry by (auto simp: change_entry_def split: if_splits)
    then have "distinct es \<and> length es \<le> m'" using assms(1) by (auto simp: roster_ok_def)
    then show ?thesis using assms(2) [OF e(1)] e(2) by simp
  next
    case False
    then have "(j, h, m, ds) \<in> set ro" using entry by (auto simp: change_entry_def split: if_splits)
    then show ?thesis using assms(1) by (auto simp: roster_ok_def)
  qed
  then show ?thesis using assms(1) by (auto simp: roster_ok_def)
qed

lemma roster_find:
  assumes "roster_ok (roster cs)" and "find (has_id i) cs = Some c" and "(i, h, m, ds) \<in> set (roster cs)"
  shows "ds = map dv_id (cl_devices c) \<and> m = cl_max_devices c"
proof -
  obtain n where n: "n < length cs" "c = cs ! n" "cl_id c = i" using assms(2) by (auto simp: find_Some_iff)
  then show ?thesis using roster_unique [OF roster_ok_distinct [OF assms(1)] n(1), of "(h, m, ds)"] assms(3) by (auto simp: roster_entry_def)
qed

lemma roster_ok_planned_change:
  assumes ok: "roster_ok ro"
    and create: "\<And>c. change = CreateClient c \<Longrightarrow> cl_id c \<notin> fst ` set ro \<and> cl_devices c = []"
    and limit: "\<And>i name m enabled h m' ds. change = UpdateClient i name m enabled \<Longrightarrow> (i, h, m', ds) \<in> set ro \<Longrightarrow> length ds \<le> m"
  shows "roster_ok (planned_change change ro)"
proof (cases change)
  case (CreateClient c)
  then show ?thesis using ok create [OF CreateClient] by (auto simp: roster_ok_def roster_entry_def)
next
  case (UpdateClient i name m enabled)
  then show ?thesis using roster_ok_change [OF ok, of i "\<lambda>(h, _, ds). (h, m, ds)"] limit by simp
next
  case (RotateToken i h)
  then show ?thesis using roster_ok_change [OF ok, of i "\<lambda>(_, m, ds). (h, m, ds)"] by simp
next
  case (DeleteClient i n)
  have "set (remove_nth n ro) \<subseteq> set ro" by (rule set_remove_nth)
  then show ?thesis using DeleteClient ok distinct_remove_nth [of fst ro n] by (auto simp: roster_ok_def)
next
  case (RetireDevice a d n)
  have "distinct (remove_nth n ds)" "length (remove_nth n ds) \<le> length ds" if "distinct ds" for ds :: "string list"
    using that distinct_remove_nth [of "\<lambda>x. x" ds n] by (simp_all add: remove_nth_def)
  then show ?thesis using RetireDevice roster_ok_change [OF ok, of a "\<lambda>(h, m, ds). (h, m, remove_nth n ds)"] by force
qed

lemma change_candidate:
  assumes "roster_ok (roster (clients r))" and "administer api req r = Ok w" and "w = ChangeWrite change cs"
  shows "roster cs = planned_change change (roster (clients r))"
proof -
  note dist = roster_ok_distinct [OF assms(1)]
  show ?thesis
  proof (cases req)
    case (AdminUpdate i name m enabled)
    then show ?thesis
      using assms(2,3) by (auto simp: update_client_def split: if_splits intro!: roster_update_first [OF dist]) (simp add: roster_entry_def)
  next
    case (AdminRotate i token)
    then show ?thesis
      using assms(2,3) by (auto simp: rotate_token_def split: if_splits intro!: roster_update_first [OF dist]) (simp add: roster_entry_def)
  next
    case (AdminRetire a d)
    then show ?thesis
      using assms(2,3) by (auto simp: retire_device_def intro!: roster_update_first [OF dist]) (simp add: roster_entry_def remove_nth_def take_map drop_map)
  qed (use assms(2,3) in \<open>auto simp: create_client_def delete_client_def Let_def\<close>)
qed

lemma work_ok_administer:
  assumes ok: "roster_ok (roster (clients r))" and w: "administer api req r = Ok w"
    and fresh: "draws_fresh (Administer req) s" and r: "r = reg s"
  shows "work_ok api disk (roster (clients r)) w"
proof (cases w)
  case (ChangeWrite change cs)
  have "roster_ok (planned_change change (roster (clients r)))"
  proof (rule roster_ok_planned_change [OF ok])
    fix c assume "change = CreateClient c"
    then show "cl_id c \<notin> fst ` set (roster (clients r)) \<and> cl_devices c = []"
      using w fresh r ChangeWrite
      by (cases req) (auto simp: create_client_def update_client_def rotate_token_def delete_client_def retire_device_def Let_def split: if_splits)
  next
    fix i name m enabled h m' ds assume "change = UpdateClient i name m enabled" and entry: "(i, h, m', ds) \<in> set (roster (clients r))"
    then obtain c where c: "find (has_id i) (clients r) = Some c" "length (cl_devices c) \<le> m"
      using w ChangeWrite
      by (cases req) (auto simp: create_client_def update_client_def rotate_token_def delete_client_def retire_device_def Let_def not_less split: if_splits)
    then show "length ds \<le> m" using roster_find [OF ok c(1) entry] by simp
  qed
  then show ?thesis using change_candidate [OF ok w ChangeWrite] ChangeWrite by (auto simp: work_ok_def)
next
  case (DrainStep target keep)
  then show ?thesis using ok by (auto intro: work_ok_none)
qed (use w in \<open>cases req; auto simp: check_disconnect_def\<close>)+

lemma enrol_device_roster:
  fixes cs :: "'tm client_record list"
  assumes "distinct (map cl_id cs)" and "enrol_device p en cs = Ok cs'"
    and "en_new en \<Longrightarrow> \<exists>d. last_device (en_account en) (en_candidate en) = Some d \<and> dv_id d = device_id_of p"
  shows "roster cs' = (if en_new en then enrolled (en_account en) (device_id_of p) (roster cs) else roster cs)"
proof (cases "en_new en")
  case True
  then obtain d where d: "last_device (en_account en) (en_candidate en) = Some d" "dv_id d = device_id_of p" using assms(3) by blast
  then have "cs' = update_first (has_id (en_account en)) (with_devices (\<lambda>ds. ds @ [d])) cs"
    using assms(2) True by (auto simp: enrol_device_def split: option.splits if_splits)
  then show ?thesis
    using True roster_update_first [OF assms(1), of "en_account en" "with_devices (\<lambda>ds. ds @ [d])" "\<lambda>(h, m, ds). (h, m, ds @ [device_id_of p])"] d(2)
    by (simp add: enrolled_def roster_entry_def)
next
  case False
  show ?thesis
  proof (cases "cs' = cs")
    case unchanged: False
    then have "\<exists>persisted :: 'tm device_record. cs' = update_first (has_id (en_account en))
        (with_devices (update_first (\<lambda>d. dv_id d = device_id_of p)
          (\<lambda>d. d\<lparr>dv_name := dv_name persisted, dv_last_seen := dv_last_seen persisted\<rparr>))) cs"
      using assms(2) False by (auto simp: enrol_device_def split: option.splits if_splits)
    then obtain persisted :: "'tm device_record" where "cs' = update_first (has_id (en_account en))
        (with_devices (update_first (\<lambda>d. dv_id d = device_id_of p)
          (\<lambda>d. d\<lparr>dv_name := dv_name persisted, dv_last_seen := dv_last_seen persisted\<rparr>))) cs" by blast
    moreover have "map roster_entry (update_first (has_id (en_account en))
        (with_devices (update_first (\<lambda>d. dv_id d = device_id_of p)
          (\<lambda>d. d\<lparr>dv_name := dv_name persisted, dv_last_seen := dv_last_seen persisted\<rparr>))) cs) = map roster_entry cs"
      by (rule update_first_map) (simp add: roster_entry_def update_first_map)
    ultimately show ?thesis using False by (simp add: roster_def)
  qed (use False in simp)
qed

lemma enrol_proxy_roster:
  assumes "roster_ok (roster cs)" and "enrol_proxy account candidate cs = Ok cs'"
    and d: "last_device account candidate = Some d" "dv_id d = FORWARD_PROXY_DEVICE_ID"
    and ok: "roster_ok (enrolled account FORWARD_PROXY_DEVICE_ID (roster cs))"
  shows "roster cs' = enrolled account FORWARD_PROXY_DEVICE_ID (roster cs)"
proof -
  obtain c where c: "find (has_id account) cs = Some c" using assms(2) by (auto simp: enrol_proxy_def split: option.splits)
  then have in_cs: "c \<in> set cs" "cl_id c = account" by (auto dest: find_in)
  then have "(account, cl_token_hash c, cl_max_devices c, map dv_id (cl_devices c) @ [FORWARD_PROXY_DEVICE_ID])
      \<in> set (enrolled account FORWARD_PROXY_DEVICE_ID (roster cs))"
    by (force simp: enrolled_def change_entry_def roster_def roster_entry_def)
  then have "FORWARD_PROXY_DEVICE_ID \<notin> dv_id ` set (cl_devices c)" using ok by (auto simp: roster_ok_def)
  then have "\<not> list_ex is_proxy (cl_devices c)" by (auto simp: list_ex_iff image_iff)
  then have "cs' = update_first (has_id account) (with_devices (\<lambda>ds. ds @ [d])) cs"
    using assms(2) c d(1) by (simp add: enrol_proxy_def)
  then show ?thesis
    using roster_update_first [OF roster_ok_distinct [OF assms(1)], of account "with_devices (\<lambda>ds. ds @ [d])"
        "\<lambda>(h, m, ds). (h, m, ds @ [FORWARD_PROXY_DEVICE_ID])"] d(2)
    by (simp add: enrolled_def roster_entry_def)
qed

lemma apply_change_roster:
  assumes "distinct (map cl_id (clients r))" and "apply_change api change r = (Ok u, r')"
  shows "roster (clients r') = planned_change change (roster (clients r))"
proof (cases change)
  case (UpdateClient i name m enabled)
  then have "clients r' = update_first (has_id i) (\<lambda>c. c\<lparr>cl_name := name, cl_max_devices := m, cl_enabled := enabled\<rparr>) (clients r)"
    using assms(2) by (auto split: if_splits)
  then show ?thesis
    using UpdateClient roster_update_first [OF assms(1), of i "\<lambda>c. c\<lparr>cl_name := name, cl_max_devices := m, cl_enabled := enabled\<rparr>" "\<lambda>(h, _, ds). (h, m, ds)"]
    by (simp add: roster_entry_def)
next
  case (RotateToken i h)
  then have "clients r' = update_first (has_id i) (\<lambda>c. c\<lparr>cl_token_hash := h\<rparr>) (clients r)"
    using assms(2) by (auto simp: rebuild_token_index_def split: if_splits)
  then show ?thesis
    using RotateToken roster_update_first [OF assms(1), of i "\<lambda>c. c\<lparr>cl_token_hash := h\<rparr>" "\<lambda>(_, m, ds). (h, m, ds)"]
    by (simp add: roster_entry_def)
next
  case (RetireDevice a d n)
  then have "clients r' = update_first (has_id a) (with_devices (remove_nth n)) (clients r)"
    using assms(2) by (auto split: if_splits option.splits)
  then show ?thesis
    using RetireDevice roster_update_first [OF assms(1), of a "with_devices (remove_nth n)" "\<lambda>(h, m, ds). (h, m, remove_nth n ds)"]
    by (simp add: roster_entry_def remove_nth_def take_map drop_map)
qed (use assms(2) in \<open>auto simp: rebuild_token_index_def split: if_splits\<close>)

lemma index_ok_hashes:
  "map cl_token_hash (clients r') = map cl_token_hash (clients r) \<Longrightarrow> token_index r' = token_index r \<Longrightarrow> index_ok api r \<Longrightarrow> index_ok api r'"
  using index_tokens_hashes [of "clients r'" "clients r" api 0 "[]"] by (simp add: index_ok_def)

lemma apply_change_index:
  assumes "index_ok api r" and "apply_change api change r = (res, r')"
  shows "index_ok api r'"
proof (cases change)
  case (UpdateClient i name m enabled)
  then show ?thesis using assms index_ok_hashes [of r' r api] by (auto simp: update_first_map split: if_splits)
next
  case (RetireDevice a d n)
  then show ?thesis using assms index_ok_hashes [of r' r api] by (auto simp: update_first_map split: if_splits option.splits)
qed (use assms in \<open>auto split: if_splits\<close>)

lemma apply_change_keeps:
  assumes "apply_change api change r = (res, r')"
  obtains cs ix where "r' = r\<lparr>clients := cs, token_index := ix\<rparr>" "\<And>e. res = Err e \<Longrightarrow> cs = clients r \<and> ix = token_index r"
  using assms that [where cs = "clients r'" and ix = "token_index r'"] that [where cs = "clients r" and ix = "token_index r"]
  by (cases change) (auto simp: rebuild_token_index_def split: if_splits option.splits)

subsection \<open>The invariant of the roster\<close>

lemma persist_clients_keeps:
  assumes "persist_clients api fs cs r = (res, r')"
  obtains sq disk err where
    "r' = r\<lparr>next_persist_sequence := next_persist_sequence r + 1, persisted_sequence := sq, durability_error := err, registry_file := disk\<rparr>"
  using assms that [where sq = "persisted_sequence r'" and disk = "registry_file r'" and err = "durability_error r'"]
  by (auto simp: persist_clients_def persist_task_def Let_def split: sum.splits prod.splits if_splits)

lemma sequence_up:
  assumes "unat (q :: u64) \<le> n" and "n < 2 ^ 64 - 1"
  shows "unat (q + 1) = unat q + 1" and "p \<le> q \<Longrightarrow> p \<le> q + 1" and "p \<le> q \<Longrightarrow> \<not> q + 1 \<le> p"
proof -
  show up: "unat (q + 1) = unat q + 1"
    using assms by (intro unat_plus_simple [THEN iffD1, THEN trans]) (simp_all add: word_le_nat_alt unat_word_ariths)
  then show "p \<le> q \<Longrightarrow> p \<le> q + 1" and "p \<le> q \<Longrightarrow> \<not> q + 1 \<le> p" by (auto simp: word_le_nat_alt)
qed

lemma persist_clients_Ok:
  assumes "persist_clients api fs cs r = (Ok u, r')" and "persisted_sequence r \<le> next_persist_sequence r"
    and "unat (next_persist_sequence r) \<le> n" and "n < 2 ^ 64 - 1"
  shows "(\<exists>json. encode_registry api cs = Ok json \<and> registry_file r' = Some (json @ [0x0A]))
    \<and> persisted_sequence r' = next_persist_sequence r'"
proof -
  have "\<not> next_persist_sequence r + 1 \<le> persisted_sequence r" by (rule sequence_up(3) [OF assms(3,4,2)])
  then show ?thesis
    using assms(1) by (auto simp: persist_clients_def persist_task_def atomic_write_registry_def Let_def split: sum.splits prod.splits if_splits)
qed

lemma persist_clients_sequence:
  assumes "persist_clients api fs cs r = (res, r')" and "persisted_sequence r \<le> next_persist_sequence r"
    and "unat (next_persist_sequence r) \<le> n" and "n < 2 ^ 64 - 1"
  shows "persisted_sequence r' \<le> next_persist_sequence r'" and "unat (next_persist_sequence r') \<le> Suc n"
proof -
  note up = sequence_up(1) [OF assms(3,4)]
  have "persisted_sequence r' \<in> {persisted_sequence r, next_persist_sequence r + 1}" and nx: "next_persist_sequence r' = next_persist_sequence r + 1"
    using assms(1) by (auto simp: persist_clients_def persist_task_def Let_def split: sum.splits prod.splits if_splits)
  then show "persisted_sequence r' \<le> next_persist_sequence r'" using up assms(2) by (auto simp: word_le_nat_alt)
  show "unat (next_persist_sequence r') \<le> Suc n" using up nx assms(3) by simp
qed

lemma stage_simps [simp]:
  "reg (set_stage i st s) = reg s" "work (set_stage i st s) = work s" "held (set_stage i st s) = held s"
  "retirements (set_stage i st s) = retirements s" "length (attempts (set_stage i st s)) = length (attempts s)"
  "reg (accept i session s) = reg s" "work (accept i session s) = work s" "retirements (accept i session s) = retirements s"
  "held (accept i session s) = (authenticated_guard session, i) # held s" "length (attempts (accept i session s)) = length (attempts s)"
  by (simp_all add: set_stage_def accept_def)

lemma abandon_simps [simp]: "reg (abandon s) = reg s" "work (abandon s) = Idle" "held (abandon s) = held s"
  "retirements (abandon s) = retirements s" "length (attempts (abandon s)) = length (attempts s)"
  by (simp_all add: abandon_def Let_def split: option.split)

lemma frame_nonces [simp]: "frame (r\<lparr>nonces := ns\<rparr>) = frame r" "frame (r\<lparr>sessions := ss\<rparr>) = frame r"
  by (simp_all add: frame_def)

lemma admit_session_frame: "admit_session api a d r = (session, r') \<Longrightarrow> frame r' = frame r"
  using admit_session_keeps by fastforce

lemma admit_device_frame: "admit_device api a p v r = (session, r') \<Longrightarrow> frame r' = frame r"
  using admit_device_keeps [of api a p v r session r']
    remember_nonce_keeps [of api "\<lparr>dk_account = a, dk_device = device_id_of p\<rparr>" "nonce_of p" "signed_at v" r] by auto

lemma gate_frame: "device_gate api token p v now epoch r = (res, r') \<Longrightarrow> frame r' = frame r \<and> clients r' = clients r"
  by (erule device_gate_cases) simp_all

lemma fast_frame:
  "fast_device api token p v now epoch r = (res, r') \<Longrightarrow> frame r' = frame r"
  "fast_proxy api token now epoch r = (res, r') \<Longrightarrow> frame r' = frame r"
proof -
  show "frame r' = frame r" if "fast_device api token p v now epoch r = (res, r')" using that
  proof (cases rule: fast_device_cases)
    case (admitted session i r1)
    then show ?thesis using gate_frame [OF admitted(2)] admit_device_frame [OF admitted(3)] by simp
  qed simp_all
  show "frame r' = frame r" if "fast_proxy api token now epoch r = (res, r')" using that
  proof (cases rule: fast_proxy_cases)
    case (admitted session i cs dirty version)
    then show ?thesis using admit_session_frame [OF admitted(5)] by (simp add: frame_def)
  qed simp_all
qed

lemma run_fast_cases:
  obtains (other) "run_fast api i s = s"
  | (device) token p verb path v now res r' where
      "at_request (attempts s ! i) = DeviceRequest token p verb path" "at_stage (attempts s ! i) = DeviceFast v now"
      "fast_device api token p v now (at_epoch (attempts s ! i)) (reg s) = (res, r')"
      "run_fast api i s = (case res of
          Err _ \<Rightarrow> set_stage i Finished (s\<lparr>reg := r'\<rparr>)
        | Ok None \<Rightarrow> set_stage i (DeviceSlow v now) (s\<lparr>reg := r'\<rparr>)
        | Ok (Some session) \<Rightarrow> accept i session (s\<lparr>reg := r'\<rparr>))"
  | (proxy) token now res r' where
      "at_request (attempts s ! i) = ProxyRequest token" "at_stage (attempts s ! i) = ProxyFast now"
      "fast_proxy api token now (at_epoch (attempts s ! i)) (reg s) = (res, r')"
      "run_fast api i s = (case res of
          Err _ \<Rightarrow> set_stage i Finished (s\<lparr>reg := r'\<rparr>)
        | Ok None \<Rightarrow> set_stage i (ProxySlow now) (s\<lparr>reg := r'\<rparr>)
        | Ok (Some session) \<Rightarrow> accept i session (s\<lparr>reg := r'\<rparr>))"
proof (cases "at_request (attempts s ! i)")
  case (DeviceRequest token p verb path)
  show ?thesis
  proof (cases "at_stage (attempts s ! i)")
    case (DeviceFast v now)
    obtain res r' where "fast_device api token p v now (at_epoch (attempts s ! i)) (reg s) = (res, r')" by fastforce
    then show ?thesis using device [OF DeviceRequest DeviceFast] DeviceRequest DeviceFast
      by (simp add: run_fast_def Let_def split: sum.split option.split)
  qed (use DeviceRequest other in \<open>simp_all add: run_fast_def Let_def\<close>)
next
  case (ProxyRequest token)
  show ?thesis
  proof (cases "at_stage (attempts s ! i)")
    case (ProxyFast now)
    obtain res r' where "fast_proxy api token now (at_epoch (attempts s ! i)) (reg s) = (res, r')" by fastforce
    then show ?thesis using proxy [OF ProxyRequest ProxyFast] ProxyRequest ProxyFast
      by (simp add: run_fast_def Let_def split: sum.split option.split)
  qed (use ProxyRequest other in \<open>simp_all add: run_fast_def Let_def\<close>)
qed

lemma take_lock_cases:
  obtains (other) "take_lock api i s = s"
  | (device) token p verb path v now res r' where
      "at_request (attempts s ! i) = DeviceRequest token p verb path" "at_stage (attempts s ! i) = DeviceSlow v now"
      "slow_device api token p v now (at_epoch (attempts s ! i)) (reg s) = (res, r')"
      "take_lock api i s = (case res of
          Err _ \<Rightarrow> set_stage i Finished (s\<lparr>reg := r'\<rparr>)
        | Ok (Inl session) \<Rightarrow> accept i session (s\<lparr>reg := r'\<rparr>)
        | Ok (Inr en) \<Rightarrow> s\<lparr>reg := r', work := EnrolWrite i p v en\<rparr>)"
  | (proxy) token now res r' where
      "at_request (attempts s ! i) = ProxyRequest token" "at_stage (attempts s ! i) = ProxySlow now"
      "slow_proxy api token now (at_epoch (attempts s ! i)) (reg s) = (res, r')"
      "take_lock api i s = (case res of
          Err _ \<Rightarrow> set_stage i Finished (s\<lparr>reg := r'\<rparr>)
        | Ok (Inl session) \<Rightarrow> accept i session (s\<lparr>reg := r'\<rparr>)
        | Ok (Inr (account, candidate)) \<Rightarrow> s\<lparr>reg := r', work := ProxyWrite i account candidate\<rparr>)"
proof (cases "at_request (attempts s ! i)")
  case (DeviceRequest token p verb path)
  show ?thesis
  proof (cases "at_stage (attempts s ! i)")
    case (DeviceSlow v now)
    obtain res r' where "slow_device api token p v now (at_epoch (attempts s ! i)) (reg s) = (res, r')" by fastforce
    then show ?thesis using device [OF DeviceRequest DeviceSlow] DeviceRequest DeviceSlow
      by (simp add: take_lock_def Let_def split: sum.split)
  qed (use DeviceRequest other in \<open>simp_all add: take_lock_def Let_def\<close>)
next
  case (ProxyRequest token)
  show ?thesis
  proof (cases "at_stage (attempts s ! i)")
    case (ProxySlow now)
    obtain res r' where "slow_proxy api token now (at_epoch (attempts s ! i)) (reg s) = (res, r')" by fastforce
    then show ?thesis using proxy [OF ProxyRequest ProxySlow] ProxyRequest ProxySlow
      by (simp add: take_lock_def Let_def split: sum.split prod.split)
  qed (use ProxyRequest other in \<open>simp_all add: take_lock_def Let_def\<close>)
qed

lemma run_fast_frame: "frame (reg (run_fast api i s)) = frame (reg s) \<and> work (run_fast api i s) = work s"
  by (rule run_fast_cases [of api i s]) (auto dest: fast_frame split: sum.split option.split)

lemma sys_ok_take_lock:
  assumes ok: "sys_ok api n s" and idle: "work s = Idle"
  shows "sys_ok api (Suc n) (take_lock api i s)"
proof -
  let ?a = "attempts s ! i" and ?s' = "take_lock api i s"
  note ro = ok [unfolded sys_ok_def, THEN conjunct1]
  note dist = roster_ok_distinct [OF ro]
  show ?thesis
  proof (cases rule: take_lock_cases [of api i s])
    case (device token p verb path v now res r')
    note slow = device(3,4)
    from device(3) show ?thesis
    proof (cases rule: slow_device_cases)
      case (refused e ns)
      then show ?thesis using slow(2) by (intro sys_ok_frame [OF ok]) simp_all
    next
      case (admitted session j r1)
      have "frame r' = frame (reg s)" using gate_frame [OF admitted(2)] admit_device_frame [OF admitted(3)] by simp
      then show ?thesis using admitted slow(2) by (intro sys_ok_frame [OF ok]) simp_all
    next
      case (rewrite j ns k d)
      have j: "client_index_for_token api (reg s) token = Ok j" using rewrite(1) by (auto elim: device_gate_cases)
      then have j: "j < length (clients (reg s))" using client_index_Ok ok by (fastforce simp: sys_ok_def)
      have "map dv_id ((cl_devices (clients (reg s) ! j))[k := d]) = map dv_id (cl_devices (clients (reg s) ! j))"
        using rewrite(3-5) by (simp add: map_update list_update_same_conv)
      then have "roster_entry (with_devices (\<lambda>ds. ds[k := d]) (clients (reg s) ! j)) = roster_entry (clients (reg s) ! j)"
        by (simp add: roster_entry_def)
      then have "roster ((clients (reg s))[j := with_devices (\<lambda>ds. ds[k := d]) (clients (reg s) ! j)]) = ro_of s"
        using j by (simp only: roster_update roster_simps(5) [symmetric] list_update_id)
      then have "work_ok api (registry_file (reg s)) (ro_of s) (work ?s')"
        using rewrite(6) slow(2) ro by (auto simp: work_ok_def)
      then show ?thesis
        using ok rewrite(2,6) slow(2) by (auto simp: sys_ok_def index_ok_def)
    next
      case (enrol j ns d)
      have j: "client_index_for_token api (reg s) token = Ok j" using enrol(1) by (auto elim: device_gate_cases)
      then have j: "j < length (clients (reg s))" using client_index_Ok ok by (fastforce simp: sys_ok_def)
      have "work_ok api (registry_file (reg s)) (ro_of s) (work ?s')"
        by (rule work_ok_enrol [OF ro j enrol(4,3,5)]) (use enrol(6) slow(2) in simp_all)
      then show ?thesis
        using ok enrol(2,6) slow(2) by (auto simp: sys_ok_def index_ok_def)
    qed
  next
    case (proxy token now res r')
    note slow = proxy(3,4)
    from proxy(3) show ?thesis
    proof (cases rule: slow_proxy_cases)
      case (refused e)
      then show ?thesis using slow(2) by (intro sys_ok_frame [OF ok]) simp_all
    next
      case (admitted session j)
      have "frame r' = frame (reg s)" using admit_session_frame [OF admitted(4)] by simp
      then show ?thesis using admitted slow(2) by (intro sys_ok_frame [OF ok]) simp_all
    next
      case (enrol j d)
      have j: "j < length (clients (reg s))" using client_index_Ok enrol(1) ok by (fastforce simp: sys_ok_def)
      have "work_ok api (registry_file (reg s)) (ro_of s) (work ?s')"
        by (rule work_ok_enrol [OF ro j enrol(5,4,6)]) (use enrol(7) slow(2) in simp_all)
      then show ?thesis
        using ok enrol(2,7) slow(2) by (auto simp: sys_ok_def)
    qed
  next
    case other
    then show ?thesis using sys_ok_frame [OF ok] by simp
  qed
qed

lemma drop_attempt_frame: "frame (drop_attempt epoch r) = frame r"
  by (simp add: drop_attempt_def prune_disconnects_def frame_def Let_def)

lemma drain_frame: "frame (begin_target_drain t r) = frame r" "frame (finish_drain t r) = frame r"
  "frame (forget_nonces t r) = frame r" "frame (flush_commit v r) = frame r"
  by (simp_all add: frame_def finish_drain_def forget_nonces_def flush_commit_def prune_disconnects_def Let_def split: drain_target.split)
    (cases t; simp add: frame_def Let_def)

lemma cancel_frame: "cancel_target t r = (ws, r') \<Longrightarrow> frame r' = frame r"
  by (auto simp: cancel_target_def split: prod.splits)

lemma pending_write_work:
  assumes "pending_write w = Some (cs, following)"
  shows "candidate_of w = Some cs" and "planned following ro = planned w ro" and "enrols following = enrols w"
    and "candidate_of following \<in> {None, Some cs}" and "\<not> written w" and "candidate_of following = None \<Longrightarrow> enrols following = None"
  using assms by (cases w; auto)+

text \<open>A write that ends, well or not, changes neither the clients nor what the tasks that are detached will do.\<close>

lemma persist_clients_sys:
  assumes w: "persist_clients api fs cs (reg s) = (res, r')" and ok: "sys_ok api n s" and n: "n < 2 ^ 64 - 1"
  shows "clients r' = clients (reg s)" and "token_index r' = token_index (reg s)"
    and "persisted_sequence r' \<le> next_persist_sequence r'" and "unat (next_persist_sequence r') \<le> Suc n"
    and "\<forall>(q, _) \<in> set (detached r'). q \<le> next_persist_sequence r'"
proof -
  obtain sq disk err where r': "r' = (reg s)\<lparr>next_persist_sequence := next_persist_sequence (reg s) + 1,
      persisted_sequence := sq, durability_error := err, registry_file := disk\<rparr>"
    using persist_clients_keeps [OF w] by blast
  then show "clients r' = clients (reg s)" "token_index r' = token_index (reg s)" by simp_all
  show "persisted_sequence r' \<le> next_persist_sequence r'" "unat (next_persist_sequence r') \<le> Suc n"
    using persist_clients_sequence [OF w] ok n by (auto simp: sys_ok_def)
  have "unat (next_persist_sequence (reg s)) \<le> n" using ok by (simp add: sys_ok_def)
  then show "\<forall>(q, _) \<in> set (detached r'). q \<le> next_persist_sequence r'"
    using ok r' sequence_up(2) [OF _ n] by (auto simp: sys_ok_def)
qed

lemma sys_ok_write:
  assumes ok: "sys_ok api n s" and n: "n < 2 ^ 64 - 1"
  shows "sys_ok api (Suc n) (write_file api fs s)"
proof (cases "pending_write (work s)")
  case None
  then show ?thesis using sys_ok_frame [OF ok] by (simp add: write_file_def)
next
  case (Some x)
  obtain cs following where x: "pending_write (work s) = Some (cs, following)" using Some by (cases x) auto
  obtain res r' where w: "persist_clients api fs cs (reg s) = (res, r')" by fastforce
  note same = persist_clients_sys [OF w ok n]
  show ?thesis
  proof (cases res)
    case (Inl e)
    then show ?thesis using ok x w same by (auto simp: sys_ok_def write_file_def index_ok_def intro: work_ok_none)
  next
    case (Inr u)
    have disk: "(\<exists>json. encode_registry api cs = Ok json \<and> registry_file r' = Some (json @ [0x0A]))
        \<and> persisted_sequence r' = next_persist_sequence r'"
      using persist_clients_Ok [OF w [unfolded Inr]] ok n by (auto simp: sys_ok_def)
    have "work_ok api (registry_file r') (ro_of s) following"
      using ok pending_write_work [OF x] disk by (auto simp: sys_ok_def work_ok_def)
    then show ?thesis using ok x w same Inr disk by (auto simp: sys_ok_def write_file_def index_ok_def)
  qed
qed

lemma detach_write_sys:
  assumes ok: "sys_ok api n s" and n: "n < 2 ^ 64 - 1"
  shows "sys_ok api (Suc n) (abandon (s\<lparr>reg := detach_write api cs (reg s)\<rparr>))"
proof -
  have q: "unat (next_persist_sequence (reg s)) \<le> n" "persisted_sequence (reg s) \<le> next_persist_sequence (reg s)"
    "\<forall>(q, _) \<in> set (detached (reg s)). q \<le> next_persist_sequence (reg s)"
    using ok by (simp_all add: sys_ok_def)
  note up = sequence_up [OF q(1) n]
  show ?thesis
    using ok q up(1) up(2) by (auto simp: sys_ok_def detach_write_def index_ok_def Let_def split: sum.split intro: work_ok_none)
qed

lemma sys_ok_give_up:
  assumes ok: "sys_ok api n s" and n: "n < 2 ^ 64 - 1"
  shows "sys_ok api (Suc n) (give_up api s)"
proof -
  have idle: "sys_ok api (Suc n) (s\<lparr>work := Idle, reg := finish_drain t (reg s)\<rparr>)" for t
    by (rule sys_ok_work [OF ok]) (simp_all add: drain_frame)
  then show ?thesis
    using detach_write_sys [OF ok n] sys_ok_frame [OF ok, of s] by (auto simp: give_up_def split: work.split option.split)
qed

text \<open>While an operation is between its write and its commit no detached task changes the file: they all are
  older.\<close>

lemma persist_task_keeps:
  "\<exists>disk sq err. snd (persist_task fs q data r) = r\<lparr>registry_file := disk, persisted_sequence := sq, durability_error := err\<rparr>
    \<and> sq \<in> {persisted_sequence r, q} \<and> (q \<le> persisted_sequence r \<longrightarrow> disk = registry_file r \<and> sq = persisted_sequence r)"
proof -
  obtain res disk where w: "atomic_write_registry fs data (registry_file r) = (res, disk)" by fastforce
  show ?thesis
  proof (cases "q \<le> persisted_sequence r")
    case True
    then show ?thesis
      by (intro exI [of _ "registry_file r"] exI [of _ "persisted_sequence r"] exI [of _ "durability_error r"]) (simp add: persist_task_def)
  next
    case False
    then show ?thesis using w
      by (cases res) (force simp: persist_task_def intro: exI [of _ "persisted_sequence r"] exI [of _ "durability_error r"])+
  qed
qed

lemma persist_task_clients [simp]: "clients (snd (persist_task fs q data r)) = clients r"
  using persist_task_keeps [of fs q data r] by auto

lemma sys_ok_run_detached:
  assumes ok: "sys_ok api n s"
  shows "sys_ok api (Suc n) (s\<lparr>reg := run_detached fs k (reg s)\<rparr>)"
proof (cases "k < length (detached (reg s))")
  case True
  obtain q data where d: "detached (reg s) ! k = (q, data)" by fastforce
  then have "(q, data) \<in> set (detached (reg s))" using True by (metis nth_mem)
  then have q: "q \<le> next_persist_sequence (reg s)" using ok by (auto simp: sys_ok_def)
  obtain disk sq err where t: "snd (persist_task fs q data (reg s)) = (reg s)\<lparr>registry_file := disk, persisted_sequence := sq, durability_error := err\<rparr>"
      "sq \<in> {persisted_sequence (reg s), q}" "q \<le> persisted_sequence (reg s) \<longrightarrow> disk = registry_file (reg s) \<and> sq = persisted_sequence (reg s)"
    using persist_task_keeps [of fs q data "reg s"] by blast
  have "work_ok api disk (ro_of s) (work s)" using ok t(3) q by (auto simp: sys_ok_def work_ok_def)
  then show ?thesis
    using ok True d t q set_remove_nth [of k "detached (reg s)"] by (auto simp: sys_ok_def run_detached_def index_ok_def)
next
  case False
  then show ?thesis using sys_ok_frame [OF ok] by (simp add: run_detached_def)
qed

text \<open>The commit of the work in progress: the roster becomes what was planned and written.\<close>

lemma commit_device_frame:
  assumes "commit_device api p v en r = (Ok session, r')"
  shows "\<exists>cs. enrol_device p en (clients r) = Ok cs \<and> frame r' = frame (r\<lparr>clients := cs\<rparr>) \<and> clients r' = cs"
proof -
  obtain cs where cs: "enrol_device p en (clients r) = Ok cs" using assms by (auto simp: commit_device_def split: sum.splits)
  then have adm: "admit_device api (en_account en) p v (r\<lparr>clients := cs\<rparr>) = (session, r')"
    using assms by (auto simp: commit_device_def split: prod.splits)
  obtain ns where "remember_nonce api \<lparr>dk_account = en_account en, dk_device = device_id_of p\<rparr> (nonce_of p) (signed_at v) (r\<lparr>clients := cs\<rparr>)
      = r\<lparr>clients := cs, nonces := ns\<rparr>" using remember_nonce_keeps by blast
  then have "clients r' = cs" using admit_device_keeps [OF adm] by auto
  then show ?thesis using cs admit_device_frame [OF adm] by blast
qed

lemma commit_proxy_frame:
  assumes "commit_proxy api account candidate r = (Ok session, r')"
  shows "\<exists>cs. enrol_proxy account candidate (clients r) = Ok cs \<and> frame r' = frame (r\<lparr>clients := cs\<rparr>) \<and> clients r' = cs"
proof -
  obtain cs where cs: "enrol_proxy account candidate (clients r) = Ok cs" using assms by (auto simp: commit_proxy_def split: sum.splits)
  then have adm: "admit_session api account FORWARD_PROXY_DEVICE_ID (r\<lparr>clients := cs\<rparr>) = (session, r')"
    using assms by (auto simp: commit_proxy_def split: prod.splits)
  then have "clients r' = cs" using admit_session_keeps [OF adm] by auto
  then show ?thesis using cs admit_session_frame [OF adm] by blast
qed

lemma roster_hash_change:
  assumes "roster cs' = (if b then enrolled a d (roster cs) else roster cs)"
  shows "map cl_token_hash cs' = map cl_token_hash cs"
proof -
  have "map (\<lambda>e. fst (snd e)) (enrolled a d ro) = map (\<lambda>e. fst (snd e)) ro" for ro
    by (induction ro) (auto simp: enrolled_def split: prod.splits)
  then show ?thesis using assms unfolding roster_hashes [symmetric] by (auto split: if_splits)
qed

definition committed :: "('pk, 'sg, 'tm) registry_api \<Rightarrow> 'tm registry_system \<Rightarrow> 'tm registry \<Rightarrow> bool" where
  "committed api s r' \<longleftrightarrow> written (work s) \<and> roster (clients r') = planned (work s) (ro_of s) \<and> index_ok api r'
    \<and> registry_file r' = registry_file (reg s) \<and> detached r' = detached (reg s)
    \<and> persisted_sequence r' = persisted_sequence (reg s) \<and> next_persist_sequence r' = next_persist_sequence (reg s)"

lemma enrol_committed:
  assumes ok: "sys_ok api n s" and w: "work s = EnrolCommit i p v en" and c: "commit_device api p v en (reg s) = (Ok session, r')"
  shows "committed api s r'"
proof -
  from commit_device_frame [OF c] obtain cs where
    cs: "enrol_device p en (clients (reg s)) = Ok cs" "frame r' = frame ((reg s)\<lparr>clients := cs\<rparr>)" "clients r' = cs" by blast
  have dist: "distinct (map cl_id (clients (reg s)))" using ok roster_ok_distinct by (auto simp: sys_ok_def)
  have "\<exists>d. last_device (en_account en) (en_candidate en) = Some d \<and> dv_id d = device_id_of p" if "en_new en"
    using ok w that by (auto simp: sys_ok_def work_ok_def)
  from enrol_device_roster [OF dist cs(1) this]
  have plan: "roster cs = (if en_new en then enrolled (en_account en) (device_id_of p) (ro_of s) else ro_of s)" .
  have "index_ok api r'"
    using index_ok_hashes [of r' "reg s" api] roster_hash_change [OF plan] cs ok by (simp add: sys_ok_def frame_def)
  then show ?thesis using plan cs w by (simp add: committed_def frame_def)
qed

lemma proxy_committed:
  assumes ok: "sys_ok api n s" and w: "work s = ProxyCommit i account candidate"
    and c: "commit_proxy api account candidate (reg s) = (Ok session, r')"
  shows "committed api s r'"
proof -
  from commit_proxy_frame [OF c] obtain cs where
    cs: "enrol_proxy account candidate (clients (reg s)) = Ok cs" "frame r' = frame ((reg s)\<lparr>clients := cs\<rparr>)" "clients r' = cs" by blast
  obtain d where d: "last_device account candidate = Some d" "dv_id d = FORWARD_PROXY_DEVICE_ID"
    using ok w by (auto simp: sys_ok_def work_ok_def)
  have "roster_ok (ro_of s)" "roster_ok (enrolled account FORWARD_PROXY_DEVICE_ID (ro_of s))"
    using ok w by (auto simp: sys_ok_def work_ok_def)
  from enrol_proxy_roster [OF this(1) cs(1) d this(2)]
  have plan: "roster cs = (if True then enrolled account FORWARD_PROXY_DEVICE_ID (ro_of s) else ro_of s)" by simp
  have "index_ok api r'"
    using index_ok_hashes [of r' "reg s" api] roster_hash_change [OF plan] cs ok by (simp add: sys_ok_def frame_def)
  then show ?thesis using plan cs w by (simp add: committed_def frame_def)
qed

lemma change_committed:
  assumes ok: "sys_ok api n s" and w: "work s = ChangeCommit change candidate" and c: "apply_change api change (reg s) = (Ok u, r')"
  shows "committed api s r'"
proof -
  have dist: "distinct (map cl_id (clients (reg s)))" using ok roster_ok_distinct by (auto simp: sys_ok_def)
  obtain cs ix where "r' = (reg s)\<lparr>clients := cs, token_index := ix\<rparr>" using apply_change_keeps [OF c] by blast
  moreover have "index_ok api r'" using apply_change_index [OF _ c] ok by (simp add: sys_ok_def)
  ultimately show ?thesis using apply_change_roster [OF dist c] w by (simp add: committed_def)
qed

text \<open>A step of the work in progress keeps the roster, or it commits a change.\<close>

lemma proceed_effect:
  assumes ok: "sys_ok api n s"
  shows "frame (reg (proceed api s)) = frame (reg s) \<and> work (proceed api s) = work s
    \<or> planned (work (proceed api s)) ro = ro \<and> candidate_of (work (proceed api s)) = None
      \<and> (frame (reg (proceed api s)) = frame (reg s) \<or> committed api s (reg (proceed api s)))"
proof (cases "work s")
  case (EnrolCommit i p v en)
  obtain res r' where c: "commit_device api p v en (reg s) = (res, r')" by fastforce
  show ?thesis
  proof (cases res)
    case (Inl e)
    then have "r' = reg s" using c by (auto simp: commit_device_def split: sum.splits prod.splits)
    then show ?thesis using c Inl EnrolCommit by (simp add: proceed_def)
  next
    case (Inr session)
    then show ?thesis using enrol_committed [OF ok EnrolCommit c [unfolded Inr]] c EnrolCommit by (simp add: proceed_def)
  qed
next
  case (ProxyCommit i account candidate)
  obtain res r' where c: "commit_proxy api account candidate (reg s) = (res, r')" by fastforce
  show ?thesis
  proof (cases res)
    case (Inl e)
    then have "r' = reg s" using c by (auto simp: commit_proxy_def split: sum.splits prod.splits)
    then show ?thesis using c Inl ProxyCommit by (simp add: proceed_def)
  next
    case (Inr session)
    then show ?thesis using proxy_committed [OF ok ProxyCommit c [unfolded Inr]] c ProxyCommit by (simp add: proceed_def)
  qed
next
  case (ChangeCommit change candidate)
  obtain res r' where c: "apply_change api change (reg s) = (res, r')" by fastforce
  show ?thesis
  proof (cases res)
    case (Inl e)
    have "r' = reg s" by (rule apply_change_keeps [OF c]) (simp add: Inl)
    then show ?thesis using c Inl ChangeCommit by (simp add: proceed_def)
  next
    case (Inr u)
    have "planned (after_change change) ro = ro" "candidate_of (after_change change) = None" by (cases change; simp)+
    then show ?thesis using Inr change_committed [OF ok ChangeCommit c [unfolded Inr]] c ChangeCommit by (simp add: proceed_def)
  qed
next
  case (CancelStep target keep)
  then show ?thesis by (cases "cancel_target target (reg s)") (auto simp: proceed_def dest: cancel_frame)
next
  case (WaitStep target keep waiting)
  then show ?thesis by (auto simp: proceed_def end_drain_def drain_frame split: drain_target.split)
qed (auto simp: proceed_def drain_frame)

lemma sys_ok_proceed:
  assumes ok: "sys_ok api n s"
  shows "sys_ok api (Suc n) (proceed api s)"
proof -
  let ?s' = "proceed api s"
  consider "frame (reg ?s') = frame (reg s)" "work ?s' = work s"
    | "planned (work ?s') (ro_of ?s') = ro_of ?s'" "candidate_of (work ?s') = None" "frame (reg ?s') = frame (reg s)"
    | "planned (work ?s') (ro_of ?s') = ro_of ?s'" "candidate_of (work ?s') = None" "committed api s (reg ?s')"
    using proceed_effect [OF ok, of "ro_of ?s'"] by argo
  then show ?thesis
  proof cases
    case 1
    then show ?thesis by (rule sys_ok_frame [OF ok])
  next
    case 2
    then show ?thesis by (intro sys_ok_work [OF ok]) (simp_all add: frame_def)
  next
    case 3
    then have "roster_ok (ro_of ?s')" using ok by (simp add: sys_ok_def work_ok_def committed_def)
    then show ?thesis
      using 3 ok work_ok_none [of "ro_of ?s'" "work ?s'" api "registry_file (reg s)"] written_candidate [of "work ?s'"]
      by (simp add: sys_ok_def committed_def)
  qed
qed

lemma sys_ok_step:
  assumes ok: "sys_ok api n s" and "draws_fresh act s" and n: "n < 2 ^ 64 - 1"
  shows "sys_ok api (Suc n) (registry_do api s act)"
proof (cases act)
  case (TakeLock i)
  then show ?thesis using sys_ok_take_lock [OF ok] sys_ok_frame [OF ok] by simp
next
  case (Administer req)
  show ?thesis
  proof (cases "work s = Idle \<and> (\<exists>w. administer api req (reg s) = Ok w)")
    case True
    then obtain w where w: "work s = Idle" "administer api req (reg s) = Ok w" by blast
    have "work_ok api (registry_file (reg s)) (ro_of s) w"
      using work_ok_administer [OF _ w(2)] ok assms(2) Administer by (auto simp: sys_ok_def)
    moreover have "\<not> written w" using w(2) by (cases req) (auto split: sum.splits)
    ultimately show ?thesis using ok w Administer by (auto simp: sys_ok_def)
  next
    case False
    then show ?thesis using sys_ok_frame [OF ok] Administer by (auto split: sum.split)
  qed
next
  case Flush
  have "sys_ok api (Suc n) (s\<lparr>work := FlushWrite version (clients (reg s))\<rparr>)" for version
    using ok by (simp add: sys_ok_def work_ok_def)
  then show ?thesis using sys_ok_frame [OF ok, of s] Flush by (simp add: flush_candidate_def)
next
  case (EndRetirement m)
  then show ?thesis using sys_ok_frame [OF ok] by (simp add: drain_frame)
next
  case (RetrySync reply)
  then show ?thesis
    by (intro sys_ok_frame [OF ok]) (auto simp: retry_durability_sync_def frame_def split: option.split sum.split)
next
  case (CheckProof i at now)
  then show ?thesis
    by (intro sys_ok_frame [OF ok]) (auto simp: check_proof_def split: request.split stage.split sum.split)
next
  case (RunFast i)
  then show ?thesis using sys_ok_frame [OF ok] run_fast_frame [of api i s] by simp
next
  case (DropAttempt i)
  then show ?thesis using sys_ok_frame [OF ok] by (simp add: drop_authentication_def drop_attempt_frame)
qed (use ok n sys_ok_frame [OF ok] in \<open>auto simp: begin_attempt_def begin_authentication_def frame_def Let_def
    intro: sys_ok_write sys_ok_proceed sys_ok_give_up sys_ok_run_detached\<close>)

lemma validate_devices_Ok:
  "validate_devices api seen ds = Ok u \<Longrightarrow> distinct (map dv_id ds) \<and> set seen \<inter> dv_id ` set ds = {}"
proof (induction ds arbitrary: seen)
  case (Cons d ds)
  then have "dv_id d \<notin> set seen" "validate_devices api (dv_id d # seen) ds = Ok u"
    by (auto split: if_splits sum.splits)
  then show ?case using Cons.IH [of "dv_id d # seen"] by auto
qed simp

lemma validate_entries_Ok:
  assumes "validate_entries api k cs = Ok u" and "c \<in> set cs"
  shows "distinct (map dv_id (cl_devices c)) \<and> length (cl_devices c) \<le> cl_max_devices c"
  using assms
proof (induction cs arbitrary: k)
  case (Cons d cs)
  then have d: "validate_stored_client api d = Ok ()" "validate_entries api (k + 1) cs = Ok u"
    by (auto split: sum.splits registry_error.splits)
  then have "distinct (map dv_id (cl_devices d)) \<and> length (cl_devices d) \<le> cl_max_devices d"
    by (auto simp: validate_stored_client_def dest: validate_devices_Ok split: if_splits sum.splits)
  then show ?case using Cons d(2) by auto
qed simp

lemma open_registry_ok:
  assumes "open_registry api path token reply i now exists fs = Ok r" and "distinct (map cl_id (clients r))"
  shows "sys_ok api 1 (system_of r)"
proof -
  obtain cs where cs: "stored_clients api token reply i now = Ok cs" using assms(1)
    by (auto simp: open_registry_def split: if_splits sum.splits)
  let ?r = "new_registry api cs (case reply of ReadRegistry data \<Rightarrow> Some data | _ \<Rightarrow> None)"
  have r: "r = ?r \<or> (\<exists>u. persist_clients api fs (clients ?r) ?r = (Ok u, r))"
    using assms(1) cs by (auto simp: open_registry_def Let_def split: if_splits sum.splits bool.splits prod.splits)
  have new: "clients ?r = cs" "index_ok api ?r" "next_persist_sequence ?r = 0" "persisted_sequence ?r = 0"
    by (simp_all add: new_registry_def) (simp_all add: rebuild_token_index_def)
  have "detached ?r = []" by (simp add: new_registry_def rebuild_token_index_def)
  then have same: "clients r = cs" "token_index r = token_index ?r" "detached r = []"
    using r persist_clients_keeps [of api fs "clients ?r" ?r "Ok _" r] new(1) by fastforce+
  have sq: "persisted_sequence r \<le> next_persist_sequence r" "unat (next_persist_sequence r) \<le> 1"
    using r persist_clients_sequence [of api fs "clients ?r" ?r _ r 0] new(3,4) by auto
  have "distinct (map dv_id (cl_devices c)) \<and> length (cl_devices c) \<le> cl_max_devices c" if "c \<in> set cs" for c
    using cs that validate_entries_Ok [of api 0 cs _ c]
    by (auto simp: stored_clients_def split: registry_read.splits sum.splits if_splits prod.splits)
  then have "\<forall>(_, _, limit, devices) \<in> set (roster cs). distinct devices \<and> length devices \<le> limit"
    by (auto simp: roster_def roster_entry_def)
  then have "roster_ok (roster cs)" using assms(2) same(1) unfolding roster_ok_def roster_ids by simp
  then show ?thesis
    using same sq new(1,2) by (auto simp: sys_ok_def system_of_def index_ok_def intro: work_ok_none)
qed

lemma sys_ok_run:
  "registry_run api s0 n s \<Longrightarrow> sys_ok api 1 s0 \<Longrightarrow> n < 2 ^ 64 - 2 \<Longrightarrow> sys_ok api (Suc n) s"
proof (induction rule: registry_run.induct)
  case (run_action n s act)
  then have "sys_ok api (Suc n) s" by simp
  then show ?case using sys_ok_step run_action.hyps(2) run_action.prems(2) by fastforce
qed simp

lemma take_lock_frame: "frame (reg (take_lock api i s)) = frame (reg s)"
proof (cases rule: take_lock_cases [of api i s])
  case (device token p verb path v now res r')
  from device(3) have "frame r' = frame (reg s)"
    by (cases rule: slow_device_cases) (auto dest!: gate_frame admit_device_frame)
  then show ?thesis using device(4) by (simp split: sum.split)
next
  case (proxy token now res r')
  from proxy(3) have "frame r' = frame (reg s)"
    by (cases rule: slow_proxy_cases) (auto dest!: admit_session_frame)
  then show ?thesis using proxy(4) by (simp split: sum.split prod.split)
qed simp

lemma roster_changes_by_commit:
  assumes "act \<noteq> Proceed"
  shows "ro_of (registry_do api s act) = ro_of s"
proof (cases act)
  case (TakeLock j)
  then show ?thesis using take_lock_frame [of api j s] by (simp add: frame_def)
next
  case (RunFast j)
  then show ?thesis using run_fast_frame [of api j s] by (simp add: frame_def)
next
  case (DropAttempt j)
  then show ?thesis using drop_attempt_frame [of _ "reg s"] by (simp add: drop_authentication_def frame_def)
next
  case (EndRetirement j)
  then show ?thesis using drain_frame(2) [of _ "reg s"] by (simp add: frame_def)
next
  case (WriteFile fs)
  have "clients r' = clients (reg s)" if "persist_clients api fs cs (reg s) = (res, r')" for cs res r'
    by (rule persist_clients_keeps [OF that]) simp
  then show ?thesis using WriteFile by (auto simp: write_file_def split: option.split prod.split sum.split)
next
  case GiveUp
  have "clients (detach_write api cs (reg s)) = clients (reg s)" for cs
    by (simp add: detach_write_def Let_def split: sum.split)
  then show ?thesis
    using GiveUp drain_frame(2) [of _ "reg s"] by (auto simp: give_up_def frame_def split: work.split option.split)
next
  case (RunDetached fs k)
  then show ?thesis by (simp add: run_detached_def)
qed (use assms in \<open>auto simp: begin_attempt_def begin_authentication_def check_proof_def retry_durability_sync_def flush_candidate_def Let_def
    split: request.split stage.split sum.split option.split\<close>)

text \<open>C4: the registry under concurrent use. Whatever authentications, changes, writes, failures and
  abandoned operations are interleaved, no client ever has more devices than its limit or a device
  twice, the client IDs stay distinct, and a token leads only to an enabled client whose stored hash
  is the hash of that token.\<close>

theorem registry_well_formed:
  assumes "open_registry api path bootstrap reply i now exists fs = Ok r" and "distinct (map cl_id (clients r))"
    and "registry_run api (system_of r) n s" and "n < 2 ^ 64 - 2"
  shows "distinct (map cl_id (clients (reg s)))
    \<and> (\<forall>c \<in> set (clients (reg s)). distinct (map dv_id (cl_devices c)) \<and> length (cl_devices c) \<le> cl_max_devices c)
    \<and> (\<forall>token j. client_index_for_token api (reg s) token = Ok j \<longrightarrow>
        j < length (clients (reg s)) \<and> cl_enabled (clients (reg s) ! j)
        \<and> hex_decode api (cl_token_hash (clients (reg s) ! j)) = Some (sha256 (proof_api api) (as_bytes token)))"
proof -
  have ok: "sys_ok api (Suc n) s" using sys_ok_run [OF assms(3) open_registry_ok [OF assms(1,2)] assms(4)] .
  then have ro: "roster_ok (ro_of s)" and ix: "index_ok api (reg s)" by (simp_all add: sys_ok_def)
  have "distinct (map dv_id (cl_devices c)) \<and> length (cl_devices c) \<le> cl_max_devices c" if "c \<in> set (clients (reg s))" for c
    using ro that by (fastforce simp: roster_ok_def roster_def roster_entry_def)
  then show ?thesis using roster_ok_distinct [OF ro] client_index_Ok [OF ix] by blast
qed

text \<open>C11: durability. Whenever a section changes which clients exist, their tokens, their limits or which
  devices are enrolled, the file already holds a list of clients that agrees with the new one in all
  of these.\<close>

theorem changes_are_durable:
  assumes "open_registry api path bootstrap reply i now exists fs = Ok r" and "distinct (map cl_id (clients r))"
    and "registry_run api (system_of r) n s" and "n < 2 ^ 64 - 2"
    and "roster (clients (reg (registry_do api s act))) \<noteq> roster (clients (reg s))"
  shows "\<exists>cs json. roster cs = roster (clients (reg (registry_do api s act))) \<and> encode_registry api cs = Ok json
    \<and> registry_file (reg (registry_do api s act)) = Some (json @ [0x0A])"
proof -
  have ok: "sys_ok api (Suc n) s" using sys_ok_run [OF assms(3) open_registry_ok [OF assms(1,2)] assms(4)] .
  note ro = ok [unfolded sys_ok_def, THEN conjunct1]
  have act: "act = Proceed" using roster_changes_by_commit [of act api s] assms(5) by blast
  then have "committed api s (reg (proceed api s))" "registry_do api s act = proceed api s"
    using proceed_effect [OF ok, of "ro_of s"] assms(5) by (auto simp: frame_def)
  moreover obtain cs where "candidate_of (work s) = Some cs"
    using calculation(1) by (cases "work s") (auto simp: committed_def)
  ultimately show ?thesis using ok by (auto simp: sys_ok_def work_ok_def committed_def)
qed

subsection \<open>An example\<close>

definition example_api :: "(unit, unit, int) registry_api" where
  "example_api = \<lparr>proof_api = example_crates, hex_encode = map (\<lambda>b. char_of (unat b)), hex_decode = (\<lambda>s. Some (as_bytes s)),
     hex_decode_slice = as_bytes, t_plus = (\<lambda>t d. t + d div 1000000000), t_minus = (\<lambda>t u. (t - u) * 1000000000), t_unix = (\<lambda>t. t),
     encode_registry = (\<lambda>cs. Ok [byte_of (length cs)]), decode_registry = (\<lambda>_. Err ''no format'')\<rparr>"

definition example_fs :: registry_fs where
  "example_fs = \<lparr>rf_create_dir = Ok (), rf_open = Ok (), rf_write = Ok (), rf_sync = Ok (), rf_rename = Ok (), rf_sync_dir = Ok ()\<rparr>"

definition example_registry :: "int registry" where
  "example_registry = snd (persist_clients example_api example_fs
     [\<lparr>cl_id = ''account'', cl_name = ''Default client'', cl_token_hash = hash_token example_api ''token'',
       cl_max_devices = 5, cl_enabled = True, cl_created_at = 800, cl_devices = []\<rparr>]
     (new_registry example_api
       [\<lparr>cl_id = ''account'', cl_name = ''Default client'', cl_token_hash = hash_token example_api ''token'',
         cl_max_devices = 5, cl_enabled = True, cl_created_at = 800, cl_devices = []\<rparr>] None))"

text \<open>The enrolment of a device, up to the write and up to the session.\<close>

definition example_enrolment :: "int registry_action list" where
  "example_enrolment = [BeginDevice ''token'' example_proof ''GET'' ''/'', CheckProof 0 900 900, RunFast 0, TakeLock 0, WriteFile example_fs]"

definition example_written :: "int registry_system" where
  "example_written = foldl (registry_do example_api) (system_of example_registry) example_enrolment"

definition example_enrolled :: "int registry_system" where
  "example_enrolled = registry_do example_api example_written Proceed"

lemma example_open:
  "open_registry example_api ''registry.json'' ''token'' RegistryMissing ''account'' 800 (Ok False) example_fs = Ok example_registry"
proof -
  have "str_trim ''token'' \<noteq> []" by code_simp
  then show ?thesis
    by (simp add: open_registry_def stored_clients_def example_registry_def persist_clients_def persist_task_def atomic_write_registry_def
        example_fs_def example_api_def new_registry_def rebuild_token_index_def)
qed

lemma registry_run_foldl:
  "(\<And>act s. act \<in> set acts \<Longrightarrow> draws_fresh act s) \<Longrightarrow> registry_run api s0 (length acts) (foldl (registry_do api) s0 acts)"
proof (induction acts rule: rev_induct)
  case (snoc act acts)
  then show ?case using run_action [of api s0 "length acts" "foldl (registry_do api) s0 acts" act] by simp
qed (simp add: run_start)

lemma example_written_run: "registry_run example_api (system_of example_registry) 5 example_written"
proof -
  have "draws_fresh act s" if "act \<in> set example_enrolment" for act and s :: "int registry_system"
    using that by (auto simp: example_enrolment_def)
  moreover have "length example_enrolment = 5" by (simp add: example_enrolment_def)
  ultimately show ?thesis
    using registry_run_foldl [of example_enrolment example_api "system_of example_registry"] by (simp add: example_written_def)
qed

lemma example_enrolled_run: "registry_run example_api (system_of example_registry) 6 example_enrolled"
  using run_action [OF example_written_run, of Proceed] by (simp add: example_enrolled_def)

theorem registry_well_formed_witness:
  "list_all (\<lambda>c. distinct (map dv_id (cl_devices c)) \<and> length (cl_devices c) \<le> cl_max_devices c) (clients (reg example_enrolled))"
proof -
  have "distinct (map cl_id (clients example_registry))" by code_simp
  then show ?thesis using registry_well_formed [OF example_open _ example_enrolled_run] by (simp add: list_all_iff)
qed

theorem changes_are_durable_witness:
  "\<exists>cs json. roster cs = roster (clients (reg example_enrolled)) \<and> encode_registry example_api cs = Ok json
    \<and> registry_file (reg example_enrolled) = Some (json @ [0x0A])"
proof -
  have "distinct (map cl_id (clients example_registry))" by code_simp
  moreover have "roster (clients (reg (registry_do example_api example_written Proceed))) \<noteq> roster (clients (reg example_written))"
    by code_simp
  ultimately show ?thesis
    unfolding example_enrolled_def by (intro changes_are_durable [OF example_open _ example_written_run]) simp_all
qed

end
