(* ===== verification/Registry_Safety.thy ===== *)
theory Registry_Safety
  imports Registry_Runs
begin

text \<open>
  What the registry promises its administrators and its devices: a disconnection, a rotated token, a
  disabled or deleted account or a retired device ends every session it concerns and fences off the
  authentications under way, and a nonce that has been used is refused.
\<close>

subsection \<open>Counters\<close>

definition cnt :: "('k \<times> nat) list \<Rightarrow> 'k \<Rightarrow> nat" where
  "cnt m k = (case map_of m k of None \<Rightarrow> 0 | Some n \<Rightarrow> n)"

lemma cnt_increment [simp]: "cnt (increment_count k m) j = cnt m j + of_bool (j = k)"
  by (auto simp: cnt_def increment_count_def update_conv')

lemma cnt_decrement [simp]: "cnt (decrement m k) j = cnt m j - of_bool (j = k)"
  by (auto simp: cnt_def decrement_def update_conv' delete_conv' split: option.split)

lemma counted_cnt: "counted m k \<longleftrightarrow> cnt m k > 0"
  by (simp add: counted_def cnt_def split: option.split)

definition is_live :: "'tm attempt \<Rightarrow> bool" where
  "is_live a \<longleftrightarrow> at_stage a \<noteq> Gone"

definition live_at :: "u64 \<Rightarrow> 'tm attempt list \<Rightarrow> nat" where
  "live_at e as = length (filter (\<lambda>a. is_live a \<and> at_epoch a = e) as)"

lemma live_at_update:
  assumes "i < length as" and "is_live (as ! i)"
  shows "live_at e (as[i := a]) + of_bool (at_epoch (as ! i) = e) = live_at e as + of_bool (is_live a \<and> at_epoch a = e)"
  using assms
proof (induction as arbitrary: i)
  case (Cons b as)
  then show ?case by (cases i) (auto simp: live_at_def)
qed simp

fun work_targets :: "'tm work \<Rightarrow> drain_target list" where
  "work_targets (CancelStep target _) = [target]"
| "work_targets (WaitStep target _ _) = [target]"
| "work_targets _ = []"

definition outstanding :: "'tm registry_system \<Rightarrow> drain_target list" where
  "outstanding s = work_targets (work s) @ map DeviceTarget (retirements s)"

definition drain_count :: "drain_target \<Rightarrow> 'tm registry \<Rightarrow> nat" where
  "drain_count t r = (case t of AccountTarget a \<Rightarrow> cnt (retiring_accounts r) a | DeviceTarget k \<Rightarrow> cnt (retiring_devices r) k)"

definition fence :: "drain_target \<Rightarrow> 'tm registry \<Rightarrow> u64 option" where
  "fence t r = (case t of AccountTarget a \<Rightarrow> map_of (account_disconnect r) a | DeviceTarget k \<Rightarrow> map_of (device_disconnect r) k)"

text \<open>A target concerns the sessions of its account or device.\<close>

definition covers :: "drain_target \<Rightarrow> device_key \<Rightarrow> bool" where
  "covers t k \<longleftrightarrow> (case t of AccountTarget a \<Rightarrow> a = dk_account k | DeviceTarget k' \<Rightarrow> k' = k)"

definition key_of :: "session_key \<Rightarrow> device_key" where
  "key_of k = \<lparr>dk_account = key_account k, dk_device = key_device k\<rparr>"

lemma covers_matches: "matches (target_account t) (target_device t) k \<longleftrightarrow> covers t (key_of k)"
  by (cases t) (auto simp: matches_def target_account_def target_device_def covers_def key_of_def)

lemma blocked_iff:
  "authentication_blocked r (dk_account k) k e \<longleftrightarrow>
    (\<exists>t. covers t k \<and> (drain_count t r > 0 \<or> (\<exists>f. fence t r = Some f \<and> f > e)))"
proof -
  have "covers t k \<longleftrightarrow> t = AccountTarget (dk_account k) \<or> t = DeviceTarget k" for t
    by (cases t) (auto simp: covers_def)
  then show ?thesis
    by (auto simp: authentication_blocked_def counted_cnt above_def drain_count_def fence_def split: option.splits)
qed

subsection \<open>The effect of a drain\<close>

definition fences_distinct :: "'tm registry \<Rightarrow> bool" where
  "fences_distinct r \<longleftrightarrow> distinct (map fst (account_disconnect r)) \<and> distinct (map fst (device_disconnect r))"

definition oldest :: "'tm registry \<Rightarrow> u64" where
  "oldest r = (if authentication_epochs r = [] then disconnect_epoch r else Min (set (map fst (authentication_epochs r))))"

lemma map_of_filter_values:
  "distinct (map fst xs) \<Longrightarrow> map_of (filter (\<lambda>(_, v). P v) xs) k = (case map_of xs k of None \<Rightarrow> None | Some v \<Rightarrow> if P v then Some v else None)"
  by (induction xs) (auto split: option.splits simp: map_of_eq_None_iff dest: map_of_SomeD)

lemma prune_fence:
  assumes "fences_distinct r"
  shows "fence t (prune_disconnects es c r) = (case fence t r of None \<Rightarrow> None
    | Some f \<Rightarrow> if f > (if es = [] then c else Min (set (map fst es))) then Some f else None)"
  using assms by (cases t) (simp_all add: prune_disconnects_def fence_def fences_distinct_def map_of_filter_values Let_def)

lemma prune_distinct: "fences_distinct r \<Longrightarrow> fences_distinct (prune_disconnects es c r)"
  by (simp add: prune_disconnects_def fences_distinct_def Let_def distinct_map_filter)

lemma begin_drain_effect:
  "fence t' (begin_target_drain t r) = (if t' = t then Some (disconnect_epoch r + 1) else fence t' r)"
  "drain_count t' (begin_target_drain t r) = drain_count t' r + of_bool (t' = t)"
  "disconnect_epoch (begin_target_drain t r) = disconnect_epoch r + 1"
  "fences_distinct r \<Longrightarrow> fences_distinct (begin_target_drain t r)"
  by (cases t; cases t'; auto simp: fence_def drain_count_def fences_distinct_def update_conv' distinct_update Let_def)+

lemma finish_drain_effect:
  assumes "fences_distinct r"
  shows "drain_count t' (finish_drain t r) = drain_count t' r - of_bool (t' = t)"
    and "disconnect_epoch (finish_drain t r) = disconnect_epoch r + 1"
    and "fences_distinct (finish_drain t r)"
    and "fence t' (finish_drain t r) = (case if t' = t then Some (disconnect_epoch r + 1) else fence t' r of None \<Rightarrow> None
      | Some f \<Rightarrow> if f > (if authentication_epochs r = [] then disconnect_epoch r + 1 else Min (set (map fst (authentication_epochs r))))
                   then Some f else None)"
proof -
  let ?e = "disconnect_epoch r + 1"
  let ?r = "case t of
      AccountTarget a \<Rightarrow> r\<lparr>disconnect_epoch := ?e, account_disconnect := AList.update a ?e (account_disconnect r),
        retiring_accounts := decrement (retiring_accounts r) a\<rparr>
    | DeviceTarget k \<Rightarrow> r\<lparr>disconnect_epoch := ?e, device_disconnect := AList.update k ?e (device_disconnect r),
        retiring_devices := decrement (retiring_devices r) k\<rparr>"
  have r: "finish_drain t r = prune_disconnects (authentication_epochs r) ?e ?r"
    by (cases t) (simp_all add: finish_drain_def Let_def)
  have d: "fences_distinct ?r" using assms by (cases t) (auto simp: fences_distinct_def distinct_update)
  have f: "fence t' ?r = (if t' = t then Some ?e else fence t' r)"
    by (cases t; cases t') (auto simp: fence_def update_conv')
  show "drain_count t' (finish_drain t r) = drain_count t' r - of_bool (t' = t)"
    unfolding r by (cases t; cases t') (auto simp: drain_count_def prune_disconnects_def Let_def)
  show "disconnect_epoch (finish_drain t r) = ?e"
    unfolding r by (cases t) (simp_all add: prune_disconnects_def Let_def)
  show "fences_distinct (finish_drain t r)" unfolding r by (rule prune_distinct [OF d])
  show "fence t' (finish_drain t r) = (case if t' = t then Some ?e else fence t' r of None \<Rightarrow> None
      | Some f \<Rightarrow> if f > (if authentication_epochs r = [] then ?e else Min (set (map fst (authentication_epochs r)))) then Some f else None)"
    unfolding r prune_fence [OF d] f ..
qed

subsection \<open>The invariant of the fences\<close>

fun worker_key :: "'tm work \<Rightarrow> (nat \<times> device_key) option" where
  "worker_key (EnrolWrite i p _ en) = Some (i, \<lparr>dk_account = en_account en, dk_device = device_id_of p\<rparr>)"
| "worker_key (EnrolCommit i p _ en) = Some (i, \<lparr>dk_account = en_account en, dk_device = device_id_of p\<rparr>)"
| "worker_key (ProxyWrite i account _) = Some (i, proxy_key account)"
| "worker_key (ProxyCommit i account _) = Some (i, proxy_key account)"
| "worker_key _ = None"

fun worker_stage :: "'tm work \<Rightarrow> 'tm attempt \<Rightarrow> bool" where
  "worker_stage (EnrolWrite _ p v _) a \<longleftrightarrow> (\<exists>token verb path now. at_request a = DeviceRequest token p verb path \<and> at_stage a = DeviceSlow v now)"
| "worker_stage (EnrolCommit _ p v _) a \<longleftrightarrow> (\<exists>token verb path now. at_request a = DeviceRequest token p verb path \<and> at_stage a = DeviceSlow v now)"
| "worker_stage (ProxyWrite _ _ _) a \<longleftrightarrow> (\<exists>now. at_stage a = ProxySlow now)"
| "worker_stage (ProxyCommit _ _ _) a \<longleftrightarrow> (\<exists>now. at_stage a = ProxySlow now)"
| "worker_stage _ a \<longleftrightarrow> True"

definition worker_ok :: "'tm registry_system \<Rightarrow> bool" where
  "worker_ok s \<longleftrightarrow> (\<forall>i k. worker_key (work s) = Some (i, k) \<longrightarrow>
    i < length (attempts s) \<and> worker_stage (work s) (attempts s ! i)
    \<and> \<not> authentication_blocked (reg s) (dk_account k) k (at_epoch (attempts s ! i)))"

definition waiting_ok :: "'tm registry_system \<Rightarrow> bool" where
  "waiting_ok s \<longleftrightarrow>
    (\<forall>k \<in> set (retirements s). \<forall>(g, _) \<in> set (held s). key_of (guard_key g) \<noteq> k)
    \<and> (case work s of
         WaitStep t _ ws \<Rightarrow> \<forall>(g, _) \<in> set (held s). covers t (key_of (guard_key g)) \<longrightarrow> guard_session g \<in> set ws
       | _ \<Rightarrow> True)"

definition epochs_ok :: "nat \<Rightarrow> 'tm registry_system \<Rightarrow> bool" where
  "epochs_ok n s \<longleftrightarrow> fences_distinct (reg s) \<and> unat (disconnect_epoch (reg s)) \<le> n
    \<and> (\<forall>e. cnt (authentication_epochs (reg s)) e = live_at e (attempts s))
    \<and> (\<forall>a \<in> set (attempts s). is_live a \<longrightarrow> at_epoch a \<le> disconnect_epoch (reg s))
    \<and> (\<forall>t. drain_count t (reg s) = count_list (outstanding s) t)"

definition sessions_ok :: "nat \<Rightarrow> 'tm registry_system \<Rightarrow> bool" where
  "sessions_ok n s \<longleftrightarrow> alive (sessions (reg s)) \<and> length (store (sessions (reg s))) \<le> n
    \<and> live_inv \<lparr>live = sessions (reg s), guards = mset (map fst (held s))\<rparr>"

definition fence_ok :: "nat \<Rightarrow> 'tm registry_system \<Rightarrow> bool" where
  "fence_ok n s \<longleftrightarrow> epochs_ok n s \<and> sessions_ok n s \<and> waiting_ok s \<and> worker_ok s"

definition view :: "'tm registry \<Rightarrow> _" where
  "view r = (account_disconnect r, device_disconnect r, retiring_accounts r, retiring_devices r, authentication_epochs r, disconnect_epoch r)"

lemma view_eq:
  assumes "view r' = view r"
  shows "fence t r' = fence t r" "drain_count t r' = drain_count t r" "fences_distinct r' = fences_distinct r"
    "authentication_epochs r' = authentication_epochs r" "disconnect_epoch r' = disconnect_epoch r"
    "authentication_blocked r' account k e = authentication_blocked r account k e"
  using assms by (auto simp: view_def fence_def drain_count_def fences_distinct_def authentication_blocked_def split: drain_target.split)

text \<open>The attempts as the fences see them.\<close>

definition shape :: "'tm attempt list \<Rightarrow> (u64 \<times> bool) list" where
  "shape as = map (\<lambda>a. (at_epoch a, is_live a)) as"

lemma shape_eq:
  assumes "shape as = shape bs"
  shows "live_at e as = live_at e bs" and "length as = length bs" and "(\<forall>a \<in> set as. is_live a \<longrightarrow> at_epoch a \<le> m) \<longleftrightarrow> (\<forall>a \<in> set bs. is_live a \<longrightarrow> at_epoch a \<le> m)"
    and "i < length as \<Longrightarrow> at_epoch (as ! i) = at_epoch (bs ! i) \<and> is_live (as ! i) = is_live (bs ! i)"
proof -
  show len: "length as = length bs" using arg_cong [OF assms, of length] by (simp add: shape_def)
  have count: "live_at e cs = length (filter (\<lambda>(x, l). l \<and> x = e) (shape cs))" for cs :: "'c attempt list"
    by (simp add: live_at_def shape_def filter_map comp_def)
  show "live_at e as = live_at e bs" unfolding count assms ..
  have all: "(\<forall>a \<in> set cs. is_live a \<longrightarrow> at_epoch a \<le> m) \<longleftrightarrow> (\<forall>(x, l) \<in> set (shape cs). l \<longrightarrow> x \<le> m)" for cs :: "'c attempt list"
    by (auto simp: shape_def)
  show "(\<forall>a \<in> set as. is_live a \<longrightarrow> at_epoch a \<le> m) \<longleftrightarrow> (\<forall>a \<in> set bs. is_live a \<longrightarrow> at_epoch a \<le> m)"
    unfolding all assms ..
  show "at_epoch (as ! i) = at_epoch (bs ! i) \<and> is_live (as ! i) = is_live (bs ! i)" if "i < length as"
    using arg_cong [OF assms, of "\<lambda>xs. xs ! i"] that len by (simp add: shape_def)
qed

lemma shape_set_stage: "i < length (attempts s) \<Longrightarrow> is_live (attempts s ! i) \<Longrightarrow> st \<noteq> Gone \<Longrightarrow> shape (attempts (set_stage i st s)) = shape (attempts s)"
  by (simp add: shape_def set_stage_def map_update is_live_def list_update_same_conv)

lemma waiting_ok_same: "held s' = held s \<Longrightarrow> retirements s' = retirements s \<Longrightarrow> work s' = work s \<Longrightarrow> waiting_ok s' = waiting_ok s"
  by (simp add: waiting_ok_def split: work.split)

text \<open>Steps that leave the fences, the sessions and the drains alone.\<close>

lemma fence_ok_same:
  assumes ok: "fence_ok n s" and reg: "view (reg s') = view (reg s)" "sessions (reg s') = sessions (reg s)"
    and same: "held s' = held s" "retirements s' = retirements s" "shape (attempts s') = shape (attempts s)"
    and work: "work_targets (work s') = work_targets (work s)" "(case work s' of WaitStep _ _ _ \<Rightarrow> work s' = work s | _ \<Rightarrow> True)"
    and worker: "\<And>i k. worker_key (work s') = Some (i, k) \<Longrightarrow> i < length (attempts s) \<and> worker_stage (work s') (attempts s' ! i)
      \<and> \<not> authentication_blocked (reg s) (dk_account k) k (at_epoch (attempts s ! i))"
  shows "fence_ok (Suc n) s'"
proof -
  have "outstanding s' = outstanding s" using same(2) work(1) by (simp add: outstanding_def)
  then have "epochs_ok (Suc n) s'"
    using ok view_eq [OF reg(1)] shape_eq(1,3) [OF same(3)] by (simp add: fence_ok_def epochs_ok_def)
  moreover have "sessions_ok (Suc n) s'" using ok reg(2) same(1) by (simp add: fence_ok_def sessions_ok_def)
  moreover have "waiting_ok s'"
    using ok same(1,2) work(2) by (auto simp: fence_ok_def waiting_ok_def split: work.splits)
  moreover have "worker_ok s'"
    using worker shape_eq(2,4) [OF same(3)] view_eq(6) [OF reg(1)] by (simp add: worker_ok_def)
  ultimately show ?thesis by (simp add: fence_ok_def)
qed

lemma unblocked_outstanding:
  assumes "fence_ok n s" and "\<not> authentication_blocked (reg s) (dk_account k) k e" and "t \<in> set (outstanding s)"
  shows "\<not> covers t k"
proof
  assume "covers t k"
  moreover have "drain_count t (reg s) > 0"
    using assms(1,3) by (simp add: fence_ok_def epochs_ok_def count_list_0_iff neq0_conv [symmetric] del: neq0_conv)
  ultimately show False using assms(2) by (auto simp: blocked_iff)
qed

lemma register_facts:
  "register_session account device l = (g, l') \<Longrightarrow>
    key_of (guard_key g) = \<lparr>dk_account = account, dk_device = device\<rparr> \<and> alive l' = alive l \<and> length (store l') = Suc (length (store l))"
  by (auto simp: register_session_def key_of_def Let_def)

lemma fence_ok_admit:
  assumes ok: "fence_ok n s" and n: "n < 2 ^ 64 - 2"
    and reg: "view (reg s') = view (reg s)" "register_session (dk_account k) (dk_device k) (sessions (reg s)) = (g, sessions (reg s'))"
    and same: "held s' = (g, i) # held s" "retirements s' = retirements s" "shape (attempts s') = shape (attempts s)"
    and work: "work_targets (work s') = work_targets (work s)" "(case work s' of WaitStep _ _ _ \<Rightarrow> work s' = work s | _ \<Rightarrow> True)"
    and worker: "\<And>j k. worker_key (work s') = Some (j, k) \<Longrightarrow> work s' = work s \<and> attempts s' ! j = attempts s ! j"
    and new: "\<And>t. t \<in> set (outstanding s) \<Longrightarrow> \<not> covers t k"
  shows "fence_ok (Suc n) s'"
proof -
  note g = register_facts [OF reg(2)]
  then have key: "key_of (guard_key g) = k" by (cases k) simp
  have out: "outstanding s' = outstanding s" using same(2) work(1) by (simp add: outstanding_def)
  then have "epochs_ok (Suc n) s'"
    using ok view_eq [OF reg(1)] shape_eq(1,3) [OF same(3)] by (simp add: fence_ok_def epochs_ok_def)
  moreover have "sessions_ok (Suc n) s'"
  proof -
    let ?l = "\<lparr>live = sessions (reg s), guards = mset (map fst (held s))\<rparr>"
    let ?l' = "\<lparr>live = sessions (reg s'), guards = mset (map fst (held s'))\<rparr>"
    have "live_step ?l ?l'" using live_step.open_session [OF _ reg(2)] ok same(1) by (simp add: fence_ok_def sessions_ok_def)
    then have "live_inv ?l'" using live_inv_step [of ?l ?l'] ok g n by (simp add: fence_ok_def sessions_ok_def)
    then show ?thesis using ok g by (simp add: fence_ok_def sessions_ok_def)
  qed
  moreover have "waiting_ok s'"
  proof -
    have "k' \<noteq> key_of (guard_key g)" if "k' \<in> set (retirements s)" for k'
      using new [of "DeviceTarget k'"] that key by (auto simp: outstanding_def covers_def)
    moreover have "\<not> covers t (key_of (guard_key g))" if "work s = WaitStep t b ws" for t b ws
      using new [of t] that key by (auto simp: outstanding_def)
    ultimately show ?thesis
      using ok same(1,2) work(2) by (auto simp: fence_ok_def waiting_ok_def split: work.splits)
  qed
  moreover have "worker_ok s'"
    using worker ok shape_eq(2) [OF same(3)] view_eq(6) [OF reg(1)] by (auto simp: fence_ok_def worker_ok_def)
  ultimately show ?thesis by (simp add: fence_ok_def)
qed

lemma nonces_view [simp]: "view (r\<lparr>nonces := ns\<rparr>) = view r" "view (r\<lparr>sessions := ss\<rparr>) = view r"
  "view (r\<lparr>clients := cs\<rparr>) = view r"
  by (simp_all add: view_def)

lemma gate_passed:
  assumes "device_gate api token p v now e r = (Ok i, r1)"
  shows "view r1 = view r" "sessions r1 = sessions r" "clients r1 = clients r"
    "\<not> authentication_blocked r (cl_id (clients r ! i)) (device_key_of (clients r ! i) p) e"
  by (rule device_gate_cases [OF assms]; simp)+

lemma admit_device_view:
  assumes "admit_device api account p v r = (session, r')"
  shows "view r' = view r \<and> register_session account (device_id_of p) (sessions r) = (authenticated_guard session, sessions r')"
  using admit_device_keeps [OF assms]
    remember_nonce_keeps [of api "\<lparr>dk_account = account, dk_device = device_id_of p\<rparr>" "nonce_of p" "signed_at v" r] by auto

lemma admit_session_view:
  assumes "admit_session api account device r = (session, r')"
  shows "view r' = view r \<and> register_session account device (sessions r) = (authenticated_guard session, sessions r')"
  using admit_session_keeps [OF assms] by auto

text \<open>A stage that is set for an attempt which is not the worker.\<close>

lemma set_stage_other: "j \<noteq> i \<Longrightarrow> attempts (set_stage i st s) ! j = attempts s ! j"
  by (simp add: set_stage_def)

lemma worker_stage_slow:
  "worker_key w = Some (i, k) \<Longrightarrow> worker_stage w a \<Longrightarrow> (\<exists>v now. at_stage a = DeviceSlow v now) \<or> (\<exists>now. at_stage a = ProxySlow now)"
  by (cases w) auto

lemma worker_live: "worker_key w = Some (i, k) \<Longrightarrow> worker_stage w a \<Longrightarrow> is_live a"
  by (cases w) (auto simp: is_live_def)

lemma fence_ok_stage:
  assumes ok: "fence_ok n s" and i: "i < length (attempts s)" "is_live (attempts s ! i)" "st \<noteq> Gone"
    and r: "view r = view (reg s)" "sessions r = sessions (reg s)" and free: "\<And>k. worker_key (work s) \<noteq> Some (i, k)"
  shows "fence_ok (Suc n) (set_stage i st (s\<lparr>reg := r\<rparr>))"
proof (rule fence_ok_same [OF ok])
  show "shape (attempts (set_stage i st (s\<lparr>reg := r\<rparr>))) = shape (attempts s)"
    using shape_set_stage [of i "s\<lparr>reg := r\<rparr>" st] i by simp
  show "j < length (attempts s) \<and> worker_stage (work (set_stage i st (s\<lparr>reg := r\<rparr>))) (attempts (set_stage i st (s\<lparr>reg := r\<rparr>)) ! j)
      \<and> \<not> authentication_blocked (reg s) (dk_account k) k (at_epoch (attempts s ! j))"
    if "worker_key (work (set_stage i st (s\<lparr>reg := r\<rparr>))) = Some (j, k)" for j k
  proof -
    have "j \<noteq> i" using that free by auto
    then show ?thesis using that ok set_stage_other [of j i st "s\<lparr>reg := r\<rparr>"] by (auto simp: fence_ok_def worker_ok_def)
  qed
qed (use r in \<open>simp_all split: work.split\<close>)

lemma not_worker:
  assumes "fence_ok n s" and "i < length (attempts s)"
    and "\<And>v now. at_stage (attempts s ! i) \<noteq> DeviceSlow v now" and "\<And>now. at_stage (attempts s ! i) \<noteq> ProxySlow now"
  shows "worker_key (work s) \<noteq> Some (i, k)"
proof
  assume w: "worker_key (work s) = Some (i, k)"
  then have "worker_stage (work s) (attempts s ! i)" using assms(1) by (simp add: fence_ok_def worker_ok_def)
  then show False using worker_stage_slow [OF w] assms(3,4) by blast
qed

lemma fence_ok_accept:
  assumes ok: "fence_ok n s" and n: "n < 2 ^ 64 - 2" and i: "i < length (attempts s)" "is_live (attempts s ! i)"
    and r: "view r = view (reg s)" "register_session (dk_account k) (dk_device k) (sessions (reg s)) = (authenticated_guard session, sessions r)"
    and free: "\<And>k. worker_key (work s) \<noteq> Some (i, k)" and new: "\<not> authentication_blocked (reg s) (dk_account k) k e"
  shows "fence_ok (Suc n) (accept i session (s\<lparr>reg := r\<rparr>))"
proof (rule fence_ok_admit [OF ok n, where k = k and g = "authenticated_guard session" and i = i])
  show "shape (attempts (accept i session (s\<lparr>reg := r\<rparr>))) = shape (attempts s)"
    using shape_set_stage [of i "s\<lparr>reg := r, held := (authenticated_guard session, i) # held s\<rparr>" Finished] i by (simp add: accept_def)
  show "work (accept i session (s\<lparr>reg := r\<rparr>)) = work s \<and> attempts (accept i session (s\<lparr>reg := r\<rparr>)) ! j = attempts s ! j"
    if "worker_key (work (accept i session (s\<lparr>reg := r\<rparr>))) = Some (j, k)" for j k
  proof -
    have "j \<noteq> i" using that free by auto
    then show ?thesis by (simp add: accept_def set_stage_other)
  qed
  show "\<not> covers t k" if "t \<in> set (outstanding s)" for t by (rule unblocked_outstanding [OF ok new that])
qed (use r in \<open>simp_all split: work.split\<close>)

lemma fence_ok_run_fast:
  assumes ok: "fence_ok n s" and n: "n < 2 ^ 64 - 2" and i: "i < length (attempts s)"
  shows "fence_ok (Suc n) (run_fast api i s)"
proof (cases rule: run_fast_cases [of api i s])
  case other
  then show ?thesis using ok by (intro fence_ok_same [OF ok]) (auto simp: fence_ok_def worker_ok_def split: work.split)
next
  case (device token p verb path v now res r')
  have live: "is_live (attempts s ! i)" using device(2) by (simp add: is_live_def)
  have free: "worker_key (work s) \<noteq> Some (i, k)" for k by (rule not_worker [OF ok i]) (simp_all add: device(2))
  from device(3) show ?thesis
  proof (cases rule: fast_device_cases)
    case (admitted session j r1)
    let ?k = "device_key_of (clients (reg s) ! j) p"
    have "view r' = view (reg s)" "register_session (dk_account ?k) (dk_device ?k) (sessions (reg s)) = (authenticated_guard session, sessions r')"
      using admit_device_view [OF admitted(3)] gate_passed [OF admitted(2)] by simp_all
    then have "fence_ok (Suc n) (accept i session (s\<lparr>reg := r'\<rparr>))"
      using fence_ok_accept [OF ok n i live, of r' ?k session] free gate_passed(4) [OF admitted(2)] by simp
    then show ?thesis using device(4) admitted(1) by simp
  qed (use device(4) fence_ok_stage [OF ok i live] free in simp_all)
next
  case (proxy token now res r')
  have live: "is_live (attempts s ! i)" using proxy(2) by (simp add: is_live_def)
  have free: "worker_key (work s) \<noteq> Some (i, k)" for k by (rule not_worker [OF ok i]) (simp_all add: proxy(2))
  from proxy(3) show ?thesis
  proof (cases rule: fast_proxy_cases)
    case (admitted session j cs dirty version)
    let ?k = "proxy_key (cl_id (clients (reg s) ! j))"
    have "view r' = view (reg s)" "register_session (dk_account ?k) (dk_device ?k) (sessions (reg s)) = (authenticated_guard session, sessions r')"
      using admit_session_view [OF admitted(5)] by (simp_all add: view_def)
    then have "fence_ok (Suc n) (accept i session (s\<lparr>reg := r'\<rparr>))"
      using fence_ok_accept [OF ok n i live, of r' ?k session] free admitted(3) by simp
    then show ?thesis using proxy(4) admitted(1) by simp
  qed (use proxy(4) fence_ok_stage [OF ok i live, where r = "reg s"] free in simp_all)
qed

lemma fence_ok_take_lock:
  assumes ok: "fence_ok n s" and n: "n < 2 ^ 64 - 2" and i: "i < length (attempts s)" and idle: "work s = Idle"
  shows "fence_ok (Suc n) (take_lock api i s)"
proof -
  have free: "worker_key (work s) \<noteq> Some (i, k)" for k using idle by simp
  have starts: "fence_ok (Suc n) (s\<lparr>reg := r, work := w\<rparr>)"
    if "view r = view (reg s)" "sessions r = sessions (reg s)" "work_targets w = []" "worker_key w = Some (i, k)" "worker_stage w (attempts s ! i)"
      "\<not> authentication_blocked (reg s) (dk_account k) k (at_epoch (attempts s ! i))" for r w k
    by (rule fence_ok_same [OF ok]) (use that idle i in \<open>auto split: work.split\<close>)
  show ?thesis
  proof (cases rule: take_lock_cases [of api i s])
    case other
    then show ?thesis using ok idle by (intro fence_ok_same [OF ok]) simp_all
  next
    case (device token p verb path v now res r')
    have live: "is_live (attempts s ! i)" using device(2) by (simp add: is_live_def)
    from device(3) show ?thesis
    proof (cases rule: slow_device_cases)
      case (refused e ns)
      then show ?thesis using device(4) fence_ok_stage [OF ok i live] free by simp
    next
      case (admitted session j r1)
      let ?k = "device_key_of (clients (reg s) ! j) p"
      have "view r' = view (reg s)" "register_session (dk_account ?k) (dk_device ?k) (sessions (reg s)) = (authenticated_guard session, sessions r')"
        using admit_device_view [OF admitted(3)] gate_passed [OF admitted(2)] by simp_all
      then have "fence_ok (Suc n) (accept i session (s\<lparr>reg := r'\<rparr>))"
        using fence_ok_accept [OF ok n i live, of r' ?k session] free gate_passed(4) [OF admitted(2)] by simp
      then show ?thesis using device(4) admitted(1) by simp
    next
      case (rewrite j ns k d)
      then show ?thesis using device gate_passed [OF rewrite(1)] by (auto intro!: starts)
    next
      case (enrol j ns d)
      then show ?thesis using device gate_passed [OF enrol(1)] by (auto intro!: starts)
    qed
  next
    case (proxy token now res r')
    have live: "is_live (attempts s ! i)" using proxy(2) by (simp add: is_live_def)
    from proxy(3) show ?thesis
    proof (cases rule: slow_proxy_cases)
      case (refused e)
      then show ?thesis using proxy(4) fence_ok_stage [OF ok i live, where r = "reg s"] free by simp
    next
      case (admitted session j)
      let ?k = "proxy_key (cl_id (clients (reg s) ! j))"
      have "view r' = view (reg s)" "register_session (dk_account ?k) (dk_device ?k) (sessions (reg s)) = (authenticated_guard session, sessions r')"
        using admit_session_view [OF admitted(4)] by simp_all
      then have "fence_ok (Suc n) (accept i session (s\<lparr>reg := r'\<rparr>))"
        using fence_ok_accept [OF ok n i live, of r' ?k session] free admitted(3) by simp
      then show ?thesis using proxy(4) admitted(1) by simp
    next
      case (enrol j d)
      have "fence_ok (Suc n) (s\<lparr>reg := reg s, work := ProxyWrite i (cl_id (clients (reg s) ! j))
          ((clients (reg s))[j := with_devices (\<lambda>ds. ds @ [d]) (clients (reg s) ! j)])\<rparr>)"
        by (rule starts [where k = "proxy_key (cl_id (clients (reg s) ! j))"]) (use enrol(3) proxy(2) in simp_all)
      then show ?thesis using proxy(4) enrol by simp
    qed
  qed
qed

subsection \<open>Attempts, guards and drains\<close>

lemma live_oldest:
  assumes "fence_ok n s" and "i < length (attempts s)" and "is_live (attempts s ! i)"
  shows "oldest (reg s) \<le> at_epoch (attempts s ! i)" and "authentication_epochs (reg s) \<noteq> []"
proof -
  let ?e = "at_epoch (attempts s ! i)"
  have "live_at ?e (attempts s) > 0" using assms(2,3) by (auto simp: live_at_def filter_empty_conv)
  then have "cnt (authentication_epochs (reg s)) ?e > 0" using assms(1) by (simp add: fence_ok_def epochs_ok_def)
  then have e: "?e \<in> fst ` set (authentication_epochs (reg s))"
    by (auto simp: cnt_def split: option.splits dest!: map_of_SomeD intro: rev_image_eqI)
  then show "authentication_epochs (reg s) \<noteq> []" by auto
  then show "oldest (reg s) \<le> ?e" using e by (simp add: oldest_def)
qed

text \<open>Pruning does not unblock an attempt that is still under way.\<close>

lemma drop_attempt_epochs: "authentication_epochs (drop_attempt e r) = decrement (authentication_epochs r) e"
  "disconnect_epoch (drop_attempt e r) = disconnect_epoch r" "drain_count t (drop_attempt e r) = drain_count t r"
  "sessions (drop_attempt e r) = sessions r" "fences_distinct r \<Longrightarrow> fences_distinct (drop_attempt e r)"
  by (simp_all add: drop_attempt_def prune_disconnects_def drain_count_def fences_distinct_def Let_def distinct_map_filter split: drain_target.split)

lemma drop_attempt_fence:
  assumes "fences_distinct r"
  shows "fence t (drop_attempt e r) = (case fence t r of None \<Rightarrow> None
    | Some f \<Rightarrow> if f > oldest (drop_attempt e r) then Some f else None)"
proof -
  have "fence t (r\<lparr>authentication_epochs := es\<rparr>) = fence t r" "fences_distinct (r\<lparr>authentication_epochs := es\<rparr>)" for es
    using assms by (simp_all add: fence_def fences_distinct_def split: drain_target.split)
  then have "fence t (drop_attempt e r) = (case fence t r of None \<Rightarrow> None
      | Some f \<Rightarrow> if f > (if decrement (authentication_epochs r) e = [] then disconnect_epoch r
                        else Min (set (map fst (decrement (authentication_epochs r) e)))) then Some f else None)"
    using prune_fence [of "r\<lparr>authentication_epochs := decrement (authentication_epochs r) e\<rparr>" t]
    by (simp only: drop_attempt_def Let_def)
  then show ?thesis by (simp only: oldest_def drop_attempt_epochs)
qed

lemma fewer_fences:
  assumes "\<not> authentication_blocked r (dk_account k) k e"
    and "\<And>t. covers t k \<Longrightarrow> drain_count t r' \<le> drain_count t r" and "\<And>t f. covers t k \<Longrightarrow> fence t r' = Some f \<Longrightarrow> fence t r = Some f"
  shows "\<not> authentication_blocked r' (dk_account k) k e"
proof
  assume "authentication_blocked r' (dk_account k) k e"
  then obtain t where t: "covers t k" "drain_count t r' > 0 \<or> (\<exists>f. fence t r' = Some f \<and> f > e)" by (auto simp: blocked_iff)
  then have "drain_count t r = 0" "\<And>f. fence t r = Some f \<Longrightarrow> \<not> f > e" using assms(1) by (auto simp: blocked_iff)
  then show False using assms(2,3) [OF t(1)] t(2) by auto
qed

lemma fence_ok_drop:
  assumes ok: "fence_ok n s" and i: "i < length (attempts s)" "is_live (attempts s ! i)" and free: "\<And>k. worker_key (work s) \<noteq> Some (i, k)"
  shows "fence_ok (Suc n) (set_stage i Gone (s\<lparr>reg := drop_attempt (at_epoch (attempts s ! i)) (reg s)\<rparr>))" (is "fence_ok _ ?s'")
proof -
  let ?e = "at_epoch (attempts s ! i)"
  have as: "attempts ?s' = (attempts s)[i := (attempts s ! i)\<lparr>at_stage := Gone\<rparr>]" by (simp add: set_stage_def)
  have dist: "fences_distinct (reg s)" using ok by (simp add: fence_ok_def epochs_ok_def)
  have fewer: "drain_count t (reg ?s') \<le> drain_count t (reg s)" "fence t (reg ?s') = Some f \<Longrightarrow> fence t (reg s) = Some f" for t f
    by (simp_all add: drop_attempt_epochs(3) drop_attempt_fence [OF dist] split: option.splits if_splits)
  have upd: "live_at e (attempts ?s') + of_bool (?e = e) = live_at e (attempts s)" for e
    using live_at_update [OF i, of e "(attempts s ! i)\<lparr>at_stage := Gone\<rparr>"] unfolding as by (simp add: is_live_def)
  have "live_at e (attempts ?s') = live_at e (attempts s) - of_bool (e = ?e)" for e
    using upd [of e] by (cases "e = ?e") simp_all
  moreover have "outstanding ?s' = outstanding s" by (simp add: outstanding_def)
  moreover have "at_epoch a \<le> disconnect_epoch (reg s)" if "a \<in> set (attempts ?s')" "is_live a" for a
  proof -
    have "a \<in> set (attempts s) \<or> a = (attempts s ! i)\<lparr>at_stage := Gone\<rparr>" using that(1) set_update_subset_insert unfolding as by fastforce
    then show ?thesis using ok that(2) by (auto simp: fence_ok_def epochs_ok_def is_live_def)
  qed
  ultimately have "epochs_ok (Suc n) ?s'"
    using ok dist by (simp add: fence_ok_def epochs_ok_def drop_attempt_epochs)
  moreover have "sessions_ok (Suc n) ?s'" "waiting_ok ?s'"
    using ok waiting_ok_same [of ?s' s] by (simp_all add: fence_ok_def sessions_ok_def drop_attempt_epochs)
  moreover have "worker_ok ?s'"
    unfolding worker_ok_def
  proof (intro allI impI)
    fix j k assume w: "worker_key (work ?s') = Some (j, k)"
    have "j \<noteq> i" using w free by auto
    then have j: "attempts ?s' ! j = attempts s ! j" by (simp add: set_stage_other)
    have "j < length (attempts s) \<and> worker_stage (work s) (attempts s ! j) \<and> \<not> authentication_blocked (reg s) (dk_account k) k (at_epoch (attempts s ! j))"
      using ok w by (simp add: fence_ok_def worker_ok_def)
    moreover from this have "\<not> authentication_blocked (reg ?s') (dk_account k) k (at_epoch (attempts s ! j))"
      using fewer_fences [of "reg s" k _ "reg ?s'"] fewer by blast
    ultimately show "j < length (attempts ?s') \<and> worker_stage (work ?s') (attempts ?s' ! j)
        \<and> \<not> authentication_blocked (reg ?s') (dk_account k) k (at_epoch (attempts ?s' ! j))"
      unfolding j by simp
  qed
  ultimately show ?thesis by (simp add: fence_ok_def)
qed

lemma fence_ok_begin:
  assumes ok: "fence_ok n s" and st: "st \<noteq> Gone"
  shows "fence_ok (Suc n) (begin_attempt req st s)"
proof (cases "registry_closed (reg s)")
  case True
  then show ?thesis using ok by (intro fence_ok_same [OF ok]) (auto simp: begin_attempt_def fence_ok_def worker_ok_def split: work.split)
next
  case False
  let ?e = "disconnect_epoch (reg s)" and ?s' = "begin_attempt req st s"
  let ?r = "(reg s)\<lparr>authentication_epochs := increment_count (disconnect_epoch (reg s)) (authentication_epochs (reg s))\<rparr>"
  have s': "?s' = s\<lparr>reg := ?r, attempts := attempts s @ [\<lparr>at_epoch = ?e, at_request = req, at_stage = st\<rparr>]\<rparr>"
    using False by (simp add: begin_attempt_def begin_authentication_def increment_count_def Let_def)
  have same: "fences_distinct ?r = fences_distinct (reg s)" "drain_count t ?r = drain_count t (reg s)"
    "authentication_blocked ?r a k e = authentication_blocked (reg s) a k e" for t a k e
    by (simp_all add: fences_distinct_def drain_count_def authentication_blocked_def split: drain_target.split)
  have "live_at e (attempts ?s') = live_at e (attempts s) + of_bool (e = ?e)" for e
    using st unfolding s' by (simp add: live_at_def is_live_def)
  then have "epochs_ok (Suc n) ?s'"
    using ok unfolding s' by (auto simp: fence_ok_def epochs_ok_def same outstanding_def)
  moreover have "sessions_ok (Suc n) ?s'" "waiting_ok ?s'"
    using ok waiting_ok_same [of ?s' s] unfolding s' by (simp_all add: fence_ok_def sessions_ok_def)
  moreover have "worker_ok ?s'"
    using ok unfolding s' by (auto simp: fence_ok_def worker_ok_def same nth_append)
  ultimately show ?thesis by (simp add: fence_ok_def)
qed

lemma epoch_up: "unat (e :: u64) \<le> n \<Longrightarrow> n < 2 ^ 64 - 2 \<Longrightarrow> unat (e + 1) = unat e + 1"
  by (simp add: unat_word_ariths)

lemma finish_drain_keeps:
  "authentication_epochs (finish_drain t r) = authentication_epochs r" "sessions (finish_drain t r) = sessions r"
  by (simp_all add: finish_drain_def prune_disconnects_def Let_def split: drain_target.split)

lemma begin_drain_keeps:
  "authentication_epochs (begin_target_drain t r) = authentication_epochs r" "sessions (begin_target_drain t r) = sessions r"
  by (cases t; simp add: Let_def)+

lemma count_positive: "t \<in> set ts \<Longrightarrow> count_list ts t > 0"
  using count_list_0_iff [of ts t] by auto

lemma fence_ok_finish:
  assumes ok: "fence_ok n s" and n: "n < 2 ^ 64 - 2" and t: "t \<in> set (outstanding s)"
    and s': "reg s' = finish_drain t (reg s)" "attempts s' = attempts s" "held s' = held s"
    and out: "\<And>t'. count_list (outstanding s') t' = count_list (outstanding s) t' - of_bool (t' = t)"
    and waiting: "waiting_ok s'" and worker: "\<And>i k. worker_key (work s') = Some (i, k) \<Longrightarrow> work s' = work s"
  shows "fence_ok (Suc n) s'"
proof -
  have dist: "fences_distinct (reg s)" using ok by (simp add: fence_ok_def epochs_ok_def)
  note fin = finish_drain_effect [OF dist]
  have up: "unat (disconnect_epoch (reg s) + 1) = unat (disconnect_epoch (reg s)) + 1"
    using epoch_up ok n by (auto simp: fence_ok_def epochs_ok_def)
  have "epochs_ok (Suc n) s'"
    using ok s' out up by (auto simp: fence_ok_def epochs_ok_def fin finish_drain_keeps word_le_nat_alt)
  moreover have "sessions_ok (Suc n) s'" using ok s' by (simp add: fence_ok_def sessions_ok_def finish_drain_keeps)
  moreover have "worker_ok s'"
    unfolding worker_ok_def
  proof (intro allI impI)
    fix i k assume w: "worker_key (work s') = Some (i, k)"
    from worker [OF w] have same: "work s' = work s" .
    then have old: "i < length (attempts s) \<and> worker_stage (work s) (attempts s ! i) \<and> \<not> authentication_blocked (reg s) (dk_account k) k (at_epoch (attempts s ! i))"
      using ok w by (simp add: fence_ok_def worker_ok_def)
    then have "\<not> covers t k" using unblocked_outstanding [OF ok _ t] by blast
    then have "fence t' (reg s) = Some f" if "covers t' k" "fence t' (reg s') = Some f" for t' f
      using that by (cases "t' = t") (auto simp: s'(1) fin(4) split: option.splits if_splits)
    then have "\<not> authentication_blocked (reg s') (dk_account k) k (at_epoch (attempts s ! i))"
      using fewer_fences [of "reg s" k _ "reg s'"] old fin(1) s'(1) by simp
    then show "i < length (attempts s') \<and> worker_stage (work s') (attempts s' ! i)
        \<and> \<not> authentication_blocked (reg s') (dk_account k) k (at_epoch (attempts s' ! i))"
      using old same s'(2) by simp
  qed
  ultimately show ?thesis using waiting by (simp add: fence_ok_def)
qed

lemma fence_ok_begin_drain:
  assumes ok: "fence_ok n s" and n: "n < 2 ^ 64 - 2" and w: "work s = DrainStep t keep"
  shows "fence_ok (Suc n) (s\<lparr>reg := begin_target_drain t (reg s), work := CancelStep t keep\<rparr>)" (is "fence_ok _ ?s'")
proof -
  have up: "unat (disconnect_epoch (reg s) + 1) = unat (disconnect_epoch (reg s)) + 1"
    using epoch_up ok n by (auto simp: fence_ok_def epochs_ok_def)
  have "outstanding ?s' = t # outstanding s" using w by (simp add: outstanding_def)
  then have "epochs_ok (Suc n) ?s'"
    using ok up by (auto simp: fence_ok_def epochs_ok_def begin_drain_effect begin_drain_keeps word_le_nat_alt)
  moreover have "sessions_ok (Suc n) ?s'" using ok by (simp add: fence_ok_def sessions_ok_def begin_drain_keeps)
  ultimately show ?thesis using ok by (simp add: fence_ok_def waiting_ok_def worker_ok_def)
qed

lemma cancel_target_facts:
  assumes "cancel_target t r = (ws, r')"
  shows "view r' = view r" "begin_drain (target_account t) (target_device t) (sessions r) = (ws, sessions r')"
  using assms by (auto simp: cancel_target_def split: prod.splits)

lemma fence_ok_cancel:
  assumes ok: "fence_ok n s" and n: "n < 2 ^ 64 - 2" and w: "work s = CancelStep t keep" and c: "cancel_target t (reg s) = (ws, r')"
  shows "fence_ok (Suc n) (s\<lparr>reg := r', work := WaitStep t keep ws\<rparr>)" (is "fence_ok _ ?s'")
proof -
  note c' = cancel_target_facts [OF c]
  let ?gs = "mset (map fst (held s))"
  have inv: "live_inv \<lparr>live = sessions (reg s), guards = ?gs\<rparr>" "alive (sessions (reg s))"
    using ok by (simp_all add: fence_ok_def sessions_ok_def)
  have ws: "ws = snapshot (target_account t) (target_device t) (table (sessions (reg s)))"
    using c'(2) by (simp add: begin_drain_def Let_def)
  have "sessions r' = (sessions (reg s))\<lparr>store := foldl cancel_session (store (sessions (reg s))) ws\<rparr>"
    using arg_cong [OF c'(2), of snd] unfolding ws by (simp add: begin_drain_def Let_def)
  then have l': "alive (sessions r') \<and> length (store (sessions r')) = length (store (sessions (reg s)))"
    using inv(2) by (simp add: store_cancelled)
  have "live_inv \<lparr>live = sessions r', guards = ?gs\<rparr>"
    using live_inv_step [OF live_step.cancel [OF inv(2) c'(2)] _ inv(1)] l' ok n by (simp add: fence_ok_def sessions_ok_def)
  then have "sessions_ok (Suc n) ?s'" using ok l' by (simp add: fence_ok_def sessions_ok_def)
  moreover have "outstanding ?s' = outstanding s" using w by (simp add: outstanding_def)
  then have "epochs_ok (Suc n) ?s'" using ok view_eq [OF c'(1)] by (simp add: fence_ok_def epochs_ok_def)
  moreover have "guard_session g \<in> set ws" if "(g, i) \<in> set (held s)" "covers t (key_of (guard_key g))" for g i
  proof -
    have "entries (table (sessions (reg s))) = ?gs" using inv by (simp add: live_inv_def)
    then have "g \<in># in_scope (target_account t) (target_device t) (entries (table (sessions (reg s))))"
      using that covers_matches [of t "guard_key g"] by (force simp: image_iff)
    then show ?thesis using snapshot_entries [of "target_account t" "target_device t" "table (sessions (reg s))"] ws
      by (metis imageI set_image_mset set_mset_mset)
  qed
  then have "waiting_ok ?s'" using ok w by (auto simp: fence_ok_def waiting_ok_def)
  ultimately show ?thesis by (simp add: fence_ok_def worker_ok_def)
qed

text \<open>When the wait is over no session of the target is left.\<close>

lemma drained:
  assumes ok: "fence_ok n s" and w: "work s = WaitStep t keep ws" and over: "drain_wait ws (sessions (reg s)) = []"
    and g: "(g, i) \<in> set (held s)"
  shows "\<not> covers t (key_of (guard_key g))"
proof
  assume c: "covers t (key_of (guard_key g))"
  let ?l = "\<lparr>live = sessions (reg s), guards = mset (map fst (held s))\<rparr>"
  have inv: "live_inv ?l" using ok by (simp add: fence_ok_def sessions_ok_def)
  have in_gs: "g \<in># guards ?l" using g by (force simp: image_iff)
  then have "guard_session g < length (store (live ?l))" using inv by (auto simp: live_inv_def)
  moreover have "guard_session g \<in> set ws" using ok w g c by (auto simp: fence_ok_def waiting_ok_def)
  then have "finished (store (live ?l) ! guard_session g)" using over by (simp add: drain_wait_done)
  ultimately show False using finished_iff [OF inv] in_gs by blast
qed

lemma worker_of_key: "worker_of w = Some i \<longleftrightarrow> (\<exists>k. worker_key w = Some (i, k))"
  by (cases w) auto

lemma worker_targets: "worker_key w = Some x \<Longrightarrow> work_targets w = []"
  by (cases w) auto

lemma fence_ok_abandon:
  assumes ok: "fence_ok n s" and t: "work_targets (work s) = []" and r: "view r = view (reg s)" "sessions r = sessions (reg s)"
  shows "fence_ok (Suc n) (abandon (s\<lparr>reg := r\<rparr>))"
proof (rule fence_ok_same [OF ok])
  show "shape (attempts (abandon (s\<lparr>reg := r\<rparr>))) = shape (attempts s)"
  proof (cases "worker_of (work s)")
    case None
    then show ?thesis by (simp add: abandon_def Let_def)
  next
    case (Some i)
    then obtain k where k: "worker_key (work s) = Some (i, k)" by (auto simp: worker_of_key)
    then have "i < length (attempts s)" "worker_stage (work s) (attempts s ! i)" using ok by (simp_all add: fence_ok_def worker_ok_def)
    then have "is_live (attempts s ! i)" using worker_live [OF k] by blast
    then show ?thesis
      using Some \<open>i < length (attempts s)\<close> shape_set_stage [of i "s\<lparr>reg := r, work := Idle\<rparr>" Finished] by (simp add: abandon_def Let_def)
  qed
qed (use t r in simp_all)

lemma fence_ok_work:
  assumes ok: "fence_ok n s" and "view r = view (reg s)" and "sessions r = sessions (reg s)"
    and "work_targets (work s) = []" and "work_targets w = []" and "worker_key w = None"
  shows "fence_ok (Suc n) (s\<lparr>reg := r, work := w\<rparr>)"
  by (rule fence_ok_same [OF ok]) (use assms in \<open>auto split: work.split\<close>)

text \<open>The worker that commits is admitted: it is not blocked.\<close>

lemma fence_ok_commit:
  assumes ok: "fence_ok n s" and n: "n < 2 ^ 64 - 2" and w: "worker_key (work s) = Some (i, k)"
    and r: "view r = view (reg s)" "register_session (dk_account k) (dk_device k) (sessions (reg s)) = (authenticated_guard session, sessions r)"
  shows "fence_ok (Suc n) (accept i session (s\<lparr>reg := r, work := Idle\<rparr>))"
proof (rule fence_ok_admit [OF ok n, where k = k and g = "authenticated_guard session" and i = i])
  have i: "i < length (attempts s)" "worker_stage (work s) (attempts s ! i)"
    and new: "\<not> authentication_blocked (reg s) (dk_account k) k (at_epoch (attempts s ! i))"
    using ok w by (simp_all add: fence_ok_def worker_ok_def)
  then have "is_live (attempts s ! i)" using worker_live [OF w] by blast
  then show "shape (attempts (accept i session (s\<lparr>reg := r, work := Idle\<rparr>))) = shape (attempts s)"
    using i(1) shape_set_stage [of i "s\<lparr>reg := r, work := Idle, held := (authenticated_guard session, i) # held s\<rparr>" Finished]
    by (simp add: accept_def)
  show "\<not> covers t k" if "t \<in> set (outstanding s)" for t by (rule unblocked_outstanding [OF ok new that])
qed (use r worker_targets [OF w] in simp_all)

lemma apply_change_view:
  assumes "apply_change api change r = (res, r')"
  shows "view r' = view r \<and> sessions r' = sessions r"
  by (rule apply_change_keeps [OF assms]) (simp add: view_def)

lemma commit_device_view:
  assumes "commit_device api p v en r = (Ok session, r')"
  shows "view r' = view r \<and> register_session (en_account en) (device_id_of p) (sessions r) = (authenticated_guard session, sessions r')"
  using assms by (auto simp: commit_device_def dest: admit_device_view split: sum.splits prod.splits)

lemma commit_proxy_view:
  assumes "commit_proxy api account candidate r = (Ok session, r')"
  shows "view r' = view r \<and> register_session account FORWARD_PROXY_DEVICE_ID (sessions r) = (authenticated_guard session, sessions r')"
  using assms by (auto simp: commit_proxy_def dest: admit_session_view split: sum.splits prod.splits)

lemma fence_ok_end_drain:
  assumes ok: "fence_ok n s" and n: "n < 2 ^ 64 - 2" and w: "work s = WaitStep t keep ws"
    and over: "drain_wait ws (sessions (reg s)) = []"
  shows "fence_ok (Suc n) (end_drain t keep s)"
proof -
  have finish: "fence_ok (Suc n) (s\<lparr>work := Idle, reg := finish_drain t (reg s)\<rparr>)"
    by (rule fence_ok_finish [OF ok n, of t]) (use w ok in \<open>auto simp: outstanding_def fence_ok_def waiting_ok_def\<close>)
  have keep: "fence_ok (Suc n) (s\<lparr>work := Idle, retirements := k # retirements s\<rparr>)" (is "fence_ok _ ?s'") if t: "t = DeviceTarget k" for k
  proof -
    have "count_list (outstanding ?s') t' = count_list (outstanding s) t'" for t'
      using w t by (simp add: outstanding_def)
    then have "epochs_ok (Suc n) ?s'" using ok by (simp add: fence_ok_def epochs_ok_def)
    moreover have "sessions_ok (Suc n) ?s'" using ok by (simp add: fence_ok_def sessions_ok_def)
    moreover have "waiting_ok ?s'" using ok drained [OF ok w over] t by (auto simp: fence_ok_def waiting_ok_def covers_def)
    ultimately show ?thesis by (simp add: fence_ok_def worker_ok_def)
  qed
  show ?thesis using finish keep by (auto simp: end_drain_def split: drain_target.split)
qed

lemma fence_ok_proceed:
  assumes ok: "fence_ok n s" and n: "n < 2 ^ 64 - 2"
  shows "fence_ok (Suc n) (proceed api s)"
proof (cases "work s")
  case (EnrolCommit i p v en)
  obtain res r' where c: "commit_device api p v en (reg s) = (res, r')" by fastforce
  show ?thesis
  proof (cases res)
    case (Inl e)
    then have "r' = reg s" using c by (auto simp: commit_device_def split: sum.splits prod.splits)
    then show ?thesis using c Inl EnrolCommit fence_ok_abandon [OF ok, of "reg s"] by (simp add: proceed_def)
  next
    case (Inr session)
    then show ?thesis
      using commit_device_view [OF c [unfolded Inr]] fence_ok_commit [OF ok n, of i _ r' session] c EnrolCommit by (simp add: proceed_def)
  qed
next
  case (ProxyCommit i account candidate)
  obtain res r' where c: "commit_proxy api account candidate (reg s) = (res, r')" by fastforce
  show ?thesis
  proof (cases res)
    case (Inl e)
    then have "r' = reg s" using c by (auto simp: commit_proxy_def split: sum.splits prod.splits)
    then show ?thesis using c Inl ProxyCommit fence_ok_abandon [OF ok, of "reg s"] by (simp add: proceed_def)
  next
    case (Inr session)
    then show ?thesis
      using commit_proxy_view [OF c [unfolded Inr]] fence_ok_commit [OF ok n, of i _ r' session] c ProxyCommit by (simp add: proceed_def)
  qed
next
  case (ChangeCommit change candidate)
  obtain res r' where c: "apply_change api change (reg s) = (res, r')" by fastforce
  note same = apply_change_view [OF c]
  have "work_targets (after_change change) = []" "worker_key (after_change change) = None" by (cases change; simp)+
  then show ?thesis
    using same fence_ok_work [OF ok, of r' "after_change change"] fence_ok_abandon [OF ok, of r'] c ChangeCommit
    by (cases res) (simp_all add: proceed_def)
next
  case (DrainStep t keep)
  then show ?thesis using fence_ok_begin_drain [OF ok n] by (simp add: proceed_def)
next
  case (CancelStep t keep)
  then show ?thesis using fence_ok_cancel [OF ok n CancelStep] by (cases "cancel_target t (reg s)") (simp add: proceed_def)
next
  case (WaitStep t keep ws)
  have "fence_ok (Suc n) s" using ok by (auto simp: fence_ok_def epochs_ok_def sessions_ok_def)
  then show ?thesis using WaitStep fence_ok_end_drain [OF ok n WaitStep] by (simp add: proceed_def)
next
  case (FlushCommit version)
  then show ?thesis
    using fence_ok_work [OF ok, of "flush_commit version (reg s)" Idle] by (simp add: proceed_def flush_commit_def view_def)
next
  case (ForgetStep t keep)
  then show ?thesis
    using fence_ok_work [OF ok, of "forget_nonces t (reg s)" "DrainStep t keep"]
    by (simp add: proceed_def forget_nonces_def view_def split: drain_target.splits)
qed (use ok in \<open>auto simp: proceed_def fence_ok_def epochs_ok_def sessions_ok_def\<close>)

lemma persist_view:
  "view (snd (persist_clients api fs cs r)) = view r" "sessions (snd (persist_clients api fs cs r)) = sessions r"
proof -
  obtain res r' where w: "persist_clients api fs cs r = (res, r')" by fastforce
  have "view r' = view r \<and> sessions r' = sessions r" by (rule persist_clients_keeps [OF w]) (simp add: view_def)
  then show "view (snd (persist_clients api fs cs r)) = view r" "sessions (snd (persist_clients api fs cs r)) = sessions r"
    using w by simp_all
qed

lemma detached_view:
  "view (detach_write api cs r) = view r" "sessions (detach_write api cs r) = sessions r" "nonces (detach_write api cs r) = nonces r"
  "view (run_detached fs k r) = view r" "sessions (run_detached fs k r) = sessions r" "nonces (run_detached fs k r) = nonces r"
proof -
  show "view (detach_write api cs r) = view r" "sessions (detach_write api cs r) = sessions r" "nonces (detach_write api cs r) = nonces r"
    by (simp_all add: detach_write_def view_def Let_def split: sum.split)
  have "view (snd (persist_task fs q data r)) = view r \<and> sessions (snd (persist_task fs q data r)) = sessions r
      \<and> nonces (snd (persist_task fs q data r)) = nonces r" for q data
    using persist_task_keeps [of fs q data r] by (auto simp: view_def)
  then show "view (run_detached fs k r) = view r" "sessions (run_detached fs k r) = sessions r" "nonces (run_detached fs k r) = nonces r"
    by (simp_all add: run_detached_def view_def)
qed

lemma pending_write_worker:
  "pending_write w = Some (cs, w') \<Longrightarrow> work_targets w = [] \<and> work_targets w' = [] \<and> worker_key w' = worker_key w
    \<and> (\<forall>a. worker_stage w' a = worker_stage w a \<or> worker_key w = None) \<and> (\<forall>t k ws. w' \<noteq> WaitStep t k ws)"
  by (cases w) auto

lemma fence_ok_write:
  assumes ok: "fence_ok n s"
  shows "fence_ok (Suc n) (write_file api fs s)"
proof (cases "pending_write (work s)")
  case None
  then show ?thesis using ok by (auto simp: write_file_def fence_ok_def epochs_ok_def sessions_ok_def)
next
  case (Some x)
  obtain cs w' where x: "pending_write (work s) = Some (cs, w')" using Some by (cases x) auto
  obtain res r' where w: "persist_clients api fs cs (reg s) = (res, r')" by fastforce
  have r': "view r' = view (reg s)" "sessions r' = sessions (reg s)" using persist_view [of api fs cs "reg s"] w by simp_all
  note p = pending_write_worker [OF x]
  have "fence_ok (Suc n) (s\<lparr>reg := r', work := w'\<rparr>)"
  proof (rule fence_ok_same [OF ok])
    show "case work (s\<lparr>reg := r', work := w'\<rparr>) of WaitStep _ _ _ \<Rightarrow> work (s\<lparr>reg := r', work := w'\<rparr>) = work s | _ \<Rightarrow> True"
      using p by (simp split: work.split)
    show "i < length (attempts s) \<and> worker_stage (work (s\<lparr>reg := r', work := w'\<rparr>)) (attempts (s\<lparr>reg := r', work := w'\<rparr>) ! i)
        \<and> \<not> authentication_blocked (reg s) (dk_account k) k (at_epoch (attempts s ! i))"
      if "worker_key (work (s\<lparr>reg := r', work := w'\<rparr>)) = Some (i, k)" for i k
      using that p ok by (auto simp: fence_ok_def worker_ok_def)
  qed (use r' p in simp_all)
  then show ?thesis using x w p r' fence_ok_abandon [OF ok, of r'] by (cases res) (simp_all add: write_file_def)
qed

lemma fence_ok_give_up:
  assumes ok: "fence_ok n s" and n: "n < 2 ^ 64 - 2"
  shows "fence_ok (Suc n) (give_up api s)"
proof (cases "pending_write (work s)")
  case (Some x)
  obtain cs w' where x: "pending_write (work s) = Some (cs, w')" using Some by (cases x) auto
  note p = pending_write_worker [OF x]
  have "give_up api s = abandon (s\<lparr>reg := detach_write api cs (reg s)\<rparr>)"
    using x by (cases "work s") (auto simp: give_up_def)
  then show ?thesis using p detached_view(1,2) [where api = api and cs = cs and r = "reg s"] fence_ok_abandon [OF ok, of "detach_write api cs (reg s)"] by simp
next
  case None
  have same: "fence_ok (Suc n) s" using ok by (auto simp: fence_ok_def epochs_ok_def sessions_ok_def)
  show ?thesis
  proof (cases "work s")
    case (WaitStep t keep ws)
    have "fence_ok (Suc n) (s\<lparr>work := Idle, reg := finish_drain t (reg s)\<rparr>)"
      by (rule fence_ok_finish [OF ok n, of t]) (use WaitStep ok in \<open>auto simp: outstanding_def fence_ok_def waiting_ok_def\<close>)
    then show ?thesis using WaitStep by (simp add: give_up_def)
  qed (use None same in \<open>simp_all add: give_up_def\<close>)
qed

lemma count_remove_nth: "m < length xs \<Longrightarrow> count_list (remove_nth m xs) x = count_list xs x - of_bool (x = xs ! m)"
proof -
  assume m: "m < length xs"
  have "count_list xs x = count_list (take m xs) x + (of_bool (x = xs ! m) + count_list (drop (Suc m) xs) x)"
    by (subst id_take_nth_drop [OF m]) auto
  then show ?thesis by (simp add: remove_nth_def)
qed

lemma fence_ok_end_retirement:
  assumes ok: "fence_ok n s" and n: "n < 2 ^ 64 - 2" and m: "m < length (retirements s)"
  shows "fence_ok (Suc n) (s\<lparr>reg := finish_drain (DeviceTarget (retirements s ! m)) (reg s), retirements := remove_nth m (retirements s)\<rparr>)"
    (is "fence_ok _ ?s'")
proof (rule fence_ok_finish [OF ok n, of "DeviceTarget (retirements s ! m)"])
  show "DeviceTarget (retirements s ! m) \<in> set (outstanding s)" using m by (simp add: outstanding_def)
  have "map DeviceTarget (remove_nth m (retirements s)) = remove_nth m (map DeviceTarget (retirements s))"
    by (simp add: remove_nth_def take_map drop_map)
  moreover have "count_list (map DeviceTarget (retirements s)) t' \<ge> of_bool (t' = DeviceTarget (retirements s ! m))" for t'
    using m count_positive [of t' "map DeviceTarget (retirements s)"] by (auto simp: of_bool_def)
  ultimately show "count_list (outstanding ?s') t' = count_list (outstanding s) t' - of_bool (t' = DeviceTarget (retirements s ! m))" for t'
    using m by (simp add: outstanding_def count_remove_nth)
  show "waiting_ok ?s'"
    using ok set_remove_nth [of m "retirements s"] by (auto simp: fence_ok_def waiting_ok_def split: work.splits)
qed simp_all

lemma fence_ok_drop_guard:
  assumes ok: "fence_ok n s" and n: "n < 2 ^ 64 - 2" and m: "m < length (held s)"
  shows "fence_ok (Suc n) (s\<lparr>reg := (reg s)\<lparr>sessions := drop_guard (fst (held s ! m)) (sessions (reg s))\<rparr>, held := remove_nth m (held s)\<rparr>)"
    (is "fence_ok _ ?s'")
proof -
  let ?g = "fst (held s ! m)"
  have "map fst (held s) = map fst (take m (held s)) @ ?g # map fst (drop (Suc m) (held s))"
    by (subst id_take_nth_drop [OF m]) simp
  then have gs: "mset (map fst (held s)) = add_mset ?g (mset (map fst (remove_nth m (held s))))"
    by (simp add: remove_nth_def)
  let ?l = "\<lparr>live = sessions (reg s), guards = mset (map fst (held s))\<rparr>"
  let ?l' = "\<lparr>live = drop_guard ?g (sessions (reg s)), guards = mset (map fst (remove_nth m (held s)))\<rparr>"
  have step: "live_step ?l ?l'" unfolding gs by (rule live_step.close_session)
  have len: "length (store (drop_guard ?g (sessions (reg s)))) = length (store (sessions (reg s)))" "alive (drop_guard ?g (sessions (reg s))) = alive (sessions (reg s))"
    by (simp_all add: drop_guard_def mark_finished_def)
  have "live_inv ?l'" using live_inv_step [OF step] len ok n by (simp add: fence_ok_def sessions_ok_def)
  then have "sessions_ok (Suc n) ?s'" using len ok by (simp add: fence_ok_def sessions_ok_def)
  moreover have "epochs_ok (Suc n) ?s'"
    using ok view_eq [of "reg ?s'" "reg s"] by (simp add: fence_ok_def epochs_ok_def outstanding_def)
  moreover have "waiting_ok ?s'"
    using ok set_remove_nth [of m "held s"] by (fastforce simp: fence_ok_def waiting_ok_def split: work.splits)
  moreover have "worker_ok ?s'" using ok view_eq(6) [of "reg ?s'" "reg s"] by (simp add: fence_ok_def worker_ok_def)
  ultimately show ?thesis by (simp add: fence_ok_def)
qed

lemma fence_ok_step:
  assumes ok: "fence_ok n s" and n: "n < 2 ^ 64 - 2"
  shows "fence_ok (Suc n) (registry_do api s act)"
proof -
  have same: "fence_ok (Suc n) s" using ok by (auto simp: fence_ok_def epochs_ok_def sessions_ok_def)
  show ?thesis
  proof (cases act)
    case (CheckProof i at now)
    show ?thesis
    proof (cases "i < length (attempts s) \<and> at_stage (attempts s ! i) = Started")
      case True
      have free: "worker_key (work s) \<noteq> Some (i, k)" for k by (rule not_worker [OF ok]) (use True in simp_all)
      have "fence_ok (Suc n) (set_stage i st s)" if "st \<noteq> Gone" for st
        using fence_ok_stage [OF ok, of i st "reg s"] True free that by (simp add: is_live_def)
      then show ?thesis using CheckProof same by (auto simp: check_proof_def split: request.split stage.split sum.split)
    next
      case False
      then show ?thesis using CheckProof same by (auto simp: check_proof_def split: request.split stage.split)
    qed
  next
    case (DropAttempt i)
    have "worker_key (work s) \<noteq> Some (i, k)" if "worker_of (work s) \<noteq> Some i" for k using that by (auto simp: worker_of_key)
    then show ?thesis
      using DropAttempt same fence_ok_drop [OF ok, of i] by (auto simp: drop_authentication_def is_live_def)
  next
    case (Administer req)
    have "work_targets w = [] \<and> worker_key w = None" if "administer api req (reg s) = Ok w" for w
      using that by (cases req) auto
    then show ?thesis
      using Administer same fence_ok_work [OF ok, of "reg s"] by (auto split: sum.split)
  next
    case Flush
    then show ?thesis
      using same fence_ok_work [OF ok, of "reg s" "FlushWrite (metadata_version (reg s)) (clients (reg s))"] by (simp add: flush_candidate_def)
  next
    case CloseRegistry
    then show ?thesis
      using same ok by (cases "work s = Idle") (auto intro!: fence_ok_same [OF ok] simp: view_def)
  next
    case (RetrySync reply)
    have "view (snd (retry_durability_sync reply (reg s))) = view (reg s)" "sessions (snd (retry_durability_sync reply (reg s))) = sessions (reg s)"
      by (auto simp: retry_durability_sync_def view_def split: option.split sum.split)
    then show ?thesis
      using RetrySync ok by (intro fence_ok_same [OF ok]) (auto simp: fence_ok_def worker_ok_def split: work.split)
  next
    case (RunDetached fs k)
    then show ?thesis
      using ok by (intro fence_ok_same [OF ok]) (auto simp: detached_view fence_ok_def worker_ok_def split: work.split)
  qed (use same fence_ok_begin [OF ok] fence_ok_run_fast [OF ok n, where api = api] fence_ok_take_lock [OF ok n, where api = api] fence_ok_write [OF ok]
      fence_ok_proceed [OF ok n] fence_ok_give_up [OF ok n] fence_ok_end_retirement [OF ok n] fence_ok_drop_guard [OF ok n] in simp_all)
qed

subsection \<open>Revocation\<close>

text \<open>What one section can do: attempts keep their epoch, a session is opened only by an attempt that is
  not blocked, and a fence that some attempt may still need stays or is renewed.\<close>

definition effect :: "'tm registry_system \<Rightarrow> 'tm registry_system \<Rightarrow> bool" where
  "effect s s' \<longleftrightarrow>
    length (attempts s) \<le> length (attempts s')
    \<and> (\<forall>i < length (attempts s). at_epoch (attempts s' ! i) = at_epoch (attempts s ! i)
        \<and> (is_live (attempts s' ! i) \<longrightarrow> is_live (attempts s ! i)))
    \<and> (\<forall>(g, i) \<in> set (held s'). (g, i) \<in> set (held s)
        \<or> (i < length (attempts s) \<and> is_live (attempts s ! i)
           \<and> \<not> authentication_blocked (reg s) (dk_account (key_of (guard_key g))) (key_of (guard_key g)) (at_epoch (attempts s ! i))))
    \<and> (\<forall>t f. fence t (reg s) = Some f \<and> f > oldest (reg s') \<and> disconnect_epoch (reg s) + 1 > oldest (reg s') \<longrightarrow>
        fence t (reg s') \<in> {Some f, Some (disconnect_epoch (reg s) + 1)})
    \<and> disconnect_epoch (reg s') \<in> {disconnect_epoch (reg s), disconnect_epoch (reg s) + 1}"

lemma effect_same:
  assumes "view (reg s') = view (reg s)" and "shape (attempts s') = shape (attempts s)"
    and "\<And>g i. (g, i) \<in> set (held s') \<Longrightarrow> (g, i) \<in> set (held s)
        \<or> (i < length (attempts s) \<and> is_live (attempts s ! i)
           \<and> \<not> authentication_blocked (reg s) (dk_account (key_of (guard_key g))) (key_of (guard_key g)) (at_epoch (attempts s ! i)))"
  shows "effect s s'"
proof -
  have "at_epoch (attempts s' ! i) = at_epoch (attempts s ! i) \<and> is_live (attempts s' ! i) = is_live (attempts s ! i)"
    if "i < length (attempts s)" for i using shape_eq(2,4) [OF assms(2)] that by simp
  moreover have "\<forall>(g, i) \<in> set (held s'). (g, i) \<in> set (held s)
        \<or> (i < length (attempts s) \<and> is_live (attempts s ! i)
           \<and> \<not> authentication_blocked (reg s) (dk_account (key_of (guard_key g))) (key_of (guard_key g)) (at_epoch (attempts s ! i)))"
    using assms(3) by blast
  ultimately show ?thesis
    using view_eq(1,5) [OF assms(1)] shape_eq(2) [OF assms(2)] unfolding effect_def by simp
qed

lemma effect_refl [simp]: "effect s s"
  by (rule effect_same) auto

lemma effect_stage:
  assumes "i < length (attempts s)" and "is_live (attempts s ! i)" and "st \<noteq> Gone" and "view r = view (reg s)"
  shows "effect s (set_stage i st (s\<lparr>reg := r\<rparr>))"
  by (rule effect_same) (use assms shape_set_stage [of i "s\<lparr>reg := r\<rparr>" st] in auto)

lemma effect_accept:
  assumes "i < length (attempts s)" and "is_live (attempts s ! i)" and "view (reg s') = view (reg s)"
    and "register_session (dk_account k) (dk_device k) l = (authenticated_guard session, l')"
    and "\<not> authentication_blocked (reg s) (dk_account k) k (at_epoch (attempts s ! i))"
    and "s' = accept i session (s\<lparr>reg := r, work := w\<rparr>)"
  shows "effect s s'"
proof (rule effect_same)
  have "key_of (guard_key (authenticated_guard session)) = k" using register_facts [OF assms(4)] by (cases k) simp
  then show "(g, j) \<in> set (held s) \<or> (j < length (attempts s) \<and> is_live (attempts s ! j)
      \<and> \<not> authentication_blocked (reg s) (dk_account (key_of (guard_key g))) (key_of (guard_key g)) (at_epoch (attempts s ! j)))"
    if "(g, j) \<in> set (held s')" for g j
    using that assms(1,2,5,6) by auto
  show "shape (attempts s') = shape (attempts s)"
    using shape_set_stage [of i "s\<lparr>reg := r, work := w, held := (authenticated_guard session, i) # held s\<rparr>" Finished] assms(1,2,6)
    by (simp add: accept_def)
qed (use assms in simp)

lemma effect_fast:
  assumes i: "i < length (attempts s)"
  shows "effect s (run_fast api i s)"
proof (cases rule: run_fast_cases [of api i s])
  case other
  then show ?thesis by (simp add: effect_refl)
next
  case (device token p verb path v now res r')
  have live: "is_live (attempts s ! i)" using device(2) by (simp add: is_live_def)
  from device(3) show ?thesis
  proof (cases rule: fast_device_cases)
    case (admitted session j r1)
    note gate = gate_passed [OF admitted(2)] and adm = admit_device_view [OF admitted(3)]
    show ?thesis
      by (rule effect_accept [OF i live, where k = "device_key_of (clients (reg s) ! j) p" and l = "sessions (reg s)" and w = "work s" and r = r'])
        (use gate adm device(4) admitted(1) in simp_all)
  qed (use device(4) effect_stage [OF i live] in simp_all)
next
  case (proxy token now res r')
  have live: "is_live (attempts s ! i)" using proxy(2) by (simp add: is_live_def)
  from proxy(3) show ?thesis
  proof (cases rule: fast_proxy_cases)
    case (admitted session j cs dirty version)
    note adm = admit_session_view [OF admitted(5)]
    show ?thesis
      by (rule effect_accept [OF i live, where k = "proxy_key (cl_id (clients (reg s) ! j))" and l = "sessions (reg s)" and w = "work s" and r = r'])
        (use adm proxy(4) admitted in \<open>simp_all add: view_def\<close>)
  qed (use proxy(4) effect_stage [OF i live, where r = "reg s"] in simp_all)
qed

lemma effect_work: "view r = view (reg s) \<Longrightarrow> effect s (s\<lparr>reg := r, work := w\<rparr>)"
  by (rule effect_same) auto

lemma effect_take_lock:
  assumes i: "i < length (attempts s)"
  shows "effect s (take_lock api i s)"
proof (cases rule: take_lock_cases [of api i s])
  case other
  then show ?thesis by (simp add: effect_refl)
next
  case (device token p verb path v now res r')
  have live: "is_live (attempts s ! i)" using device(2) by (simp add: is_live_def)
  from device(3) show ?thesis
  proof (cases rule: slow_device_cases)
    case (refused e ns)
    then show ?thesis using device(4) effect_stage [OF i live] by simp
  next
    case (admitted session j r1)
    note gate = gate_passed [OF admitted(2)] and adm = admit_device_view [OF admitted(3)]
    show ?thesis
      by (rule effect_accept [OF i live, where k = "device_key_of (clients (reg s) ! j) p" and l = "sessions (reg s)" and w = "work s" and r = r'])
        (use gate adm device(4) admitted(1) in simp_all)
  qed (use device(4) effect_work [of _ s] in simp_all)
next
  case (proxy token now res r')
  have live: "is_live (attempts s ! i)" using proxy(2) by (simp add: is_live_def)
  from proxy(3) show ?thesis
  proof (cases rule: slow_proxy_cases)
    case (refused e)
    then show ?thesis using proxy(4) effect_stage [OF i live, where r = "reg s"] by simp
  next
    case (admitted session j)
    note adm = admit_session_view [OF admitted(4)]
    show ?thesis
      by (rule effect_accept [OF i live, where k = "proxy_key (cl_id (clients (reg s) ! j))" and l = "sessions (reg s)" and w = "work s" and r = r'])
        (use adm proxy(4) admitted in simp_all)
  next
    case (enrol j d)
    then show ?thesis using proxy(4) effect_work [of "reg s" s] by simp
  qed
qed

lemma effect_fences:
  assumes "attempts s' = attempts s" and "set (held s') \<subseteq> set (held s)"
    and "disconnect_epoch (reg s') \<in> {disconnect_epoch (reg s), disconnect_epoch (reg s) + 1}"
    and "\<And>t f. fence t (reg s) = Some f \<Longrightarrow> f > oldest (reg s') \<Longrightarrow> disconnect_epoch (reg s) + 1 > oldest (reg s') \<Longrightarrow> fence t (reg s') \<in> {Some f, Some (disconnect_epoch (reg s) + 1)}"
  shows "effect s s'"
proof -
  have "\<forall>(g, i) \<in> set (held s'). (g, i) \<in> set (held s)
        \<or> (i < length (attempts s) \<and> is_live (attempts s ! i)
           \<and> \<not> authentication_blocked (reg s) (dk_account (key_of (guard_key g))) (key_of (guard_key g)) (at_epoch (attempts s ! i)))"
    using assms(2) by blast
  then show ?thesis using assms(1,3,4) unfolding effect_def by simp
qed

lemma effect_begin_drain: "effect s (s\<lparr>reg := begin_target_drain t (reg s), work := w\<rparr>)"
  by (rule effect_fences) (auto simp: begin_drain_effect)

lemma effect_finish_drain:
  assumes "fence_ok n s" and "reg s' = finish_drain t (reg s)" and "attempts s' = attempts s" and "held s' = held s"
  shows "effect s s'"
proof (rule effect_fences)
  have dist: "fences_distinct (reg s)" using assms(1) by (simp add: fence_ok_def epochs_ok_def)
  note fin = finish_drain_effect [OF dist]
  show "fence t' (reg s') \<in> {Some f, Some (disconnect_epoch (reg s) + 1)}"
    if "fence t' (reg s) = Some f" "f > oldest (reg s')" "disconnect_epoch (reg s) + 1 > oldest (reg s')" for t' f
  proof -
    have old: "oldest (reg s') = (if authentication_epochs (reg s) = [] then disconnect_epoch (reg s) + 1
        else Min (set (map fst (authentication_epochs (reg s)))))"
      using assms(2) by (simp add: oldest_def finish_drain_keeps fin(2))
    have "fence t' (reg s') = (case if t' = t then Some (disconnect_epoch (reg s) + 1) else Some f of None \<Rightarrow> None
        | Some f \<Rightarrow> if f > oldest (reg s') then Some f else None)"
      unfolding old using fin(4) [of t' t] assms(2) that(1) by simp
    then show ?thesis using that(2,3) by auto
  qed
qed (use assms finish_drain_effect(2) in \<open>auto simp: fence_ok_def epochs_ok_def\<close>)

lemma effect_drop:
  assumes ok: "fence_ok n s" and i: "i < length (attempts s)"
  shows "effect s (set_stage i Gone (s\<lparr>reg := drop_attempt (at_epoch (attempts s ! i)) (reg s)\<rparr>))" (is "effect s ?s'")
proof -
  have dist: "fences_distinct (reg s)" using ok by (simp add: fence_ok_def epochs_ok_def)
  have as: "attempts ?s' = (attempts s)[i := (attempts s ! i)\<lparr>at_stage := Gone\<rparr>]" by (simp add: set_stage_def)
  have "\<forall>j < length (attempts s). at_epoch (attempts ?s' ! j) = at_epoch (attempts s ! j) \<and> (is_live (attempts ?s' ! j) \<longrightarrow> is_live (attempts s ! j))"
    unfolding as using i by (auto simp: nth_list_update is_live_def)
  moreover have "fence t (reg ?s') = Some f" if "fence t (reg s) = Some f" "f > oldest (reg ?s')" for t f
    using that drop_attempt_fence [OF dist, of t "at_epoch (attempts s ! i)"] by simp
  ultimately show ?thesis by (auto simp: effect_def drop_attempt_epochs)
qed

lemma effect_begin:
  "effect s (begin_attempt req st s)"
proof (cases "registry_closed (reg s)")
  case True
  then show ?thesis by (simp add: begin_attempt_def effect_refl)
next
  case False
  let ?r = "(reg s)\<lparr>authentication_epochs := increment_count (disconnect_epoch (reg s)) (authentication_epochs (reg s))\<rparr>"
  have s': "begin_attempt req st s = s\<lparr>reg := ?r, attempts := attempts s @ [\<lparr>at_epoch = disconnect_epoch (reg s), at_request = req, at_stage = st\<rparr>]\<rparr>"
    using False by (simp add: begin_attempt_def begin_authentication_def increment_count_def Let_def)
  have "fence t ?r = fence t (reg s)" for t by (simp add: fence_def split: drain_target.split)
  then show ?thesis unfolding s' by (auto simp: effect_def nth_append)
qed

lemma effect_abandon:
  assumes "view r = view (reg s)" and "fence_ok n s"
  shows "effect s (abandon (s\<lparr>reg := r\<rparr>))"
proof (cases "worker_of (work s)")
  case None
  then show ?thesis using effect_work [OF assms(1)] by (simp add: abandon_def Let_def)
next
  case (Some i)
  then obtain k where k: "worker_key (work s) = Some (i, k)" by (auto simp: worker_of_key)
  then have i: "i < length (attempts s)" "worker_stage (work s) (attempts s ! i)" using assms(2) by (simp_all add: fence_ok_def worker_ok_def)
  then have "is_live (attempts s ! i)" using worker_live [OF k] by blast
  then show ?thesis
    using Some i(1) assms(1) shape_set_stage [of i "s\<lparr>reg := r, work := Idle\<rparr>" Finished]
    by (intro effect_same) (auto simp: abandon_def Let_def)
qed

lemma effect_commit:
  assumes ok: "fence_ok n s" and w: "worker_key (work s) = Some (i, k)"
    and r: "view r = view (reg s)" "register_session (dk_account k) (dk_device k) (sessions (reg s)) = (authenticated_guard session, sessions r)"
  shows "effect s (accept i session (s\<lparr>reg := r, work := Idle\<rparr>))"
proof -
  have i: "i < length (attempts s)" "worker_stage (work s) (attempts s ! i)"
    and new: "\<not> authentication_blocked (reg s) (dk_account k) k (at_epoch (attempts s ! i))"
    using ok w by (simp_all add: fence_ok_def worker_ok_def)
  then have live: "is_live (attempts s ! i)" using worker_live [OF w] by blast
  show ?thesis by (rule effect_accept [OF i(1) live _ r(2) new refl]) (use r(1) in simp)
qed

lemma effect_proceed:
  assumes ok: "fence_ok n s"
  shows "effect s (proceed api s)"
proof (cases "work s")
  case (EnrolCommit i p v en)
  obtain res r' where c: "commit_device api p v en (reg s) = (res, r')" by fastforce
  show ?thesis
  proof (cases res)
    case (Inl e)
    then have "r' = reg s" using c by (auto simp: commit_device_def split: sum.splits prod.splits)
    then show ?thesis using c Inl EnrolCommit effect_abandon [OF _ ok, of "reg s"] by (simp add: proceed_def)
  next
    case (Inr session)
    then show ?thesis
      using commit_device_view [OF c [unfolded Inr]] effect_commit [OF ok, of i _ r' session] c EnrolCommit by (simp add: proceed_def)
  qed
next
  case (ProxyCommit i account candidate)
  obtain res r' where c: "commit_proxy api account candidate (reg s) = (res, r')" by fastforce
  show ?thesis
  proof (cases res)
    case (Inl e)
    then have "r' = reg s" using c by (auto simp: commit_proxy_def split: sum.splits prod.splits)
    then show ?thesis using c Inl ProxyCommit effect_abandon [OF _ ok, of "reg s"] by (simp add: proceed_def)
  next
    case (Inr session)
    then show ?thesis
      using commit_proxy_view [OF c [unfolded Inr]] effect_commit [OF ok, of i _ r' session] c ProxyCommit by (simp add: proceed_def)
  qed
next
  case (ChangeCommit change candidate)
  obtain res r' where c: "apply_change api change (reg s) = (res, r')" by fastforce
  then show ?thesis
    using apply_change_view [OF c] effect_work [of r' s] effect_abandon [OF _ ok, of r'] ChangeCommit by (cases res) (simp_all add: proceed_def)
next
  case (DrainStep t keep)
  then show ?thesis using effect_begin_drain by (simp add: proceed_def)
next
  case (CancelStep t keep)
  obtain ws r' where c: "cancel_target t (reg s) = (ws, r')" by fastforce
  then show ?thesis using CancelStep cancel_target_facts(1) [OF c] effect_work [of r' s] by (simp add: proceed_def)
next
  case (WaitStep t keep ws)
  have "effect s (s\<lparr>work := Idle, retirements := k # retirements s\<rparr>)" for k by (rule effect_same) auto
  then have "effect s (end_drain t keep s)"
    using effect_finish_drain [OF ok] by (auto simp: end_drain_def split: drain_target.split)
  then show ?thesis using WaitStep effect_refl by (simp add: proceed_def)
next
  case (FlushCommit version)
  then show ?thesis using effect_work [of "flush_commit version (reg s)" s] by (simp add: proceed_def flush_commit_def view_def)
next
  case (ForgetStep t keep)
  then show ?thesis
    using effect_work [of "forget_nonces t (reg s)" s] by (simp add: proceed_def forget_nonces_def view_def split: drain_target.splits)
qed (simp_all add: proceed_def effect_refl)

lemma effect_step:
  assumes ok: "fence_ok n s"
  shows "effect s (registry_do api s act)"
proof (cases act)
  case (CheckProof i at now)
  have "effect s (set_stage i st s)" if "i < length (attempts s)" "at_stage (attempts s ! i) = Started" "st \<noteq> Gone" for st
    using effect_stage [of i s st "reg s"] that by (simp add: is_live_def)
  then show ?thesis using CheckProof by (auto simp: check_proof_def split: request.split stage.split sum.split)
next
  case (DropAttempt i)
  then show ?thesis using effect_drop [OF ok, of i] by (simp add: drop_authentication_def)
next
  case (Administer req)
  then show ?thesis using effect_work [of "reg s" s] by (simp split: sum.split)
next
  case Flush
  then show ?thesis using effect_work [of "reg s" s] by (simp add: flush_candidate_def)
next
  case CloseRegistry
  then show ?thesis by (auto intro!: effect_same simp: view_def)
next
  case (WriteFile fs)
  have "effect s (write_file api fs s)"
  proof (cases "pending_write (work s)")
    case (Some x)
    obtain cs w' where x: "x = (cs, w')" by fastforce
    obtain res r' where w: "persist_clients api fs cs (reg s) = (res, r')" by fastforce
    then have "view r' = view (reg s)" using persist_view(1) [of api fs cs "reg s"] by simp
    then show ?thesis
      using Some x w effect_work [of r' s] effect_abandon [OF _ ok, of r'] by (cases res) (simp_all add: write_file_def)
  qed (simp add: write_file_def effect_refl)
  then show ?thesis using WriteFile by simp
next
  case GiveUp
  have "effect s (give_up api s)"
  proof (cases "pending_write (work s)")
    case (Some x)
    obtain cs w' where x: "x = (cs, w')" by fastforce
    have "give_up api s = abandon (s\<lparr>reg := detach_write api cs (reg s)\<rparr>)"
      using Some x by (cases "work s") (auto simp: give_up_def)
    then show ?thesis using effect_abandon [OF detached_view(1) ok] by simp
  next
    case None
    then show ?thesis using effect_finish_drain [OF ok] by (cases "work s") (simp_all add: give_up_def)
  qed
  then show ?thesis using GiveUp by simp
next
  case (EndRetirement m)
  then show ?thesis using effect_finish_drain [OF ok] by simp
next
  case (RunDetached fs k)
  then show ?thesis by (auto intro!: effect_same simp: detached_view)
next
  case (RetrySync reply)
  then show ?thesis by (auto intro!: effect_same simp: retry_durability_sync_def view_def split: option.split sum.split)
next
  case (DropGuard m)
  then show ?thesis
    using set_remove_nth [of m "held s"] by (auto intro!: effect_same simp: view_def)
qed (use effect_begin effect_fast [of _ s api] effect_take_lock [of _ s api] effect_proceed [OF ok, of api] in simp_all)

text \<open>A target that has been drained up to an epoch: the attempts that were there are behind the fence, and
  the sessions of the target were opened by later ones.\<close>

definition fenced :: "drain_target \<Rightarrow> u64 \<Rightarrow> nat \<Rightarrow> 'tm registry_system \<Rightarrow> bool" where
  "fenced t e m s \<longleftrightarrow> m \<le> length (attempts s) \<and> e \<le> disconnect_epoch (reg s)
    \<and> (\<forall>i < m. is_live (attempts s ! i) \<longrightarrow> at_epoch (attempts s ! i) < e)
    \<and> ((\<exists>i < m. is_live (attempts s ! i)) \<longrightarrow> (\<exists>f \<ge> e. fence t (reg s) = Some f))
    \<and> (\<forall>(g, i) \<in> set (held s). covers t (key_of (guard_key g)) \<longrightarrow> m \<le> i)"

lemma fenced_step:
  assumes ok: "fence_ok n s" and n: "n < 2 ^ 64 - 2" and f: "fenced t e m s"
  shows "fenced t e m (registry_do api s act)" (is "fenced t e m ?s'")
proof -
  note eff = effect_step [OF ok, of api act, unfolded effect_def]
  have ok': "fence_ok (Suc n) ?s'" by (rule fence_ok_step [OF ok n])
  have up: "unat (disconnect_epoch (reg s) + 1) = unat (disconnect_epoch (reg s)) + 1"
    using epoch_up ok n by (auto simp: fence_ok_def epochs_ok_def)
  have len: "m \<le> length (attempts s)" "m \<le> length (attempts ?s')" and e: "e \<le> disconnect_epoch (reg s)"
    using f eff by (auto simp: fenced_def)
  have behind: "at_epoch (attempts ?s' ! i) < e \<and> is_live (attempts s ! i)" if "i < m" "is_live (attempts ?s' ! i)" for i
    using that f eff len by (auto simp: fenced_def)
  have fence': "\<exists>f' \<ge> e. fence t (reg ?s') = Some f'" if i: "i < m" "is_live (attempts ?s' ! i)" for i
  proof -
    obtain f' where f': "f' \<ge> e" "fence t (reg s) = Some f'" using f behind [OF i] i(1) by (auto simp: fenced_def)
    have "oldest (reg ?s') < e" using live_oldest(1) [OF ok', of i] i len behind [OF i] by (simp add: le_less_trans)
    then have old: "f' > oldest (reg ?s')" "disconnect_epoch (reg s) + 1 > oldest (reg ?s')" "disconnect_epoch (reg s) + 1 \<ge> e"
      using f'(1) e up by (auto simp: word_less_nat_alt word_le_nat_alt)
    then have "fence t (reg ?s') \<in> {Some f', Some (disconnect_epoch (reg s) + 1)}" using eff f'(2) by blast
    then show ?thesis using f'(1) old(3) by auto
  qed
  have "m \<le> i" if g: "(g, i) \<in> set (held ?s')" "covers t (key_of (guard_key g))" for g i
  proof (cases "(g, i) \<in> set (held s)")
    case True
    then show ?thesis using f g(2) by (auto simp: fenced_def)
  next
    case False
    then have i: "i < length (attempts s)" "is_live (attempts s ! i)"
      and new: "\<not> authentication_blocked (reg s) (dk_account (key_of (guard_key g))) (key_of (guard_key g)) (at_epoch (attempts s ! i))"
      using eff g(1) by blast+
    show ?thesis
    proof (rule ccontr)
      assume "\<not> m \<le> i"
      then obtain f' where "f' \<ge> e" "fence t (reg s) = Some f'" "at_epoch (attempts s ! i) < e" using f i(2) by (auto simp: fenced_def)
      then show False using new g(2) unfolding blocked_iff by (meson less_le_trans)
    qed
  qed
  moreover have "e \<le> disconnect_epoch (reg ?s')" using eff e up by (auto simp: word_le_nat_alt)
  ultimately show ?thesis using len(2) behind fence' by (auto simp: fenced_def)
qed

lemma fenced_start:
  assumes ok: "fence_ok n s" and n: "n < 2 ^ 64 - 2" and s': "reg s' = finish_drain t (reg s)" "attempts s' = attempts s" "held s' = held s"
    and gone: "\<And>g i. (g, i) \<in> set (held s) \<Longrightarrow> \<not> covers t (key_of (guard_key g))"
  shows "fenced t (disconnect_epoch (reg s')) (length (attempts s')) s'"
proof -
  have dist: "fences_distinct (reg s)" using ok by (simp add: fence_ok_def epochs_ok_def)
  note fin = finish_drain_effect [OF dist]
  let ?e = "disconnect_epoch (reg s)"
  have e: "disconnect_epoch (reg s') = ?e + 1" using s'(1) fin(2) by simp
  have up: "?e < ?e + 1" using epoch_up [of ?e n] ok n by (simp add: fence_ok_def epochs_ok_def word_less_nat_alt)
  have behind: "at_epoch (attempts s ! i) < ?e + 1" if "i < length (attempts s)" "is_live (attempts s ! i)" for i
    using ok that up by (auto simp: fence_ok_def epochs_ok_def intro: le_less_trans)
  have "fence t (reg s') = Some (?e + 1)" if "i < length (attempts s)" "is_live (attempts s ! i)" for i
  proof -
    have "authentication_epochs (reg s) \<noteq> []" "oldest (reg s) < ?e + 1"
      using live_oldest [OF ok that] behind [OF that] by (auto intro: le_less_trans)
    then show ?thesis using fin(4) [of t t] s'(1) by (simp add: oldest_def)
  qed
  then show ?thesis using s'(2,3) behind gone e by (auto simp: fenced_def)
qed

lemma fence_ok_start:
  assumes "open_registry api path bootstrap reply i now exists fs = Ok r"
  shows "fence_ok 1 (system_of r)"
proof -
  obtain cs where cs: "stored_clients api bootstrap reply i now = Ok cs" using assms(1)
    by (auto simp: open_registry_def split: if_splits sum.splits)
  let ?r = "new_registry api cs (case reply of ReadRegistry data \<Rightarrow> Some data | _ \<Rightarrow> None)"
  have "r = ?r \<or> (\<exists>u. persist_clients api fs (clients ?r) ?r = (Ok u, r))"
    using assms(1) cs by (auto simp: open_registry_def Let_def split: if_splits sum.splits bool.splits prod.splits)
  then have "view r = view ?r" "sessions r = sessions ?r"
    using persist_view [of api fs "clients ?r" ?r] by auto
  moreover have "view ?r = ([], [], [], [], [], 0)" "sessions ?r = default_live"
    by (simp_all add: new_registry_def rebuild_token_index_def view_def)
  ultimately have r: "account_disconnect r = []" "device_disconnect r = []" "retiring_accounts r = []" "retiring_devices r = []"
    "authentication_epochs r = []" "disconnect_epoch r = 0" "sessions r = default_live"
    by (simp_all add: view_def)
  then have "epochs_ok 1 (system_of r)"
    by (auto simp: epochs_ok_def system_of_def fences_distinct_def live_at_def outstanding_def drain_count_def cnt_def split: drain_target.split)
  moreover have "sessions_ok 1 (system_of r)"
    using r live_inv_start by (simp add: sessions_ok_def system_of_def default_live_def live_start_def)
  ultimately show ?thesis by (simp add: fence_ok_def waiting_ok_def worker_ok_def system_of_def)
qed

lemma fence_ok_run: "registry_run api s0 n s \<Longrightarrow> fence_ok k s0 \<Longrightarrow> k + n < 2 ^ 64 - 2 \<Longrightarrow> fence_ok (k + n) s"
proof (induction rule: registry_run.induct)
  case (run_action n s act)
  then show ?case using fence_ok_step [of "k + n" s api act] by simp
qed simp

lemma fenced_run:
  "registry_run api s1 n s \<Longrightarrow> fence_ok k s1 \<Longrightarrow> fenced t e m s1 \<Longrightarrow> k + n < 2 ^ 64 - 2 \<Longrightarrow> fenced t e m s"
proof (induction rule: registry_run.induct)
  case (run_action n s act)
  then have "fence_ok (k + n) s" by (intro fence_ok_run [OF run_action.hyps(1)]) simp_all
  then show ?case using fenced_step [of "k + n" s t e m api act] run_action by simp
qed simp

text \<open>The sections in which a drain comes to its end: the return of \<open>disconnect\<close>, \<open>rotate_token\<close>, \<open>delete\<close> or
  an \<open>update\<close> that disables, and the drop of what \<open>retire_device\<close> returned.\<close>

definition drain_ends :: "'tm registry_system \<Rightarrow> 'tm registry_action \<Rightarrow> drain_target \<Rightarrow> bool" where
  "drain_ends s act t \<longleftrightarrow>
    (act = Proceed \<and> (\<exists>ws. work s = WaitStep t False ws \<and> drain_wait ws (sessions (reg s)) = []))
    \<or> (\<exists>j < length (retirements s). act = EndRetirement j \<and> t = DeviceTarget (retirements s ! j))"

lemma drain_ends_step:
  assumes "drain_ends s act t"
  shows "reg (registry_do api s act) = finish_drain t (reg s)" and "attempts (registry_do api s act) = attempts s"
    and "held (registry_do api s act) = held s"
  using assms by (auto simp: drain_ends_def proceed_def end_drain_def split: drain_target.split)

lemma drain_ends_gone:
  assumes ok: "fence_ok n s" and ends: "drain_ends s act t" and held: "(g, i) \<in> set (held s)"
  shows "\<not> covers t (key_of (guard_key g))"
proof -
  consider ws where "work s = WaitStep t False ws" "drain_wait ws (sessions (reg s)) = []"
    | "\<exists>key \<in> set (retirements s). t = DeviceTarget key"
    using ends by (auto simp: drain_ends_def)
  then show ?thesis
  proof cases
    case 1
    then show ?thesis using drained [OF ok _ _ held] by blast
  next
    case 2
    then show ?thesis using ok held by (auto simp: fence_ok_def waiting_ok_def covers_def)
  qed
qed

text \<open>C3: revocation is final. While a device is being retired it has no session. When a disconnection, a
  rotation of the token, a deletion, a disabling or a retirement comes to its end, no session of the
  account or device is left, and whatever happens afterwards, every session it has then was opened by
  an authentication that began after that moment: one that was already under way is refused, however
  late it continues.\<close>

theorem revocation_is_final:
  assumes "open_registry api path bootstrap reply i now exists fs = Ok r"
    and "registry_run api (system_of r) n s" and "drain_ends s act t" and "s1 = registry_do api s act"
    and "registry_run api s1 k s2" and "n + k < 2 ^ 64 - 4"
  shows "active_count (target_account t) (target_device t) (sessions (reg s1)) = 0
    \<and> (\<forall>(g, j) \<in> set (held s2). matches (target_account t) (target_device t) (guard_key g) \<longrightarrow> length (attempts s1) \<le> j)
    \<and> (\<forall>key \<in> set (retirements s). \<forall>(g, _) \<in> set (held s). key_of (guard_key g) \<noteq> key)"
proof -
  have ok: "fence_ok (1 + n) s" by (rule fence_ok_run [OF assms(2) fence_ok_start [OF assms(1)]]) (use assms(6) in simp)
  note ends = drain_ends_step [OF assms(3), of api, folded assms(4)] drain_ends_gone [OF ok assms(3)]
  have ok1: "fence_ok (2 + n) s1" using fence_ok_step [OF ok, of api act] assms(4,6) by simp
  have "fenced t (disconnect_epoch (reg s1)) (length (attempts s1)) s1"
    by (rule fenced_start [OF ok _ ends(1-3)]) (use assms(6) ends(4) in auto)
  then have "fenced t (disconnect_epoch (reg s1)) (length (attempts s1)) s2"
    by (rule fenced_run [OF assms(5) ok1]) (use assms(6) in simp)
  moreover have "active_count (target_account t) (target_device t) (sessions (reg s1)) = 0"
  proof -
    have "entries (table (sessions (reg s1))) = mset (map fst (held s1))"
      using ok1 by (simp add: fence_ok_def sessions_ok_def live_inv_def)
    moreover have "\<not> matches (target_account t) (target_device t) (guard_key g)" if "g \<in># mset (map fst (held s1))" for g
      using that ends(3,4) covers_matches [of t "guard_key g"] by auto
    ultimately show ?thesis by (simp add: active_count_entries filter_mset_eq_mempty_iff)
  qed
  moreover have "\<forall>key \<in> set (retirements s). \<forall>(g, _) \<in> set (held s). key_of (guard_key g) \<noteq> key"
    using ok by (simp add: fence_ok_def waiting_ok_def)
  ultimately show ?thesis by (auto simp: fenced_def covers_matches)
qed

subsection \<open>Replays\<close>

text \<open>A nonce is recorded for a device until a time.\<close>

definition recorded :: "device_key \<Rightarrow> string \<Rightarrow> 'tm :: linorder \<Rightarrow> 'tm registry \<Rightarrow> bool" where
  "recorded key nonce until r \<longleftrightarrow>
    (\<exists>w expiry. map_of (nonces r) key = Some w \<and> map_of (nw_values w) nonce = Some expiry \<and> until \<le> expiry)"

lemma map_of_filter_kept: "map_of xs k = Some v \<Longrightarrow> P v \<Longrightarrow> map_of (filter (\<lambda>(_, v). P v) xs) k = Some v"
  by (induction xs) (auto split: if_splits)

lemma nonce_seen_recorded:
  assumes "nonce_seen api key' nonce' at now r = (seen, r')" and rec: "recorded key nonce until r" and now: "now < until"
  shows "recorded key nonce until r'" and "key' = key \<Longrightarrow> nonce' = nonce \<Longrightarrow> seen"
proof -
  obtain w expiry where w: "map_of (nonces r) key = Some w" "map_of (nw_values w) nonce = Some expiry" "until \<le> expiry"
    using rec by (auto simp: recorded_def)
  have "map_of (filter (\<lambda>(_, v). v > now) (nw_values w)) nonce = Some expiry"
    using w now map_of_filter_kept [of "nw_values w" nonce expiry "\<lambda>v. v > now"] by auto
  then have kept: "map_of (filter (\<lambda>(_, v). v > now) (nw_values w)) nonce = Some expiry" "filter (\<lambda>(_, v). v > now) (nw_values w) \<noteq> []"
    by auto
  show "recorded key nonce until r'"
    using assms(1) w kept
    by (auto simp: nonce_seen_def recorded_def Let_def update_conv' delete_conv' split: if_splits option.splits)
  show "key' = key \<Longrightarrow> nonce' = nonce \<Longrightarrow> seen"
    using assms(1) w kept
    by (auto simp: nonce_seen_def nonce_refused_def Let_def split: if_splits option.splits)
qed

lemma remember_nonce_records: "recorded key nonce (t_plus api at MAX_CLOCK_SKEW) (remember_nonce api key nonce at r)"
  by (simp add: recorded_def remember_nonce_def Let_def update_conv')

lemma remember_nonce_recorded:
  assumes "recorded key nonce until r" and "key' = key \<Longrightarrow> nonce' = nonce \<Longrightarrow> until \<le> t_plus api at MAX_CLOCK_SKEW"
  shows "recorded key nonce until (remember_nonce api key' nonce' at r)"
  using assms by (auto simp: recorded_def remember_nonce_def Let_def update_conv')

lemma recorded_cong: "nonces r' = nonces r \<Longrightarrow> recorded key nonce until r' \<longleftrightarrow> recorded key nonce until r"
  by (simp add: recorded_def)

lemma admit_device_nonces:
  assumes "admit_device api account p v r = (session, r')"
  shows "nonces r' = nonces (remember_nonce api \<lparr>dk_account = account, dk_device = device_id_of p\<rparr> (nonce_of p) (signed_at v) r)"
  using admit_device_keeps [OF assms] by auto


lemma device_gate_recorded:
  assumes gate: "device_gate api token p v now epoch r = (res, r')" and rec: "recorded key nonce until r" and now: "now < until"
  shows "recorded key nonce until r'" and "res = Ok i \<Longrightarrow> \<not> (device_key_of (clients r ! i) p = key \<and> nonce_of p = nonce)"
proof -
  show "recorded key nonce until r'"
    using gate rec nonce_seen_recorded(1) [OF _ rec now]
    by (auto simp: device_gate_def split: sum.splits if_splits prod.splits bool.splits)
  show "\<not> (device_key_of (clients r ! i) p = key \<and> nonce_of p = nonce)" if "res = Ok i"
    using gate
  proof (cases rule: device_gate_cases)
    case (passed j ns)
    then show ?thesis using nonce_seen_recorded(2) [OF passed(5) rec now] that by auto
  qed (use that in simp)
qed

lemma gate_admit_recorded:
  assumes gate: "device_gate api token p v now epoch r = (Ok i, r1)" and admit: "admit_device api (cl_id (clients r1 ! i)) p v r1 = (session, r')"
    and rec: "recorded key nonce until r" and now: "now < until"
  shows "recorded key nonce until r'"
proof -
  have "clients r1 = clients r" using gate_frame [OF gate] by simp
  then have "recorded key nonce until (remember_nonce api (device_key_of (clients r1 ! i) p) (nonce_of p) (signed_at v) r1)"
    using device_gate_recorded [OF gate rec now] by (intro remember_nonce_recorded) auto
  then show ?thesis using recorded_cong [OF admit_device_nonces [OF admit]] by simp
qed

lemma fast_device_recorded:
  assumes fast: "fast_device api token p v now epoch r = (res, r')" and rec: "recorded key nonce until r" and now: "now < until"
  shows "recorded key nonce until r'"
proof -
  obtain res1 r1 where gate: "device_gate api token p v now epoch r = (res1, r1)" by fastforce
  note r1 = device_gate_recorded(1) [OF gate rec now]
  show ?thesis using fast gate r1 gate_admit_recorded [OF _ _ rec now]
    by (auto simp: fast_device_def split: sum.splits option.splits if_splits prod.splits)
qed

lemma slow_device_recorded:
  assumes slow: "slow_device api token p v now epoch r = (res, r')" and rec: "recorded key nonce until r" and now: "now < until"
  shows "recorded key nonce until r'"
  using slow
proof (cases rule: slow_device_cases)
  case (refused e ns)
  obtain res1 r1 where gate: "device_gate api token p v now epoch r = (res1, r1)" by fastforce
  have "r' = r1" using slow gate refused(1)
    by (auto simp: slow_device_def Let_def split: sum.splits option.splits if_splits prod.splits)
  then show ?thesis using device_gate_recorded(1) [OF gate rec now] by simp
qed (use device_gate_recorded(1) [OF _ rec now] gate_admit_recorded [OF _ _ rec now] in blast)+

text \<open>The runs in which the nonce stays recorded: the authentications of that device read the clock before
  the nonce expires, no change forgets the nonces of that device, and no enrolment of that device
  completes with the same nonce and an earlier signing time.\<close>

fun time_of :: "'tm stage \<Rightarrow> 'tm option" where
  "time_of (DeviceFast _ now) = Some now"
| "time_of (DeviceSlow _ now) = Some now"
| "time_of _ = None"

definition keeps_nonce ::
  "('pk, 'sg, 'tm :: linorder) registry_api \<Rightarrow> device_key \<Rightarrow> string \<Rightarrow> 'tm \<Rightarrow> 'tm registry_system \<Rightarrow> 'tm registry_action \<Rightarrow> bool" where
  "keeps_nonce api key nonce until s act \<longleftrightarrow>
    (\<forall>i now. act \<in> {RunFast i, TakeLock i} \<and> i < length (attempts s) \<and> time_of (at_stage (attempts s ! i)) = Some now \<longrightarrow> now < until)
    \<and> (act = Proceed \<longrightarrow> (case work s of
        ForgetStep target _ \<Rightarrow> \<not> covers target key
      | EnrolCommit _ p v _ \<Rightarrow> device_id_of p = dk_device key \<and> nonce_of p = nonce \<longrightarrow> until \<le> t_plus api (signed_at v) MAX_CLOCK_SKEW
      | _ \<Rightarrow> True))"

inductive nonce_run ::
  "('pk, 'sg, 'tm :: linorder) registry_api \<Rightarrow> device_key \<Rightarrow> string \<Rightarrow> 'tm \<Rightarrow> 'tm registry_system \<Rightarrow> 'tm registry_system \<Rightarrow> bool"
  for api key nonce until s0 where
  nonce_start: "nonce_run api key nonce until s0 s0"
| nonce_action: "nonce_run api key nonce until s0 s \<Longrightarrow> keeps_nonce api key nonce until s act
    \<Longrightarrow> nonce_run api key nonce until s0 (registry_do api s act)"


lemma nonces_kept:
  "nonces (snd (persist_clients api fs cs r)) = nonces r" "nonces (begin_target_drain t r) = nonces r"
  "nonces (finish_drain t r) = nonces r" "nonces (drop_attempt e r) = nonces r" "nonces (snd (cancel_target t r)) = nonces r"
  "nonces (flush_commit n r) = nonces r" "nonces (snd (apply_change api change r)) = nonces r"
  "nonces (snd (admit_session api a d r)) = nonces r" "nonces (snd (begin_authentication r)) = nonces r"
  "nonces (snd (retry_durability_sync reply r)) = nonces r"
  by (simp_all add: persist_clients_def persist_task_def finish_drain_def drop_attempt_def prune_disconnects_def cancel_target_def flush_commit_def
      admit_session_def begin_authentication_def retry_durability_sync_def rebuild_token_index_def Let_def
      split: sum.split prod.split drain_target.split option.split)
    (cases t; simp add: Let_def | cases change; simp add: rebuild_token_index_def split: option.split)+


lemma proxy_nonces_kept:
  "nonces (snd (fast_proxy api token now epoch r)) = nonces r" "nonces (snd (slow_proxy api token now epoch r)) = nonces r"
  "nonces (snd (commit_proxy api account cs r)) = nonces r"
  by (simp_all add: fast_proxy_def slow_proxy_def commit_proxy_def admit_session_def Let_def split: sum.split option.split prod.split)

lemma run_fast_recorded:
  assumes rec: "recorded key nonce until (reg s)" and now: "\<And>now. time_of (at_stage (attempts s ! i)) = Some now \<Longrightarrow> now < until"
  shows "recorded key nonce until (reg (run_fast api i s))"
proof (cases rule: run_fast_cases [of api i s])
  case (device token p verb path v at res r')
  then have "recorded key nonce until r'" using fast_device_recorded [OF device(3) rec] now by simp
  then show ?thesis using device(4) by (auto simp: accept_def split: sum.split option.split)
next
  case (proxy token at res r')
  then have "recorded key nonce until r'" using rec recorded_cong [of r' "reg s"] proxy_nonces_kept(1) [of api token at _ "reg s"] by (metis snd_conv)
  then show ?thesis using proxy(4) by (auto simp: accept_def split: sum.split option.split)
qed (use rec in simp)

lemma take_lock_recorded:
  assumes rec: "recorded key nonce until (reg s)" and now: "\<And>now. time_of (at_stage (attempts s ! i)) = Some now \<Longrightarrow> now < until"
  shows "recorded key nonce until (reg (take_lock api i s))"
proof (cases rule: take_lock_cases [of api i s])
  case (device token p verb path v at res r')
  then have "recorded key nonce until r'" using slow_device_recorded [OF device(3) rec] now by simp
  then show ?thesis using device(4) by (auto simp: accept_def split: sum.split)
next
  case (proxy token at res r')
  then have "recorded key nonce until r'" using rec recorded_cong [of r' "reg s"] proxy_nonces_kept(2) [of api token at _ "reg s"] by (metis snd_conv)
  then show ?thesis using proxy(4) by (auto simp: accept_def split: sum.split prod.split)
qed (use rec in simp)

lemma commit_device_recorded:
  assumes "commit_device api p v en r = (res, r')" and rec: "recorded key nonce until r"
    and at: "device_id_of p = dk_device key \<Longrightarrow> nonce_of p = nonce \<Longrightarrow> until \<le> t_plus api (signed_at v) MAX_CLOCK_SKEW"
  shows "recorded key nonce until r'"
proof (cases "enrol_device p en (clients r)")
  case (Inr cs)
  obtain session r1 where admit: "admit_device api (en_account en) p v (r\<lparr>clients := cs\<rparr>) = (session, r1)" by fastforce
  have "recorded key nonce until (remember_nonce api \<lparr>dk_account = en_account en, dk_device = device_id_of p\<rparr> (nonce_of p) (signed_at v) (r\<lparr>clients := cs\<rparr>))"
    using rec at by (intro remember_nonce_recorded) (auto simp: recorded_def)
  then show ?thesis using assms(1) Inr admit recorded_cong [OF admit_device_nonces [OF admit]] by (simp add: commit_device_def)
qed (use assms in \<open>simp add: commit_device_def\<close>)

lemma forget_nonces_recorded: "recorded key nonce until r \<Longrightarrow> \<not> covers t key \<Longrightarrow> recorded key nonce until (forget_nonces t r)"
proof -
  have "map_of (filter (\<lambda>(k, _). dk_account k \<noteq> a) ns) key = map_of ns key" if "dk_account key \<noteq> a" for a and ns :: "(device_key \<times> 'a nonce_window) list"
    using that by (induction ns) auto
  then show "recorded key nonce until r \<Longrightarrow> \<not> covers t key \<Longrightarrow> ?thesis"
    by (auto simp: recorded_def forget_nonces_def covers_def delete_conv' split: drain_target.splits)
qed

lemma proceed_recorded:
  assumes rec: "recorded key nonce until (reg s)" and keeps: "keeps_nonce api key nonce until s Proceed"
  shows "recorded key nonce until (reg (proceed api s))"
proof (cases "work s")
  case (EnrolCommit i p v en)
  obtain res r' where c: "commit_device api p v en (reg s) = (res, r')" by fastforce
  have "recorded key nonce until r'" using commit_device_recorded [OF c rec] keeps EnrolCommit by (simp add: keeps_nonce_def)
  then show ?thesis using EnrolCommit c by (simp add: proceed_def accept_def split: sum.split)
next
  case (ProxyCommit i account cs)
  obtain res r' where c: "commit_proxy api account cs (reg s) = (res, r')" by fastforce
  have "nonces r' = nonces (reg s)" using proxy_nonces_kept(3) [of api account cs "reg s"] c by simp
  then have "recorded key nonce until r'" using recorded_cong rec by blast
  then show ?thesis using ProxyCommit c by (simp add: proceed_def accept_def split: sum.split)
next
  case (ChangeCommit change cs)
  obtain res r' where c: "apply_change api change (reg s) = (res, r')" by fastforce
  have "nonces r' = nonces (reg s)" using nonces_kept(7) [of api change "reg s"] c by simp
  then have "recorded key nonce until r'" using recorded_cong rec by blast
  then show ?thesis using ChangeCommit c by (simp add: proceed_def split: sum.split)
next
  case (ForgetStep t keep)
  then show ?thesis using forget_nonces_recorded [OF rec] keeps by (simp add: proceed_def keeps_nonce_def)
next
  case (CancelStep t keep)
  then show ?thesis using rec nonces_kept(5) [of t "reg s"] by (auto simp: proceed_def recorded_def split: prod.split)
qed (use rec in \<open>auto simp: proceed_def end_drain_def recorded_def nonces_kept split: drain_target.split\<close>)

lemma recorded_step:
  assumes rec: "recorded key nonce until (reg s)" and keeps: "keeps_nonce api key nonce until s act"
  shows "recorded key nonce until (reg (registry_do api s act))"
proof (cases act)
  case (RunFast i)
  then show ?thesis using rec keeps run_fast_recorded [OF rec] by (auto simp: keeps_nonce_def)
next
  case (TakeLock i)
  then show ?thesis using rec keeps take_lock_recorded [OF rec] by (auto simp: keeps_nonce_def)
next
  case Proceed
  then show ?thesis using rec keeps proceed_recorded by simp
next
  case (WriteFile fs)
  then show ?thesis using rec nonces_kept(1) [of api fs _ "reg s"]
    by (auto simp: write_file_def recorded_def split: option.split prod.split sum.split) (metis snd_conv)+
next
  case GiveUp
  have "nonces (reg (give_up api s)) = nonces (reg s)"
    by (cases "work s") (simp_all add: give_up_def nonces_kept detached_view split: option.split)
  then show ?thesis using GiveUp rec by (simp add: recorded_def)
qed (use rec in \<open>auto simp: recorded_def begin_attempt_def begin_authentication_def Let_def check_proof_def detached_view drop_authentication_def nonces_kept
    split: prod.split request.split stage.split sum.split option.split\<close>)


lemma recorded_run: "nonce_run api key nonce until s1 s2 \<Longrightarrow> recorded key nonce until (reg s1) \<Longrightarrow> recorded key nonce until (reg s2)"
  by (induction rule: nonce_run.induct) (auto intro: recorded_step)


text \<open>The example goes on: the enrolled device presents its proof again.\<close>

lemma example_admission:
  "\<exists>session r. admit_device example_api ''account'' example_proof example_verified r = (session, reg example_enrolled)"
proof -
  have "case work example_written of EnrolCommit i p v en \<Rightarrow> i = 0 \<and> p = example_proof \<and> v = example_verified \<and> en_account en = ''account'' | _ \<Rightarrow> False"
    by code_simp
  then obtain en where w: "work example_written = EnrolCommit 0 example_proof example_verified en" "en_account en = ''account''"
    by (auto split: work.splits)
  have "map (length \<circ> cl_devices) (clients (reg example_enrolled)) = [1]" "map (length \<circ> cl_devices) (clients (reg example_written)) = [0]"
    by code_simp+
  then have "clients (reg example_enrolled) \<noteq> clients (reg example_written)" by auto
  then show ?thesis using w
    by (auto simp: example_enrolled_def proceed_def commit_device_def accept_def split: sum.splits prod.splits)
qed

definition example_again :: "int registry_system" where
  "example_again = registry_do example_api example_enrolled (BeginDevice ''token'' example_proof ''GET'' ''/'')"



text \<open>The account is disconnected, and its session ends.\<close>

definition example_disconnection :: "int registry_action list" where
  "example_disconnection = [Administer (AdminDisconnect ''account'' None), Proceed, Proceed, DropGuard 0]"

definition example_drained :: "int registry_system" where
  "example_drained = foldl (registry_do example_api) (system_of example_registry) (example_enrolment @ [Proceed] @ example_disconnection)"

definition example_after :: "int registry_system" where
  "example_after = registry_do example_api example_drained Proceed"

theorem revocation_is_final_witness:
  "active_count ''account'' None (sessions (reg example_after)) = 0"
proof -
  let ?acts = "example_enrolment @ [Proceed] @ example_disconnection"
  have "draws_fresh act s" if "act \<in> set ?acts" for act and s :: "int registry_system"
    using that by (auto simp: example_enrolment_def example_disconnection_def)
  then have run: "registry_run example_api (system_of example_registry) (length ?acts) example_drained"
    using registry_run_foldl [of ?acts example_api "system_of example_registry"] by (simp add: example_drained_def)
  have "case work example_drained of WaitStep t keep ws \<Rightarrow> t = AccountTarget ''account'' \<and> \<not> keep \<and> drain_wait ws (sessions (reg example_drained)) = [] | _ \<Rightarrow> False"
    by code_simp
  then have ends: "drain_ends example_drained Proceed (AccountTarget ''account'')"
    by (auto simp: drain_ends_def split: work.splits)
  have "length ?acts + 0 < 2 ^ 64 - 4" by (simp add: example_enrolment_def example_disconnection_def)
  with revocation_is_final [OF example_open run ends refl run_start this] show ?thesis
    by (simp add: example_after_def target_account_def target_device_def)
qed

text \<open>The nonce is checked before the write and recorded after it, without another check. An authentication
  of the same proof that read the clock within the minute and continues during that write is admitted
  as well: here the second proof of the device opens two sessions.\<close>

definition example_second_proof :: device_proof where
  "example_second_proof = example_proof\<lparr>timestamp_of := ''1300''\<rparr>"

definition example_race :: "int registry_action list" where
  "example_race =
    [BeginDevice ''token'' example_proof ''GET'' ''/'', CheckProof 0 1299 1299, RunFast 0, TakeLock 0, WriteFile example_fs, Proceed,
     BeginDevice ''token'' example_second_proof ''GET'' ''/'', BeginDevice ''token'' example_second_proof ''GET'' ''/'',
     CheckProof 1 1358 1358, CheckProof 2 1359 1359, RunFast 2, TakeLock 2, RunFast 1, WriteFile example_fs, Proceed]"

lemma one_proof_two_sessions:
  "map snd (held (foldl (registry_do example_api) (system_of example_registry) example_race)) = [2, 1, 0]"
  by code_simp

end
