(* ===== verification/Spec2Isabelle.thy ===== *)
theory Spec2Isabelle
  imports Wire_Frame Wire_Masque Wire_Mtu Upload_Queue Router_Invariant Lease_Invariant
    Device_Auth Admission Live_Sessions H2_Lane Proxy_Dial H3_Downlink Registry_Safety
begin

text \<open>
  A verification development for porta, a VPN that carries IPv4 packets over HTTP/2 and HTTP/3. Paths
  below are relative to src/rust.

  \<^bold>\<open>The program.\<close> A client reads packets from its tun device and sends them to the server on one or
  several lanes. Over HTTP/2 a lane is a stream of frames with a two-byte length, fed from an upload
  queue; as CONNECT-IP the packets travel in capsules of a stream or in QUIC datagrams. The server
  authenticates the device with a signed proof and a token (registry), counts the connection
  (admission), leases an address to the client (pool), registers the session for the address
  (router, live sessions) and writes the client's packets to its own tun device. Packets from that
  device are routed by destination address to a session, on a lane that is chosen per flow (flow
  table), queued there with limits and ages (packet queue), and framed back to the client, fragmented
  or answered with an ICMP message where they exceed the MTU of the path. Next to the tunnel the
  server offers a forward proxy that dials public addresses only.

  \<^bold>\<open>The theories\<close>, each with the code it models:

  \<^item> \<open>Prelude\<close>, \<open>Byte_Io\<close>, \<open>Ip_Text\<close>: what the code uses of the language and its standard library: machine
    integers, results, slices, \<open>std::io\<close> readers and writers that deliver and accept any chunks, text
    of numbers and addresses. \<open>Byte_Io\<close> has the contract of a codec of messages on a byte stream
    (locale \<open>message_stream\<close>), \<open>Fifo_Spec\<close> the contract of a queue of packets (locale \<open>packet_fifo\<close>).
  \<^item> \<open>Wire_Ip\<close>, \<open>Wire_Frame\<close>, \<open>Wire_Varint\<close>, \<open>Wire_Masque\<close>, \<open>Wire_Mtu\<close>, \<open>Device_Auth\<close>: the modules ip.rs,
    frame.rs, masque.rs, mtu.rs and device_auth.rs of porta-wire/src. Round trips over any chunking,
    exactness of the codecs, fragments that reassemble, sound ICMP responses, and what an accepted
    proof stands for. Frames and capsules are interpretations of \<open>message_stream\<close>.
  \<^item> \<open>Packet_Queue\<close> (porta-server/src/data/queue.rs) and \<open>Upload_Queue\<close>
    (porta-client/src/tunnel/h2_queue.rs): order, limits, ages, eviction and accounting. Both are
    interpretations of \<open>packet_fifo\<close>.
  \<^item> \<open>Flow_Table\<close>, \<open>Router\<close>, \<open>Router_Invariant\<close> (porta-server/src/data/router.rs): the linked arena of flows
    refines a recency list (locale \<open>lane_memory\<close>), and in every reachable state of the router a packet
    reaches only the session of its destination, on the right lane.
  \<^item> \<open>Lease_Pool\<close>, \<open>Lease_Invariant\<close> (porta-server/src/state/pool.rs): addresses are never reassigned, whatever
    the file system replies, and a restart restores them (locale \<open>address_allocator\<close>).
  \<^item> \<open>Admission\<close> (porta-server/src/ops/admission.rs with its gauges of ops/metrics.rs): the limits hold and the
    counters are exact under every interleaving of the atomic actions.
  \<^item> \<open>Live_Sessions\<close> (porta-server/src/state/sessions.rs): the table of sessions, and the cancellation that
    waits for them.
  \<^item> \<open>Registry\<close>, \<open>Registry_Runs\<close>, \<open>Registry_Safety\<close> (porta-server/src/state/registry.rs): the operations as
    sections between their waits, their interleavings as runs, and the invariants: the registry stays
    well formed, what is in memory is in the file first, a revocation is final, a nonce is not accepted
    twice while it is remembered.
  \<^item> \<open>H2_Lane\<close> (porta-client/src/tunnel/h2.rs, porta-server/src/transport/session.rs and http2.rs): the packet
    loops of both ends of a lane over HTTP/2.
  \<^item> \<open>Connect_Ip\<close>, \<open>Masque_Tunnel\<close>, \<open>H3_Downlink\<close> (porta-server/src/transport/http3.rs and http2.rs): capsules in
    the buffer of a stream, address requests, MTU discovery, the CONNECT-IP tunnel over HTTP/2 against a
    router (locale \<open>logging_router\<close>, interpreted on the router's \<open>inject\<close>), and the sending of a packet over
    HTTP/3 when datagrams may be refused.
  \<^item> \<open>Proxy_Dial\<close> (porta-server/src/proxy/dial.rs): destinations, the filter on public addresses, the cache
    and the staggered dialling.
  \<^item> this theory composes the client's upload queue, its framing, the server's tunnel and the router's
    \<open>inject\<close> to the uplink from end to end.

  \<^bold>\<open>How state and effects are modelled.\<close> A struct is a record, an enum a datatype, a handler a function
  from the state to its result and the new state; errors are \<open>Inl\<close>, written \<open>Err\<close>. An assertion or index
  that could panic yields \<open>None\<close>, and the theorems show that it does not. Code with several tasks is a
  step relation or a list of actions over the sections between two waits or two atomic operations.
  Readers, writers, files, timers, the tun device, the resolver and HTTP streams are the lists of what
  they reply; a file changes at the rename of an atomic write. A \<open>HashMap\<close> is a map or an association list
  with distinct keys whose order is not relied on.

  \<^bold>\<open>Parameters.\<close> Code of other crates is an argument of the definitions, with the documented laws the
  theorems need as named hypotheses (\<open>ipnet\<close>, \<open>hex\<close>, \<open>base64\<close>, SHA-256, P-256, \<open>time\<close>, \<open>serde_json\<close>, the
  Unicode tables of \<open>to_uppercase\<close>); every theorem with such a hypothesis has a witness on concrete
  functions.

  \<^bold>\<open>Bounds and termination.\<close> A \<open>usize\<close> is a natural number where the source cannot wrap it; counters that
  may wrap are words. Theorems on counters of 64 bits take runs shorter than \<open>2 ^ 64\<close> steps less a small
  constant, and identifiers that are drawn at random are taken to be unused. Loops are structural in the
  data or in the list of replies, or have a measure (the length of the buffer, the bytes or addresses
  left, the carries of a checksum); there is no fuel.

  \<^bold>\<open>What the model shows to be wrong\<close> in the code: packets behind the first of a CONNECT-IP batch over
  HTTP/2 are not compared with the MTU (\<open>masque_batch_skips_mtu\<close>), and one proof can open two sessions when
  it is presented during the write of the registry (\<open>one_proof_two_sessions\<close>).

  \<^bold>\<open>Not modelled.\<close> Token buckets and decaying scores, which are floating-point arithmetic (RetryController,
  abuse.rs); the usage counters and the summaries of the registry; the loop of the HTTP/3 tunnel with its
  writer task, request handling and connection set-up over hyper, h3 and quinn; the web pages, ACME, TLS
  and metrics export; the client's route, DNS and tun configuration on Linux and Windows, the desktop and
  Android shells, the load generator, packaging and vendored crates: input and output, glue, or code
  whose behaviour is that of the libraries it calls.
\<close>

subsection \<open>From the client's queue to the server's device\<close>

text \<open>The router as the sessions see it: \<open>inject\<close> on a device whose replies, and the cancellations of the
  session, come from the environment; once they are used up every write succeeds.\<close>

definition device_inject ::
  "ipv4_addr \<Rightarrow> (bool \<times> (io_error + unit)) list \<times> bytes list \<Rightarrow> bytes
    \<Rightarrow> (router_error + unit) \<times> (bool \<times> (io_error + unit)) list \<times> bytes list" where
  "device_inject lease d packet =
    (let (res, written) = inject (fst (next_reply (fst d))) lease packet (snd (next_reply (fst d)))
     in (res, drop 1 (fst d), snd d @ written))"

lemma inject_writes:
  "snd (inject cancelled lease packet reply) = [] \<or> snd (inject cancelled lease packet reply) = [packet]"
  "fst (inject cancelled lease packet reply) = Ok () \<Longrightarrow> snd (inject cancelled lease packet reply) = [packet]"
  by (auto simp: inject_def inject_validated_def split: sum.splits prod.splits if_splits)

lemma device_writes:
  "send_many (device_inject lease) d ps = (res, d') \<Longrightarrow>
    (\<exists>n. snd d' = snd d @ take n ps) \<and> (res = Ok () \<longrightarrow> snd d' = snd d @ ps)"
proof (induction ps arbitrary: d)
  case (Cons p ps)
  obtain r d1 where one: "device_inject lease d p = (r, d1)" by (meson surj_pair)
  let ?i = "inject (fst (next_reply (fst d))) lease p (snd (next_reply (fst d)))"
  have w: "r = fst ?i" "snd d1 = snd d @ snd ?i" using one by (auto simp: device_inject_def split: prod.splits)
  show ?case
  proof (cases r)
    case (Inl e)
    then have "d' = d1" "res = Err e" using Cons.prems one by auto
    moreover have "\<exists>n. snd ?i = take n (p # ps)"
      using inject_writes(1) by (metis One_nat_def take0 take_Suc_Cons)
    ultimately show ?thesis using w by auto
  next
    case (Inr u)
    then have rest: "send_many (device_inject lease) d1 ps = (res, d')" using Cons.prems one by simp
    have "snd d1 = snd d @ [p]" using w Inr inject_writes(2) by simp
    then show ?thesis using Cons.IH [OF rest] by (auto intro: exI [of _ "Suc _"])
  qed
qed auto

text \<open>What the client takes from its queue during a run, batch by batch.\<close>

abbreviation accepted :: "upload_config \<Rightarrow> upload_op list \<Rightarrow> bytes list" where
  "accepted config ops \<equiv> run_outputs upload_do upload_accepts (upload_new config) ops"

abbreviation taken :: "upload_config \<Rightarrow> upload_op list \<Rightarrow> bytes list" where
  "taken config ops \<equiv> run_outputs upload_do upload_delivers (upload_new config) ops"

lemma taken_accepted: "subseq (taken config ops) (accepted config ops)"
  by (rule uplink.deliveries_in_order [OF upload_new_inv]) (simp add: upload_new_def)

definition fresh_tunnel :: "'r \<Rightarrow> 'q \<Rightarrow> ('r, 'q) tunnel" where
  "fresh_tunnel r q = \<lparr>t_input = [], t_router = r, t_downlink = q, t_output = [], t_calls = []\<rparr>"

lemma prefix_concat_take: "prefix (concat (map f (take m xs))) (concat (map f xs))"
  by (metis append_take_drop_id concat_append map_append prefixI)

text \<open>C1: the uplink of an HTTP/2 lane end to end. The client takes batches from its upload queue,
  frames them and writes them to the stream as the flow control permits; the server gets any part
  of that stream, in chunks of any size. Then what it writes to the device is a subsequence of the
  packets the client's queue accepted, and every packet written is valid IPv4 from the client's
  lease and within the MTU, whatever fails on the way. When the server has received all that the
  client took from its queue and the tunnel is still open, it has written exactly the acceptable
  packets of it.\<close>

theorem uplink_end_to_end:
  assumes "concat (map fst batches) = taken config ops" and "upload_lane batches [] = (r, sent)"
    and "prefix (concat (map body_of evs)) (concat sent)"
    and "run_tunnel (device_inject lease) try_packet lease mtu (fresh_tunnel (rs, []) q) evs = (res, t')"
  shows "subseq (snd (t_router t')) (accepted config ops) \<and> list_all (uplink_ok lease mtu) (snd (t_router t'))
    \<and> (res = None \<and> concat (map body_of evs) = concat (map frame_of (taken config ops))
        \<and> list_all (\<lambda>p. length p \<le> 65535) (taken config ops)
        \<longrightarrow> snd (t_router t') = filter (uplink_ok lease mtu) (taken config ops))"
proof -
  obtain n where n: "snd (send_many (device_inject lease) (rs, [])
        (uplink_packets lease mtu (concat (map body_of (take n evs))))) = t_router t'"
      "res = None \<longrightarrow> n \<ge> length evs \<and> fst (send_many (device_inject lease) (rs, [])
        (uplink_packets lease mtu (concat (map body_of (take n evs))))) = Ok ()"
    using run_tunnel_uplink [OF assms(4)] by (auto simp: fresh_tunnel_def Let_def)
  let ?w = "concat (map body_of (take n evs))"
  have writes: "\<exists>k. snd (t_router t') = take k (uplink_packets lease mtu ?w)"
      "res = None \<Longrightarrow> snd (t_router t') = uplink_packets lease mtu ?w"
    using device_writes [of lease "(rs, [])" "uplink_packets lease mtu ?w"] n by (auto simp: prod_eq_iff)
  obtain m where m: "list_all (\<lambda>p. length p \<le> 65535) (concat (map fst (take m batches)))"
      "prefix (concat sent) (concat (map frame_of (concat (map fst (take m batches)))))"
    using upload_lane_sent [OF assms(2)] by auto
  have "prefix ?w (concat (map body_of evs))" by (rule prefix_concat_take)
  then have "prefix ?w (concat (map frame_of (concat (map fst (take m batches)))))"
    using assms(3) m(2) prefix_order.trans by blast
  from prefix_frames [OF m(1) this] have "prefix (fst (split_frames ?w)) (concat (map fst batches))"
    using prefix_concat_take prefix_order.trans by blast
  then have got: "subseq (fst (split_frames ?w)) (taken config ops)" using assms(1) by (simp add: prefix_imp_subseq)
  obtain k where k: "snd (t_router t') = take k (uplink_packets lease mtu ?w)" using writes(1) by blast
  have "subseq (snd (t_router t')) (uplink_packets lease mtu ?w)" unfolding k by (rule prefix_imp_subseq [OF take_is_prefix])
  then have "subseq (snd (t_router t')) (fst (split_frames ?w))" by (rule subseq_order.trans [OF _ subseq_filter_left])
  then have in_order: "subseq (snd (t_router t')) (accepted config ops)"
    by (rule subseq_order.trans [OF _ subseq_order.trans [OF got taken_accepted]])
  moreover have "list_all (uplink_ok lease mtu) (snd (t_router t'))"
    unfolding k list_all_iff by (auto dest: in_set_takeD)
  moreover have "snd (t_router t') = filter (uplink_ok lease mtu) (taken config ops)"
    if "res = None" "concat (map body_of evs) = concat (map frame_of (taken config ops))"
      "list_all (\<lambda>p. length p \<le> 65535) (taken config ops)"
    using writes(2) n(2) that frames_split [OF that(3), of "[]"] by simp
  ultimately show ?thesis by blast
qed

definition example_packet :: bytes where
  "example_packet = [0x45, 0, 0, 20] @ replicate 8 0 @ [10, 0, 0, 2] @ [10, 0, 0, 1]"

definition example_uploads :: "upload_op list" where
  "example_uploads = [UEnqueue example_packet default_metadata 0, UEnqueue [1, 2, 3] default_metadata 0, UTakeBatch 1 16 16384]"

definition example_stream :: "bytes list" where
  "example_stream = snd (upload_lane [([example_packet, [1, 2, 3]], [CapacityIs 5, CapacityIs 100])] [])"

definition example_events :: "tunnel_event list" where
  "example_events = map BodyData [take 1 (concat example_stream), drop 1 (concat example_stream)]"

definition example_tunnel :: "((bool \<times> (io_error + unit)) list \<times> bytes list, unit) tunnel" where
  "example_tunnel = snd (run_tunnel (device_inject 0x0a000002) (\<lambda>q. (None, q)) 0x0a000002 1400 (fresh_tunnel ([], []) ()) example_events)"

theorem uplink_end_to_end_witness:
  "snd (t_router example_tunnel) = [example_packet]
    \<and> subseq [example_packet] (accepted default_upload_config example_uploads)"
proof -
  have written: "snd (t_router example_tunnel) = [example_packet]" by code_simp
  have taken: "concat (map fst [([example_packet, [1, 2, 3]], [CapacityIs 5, CapacityIs 100])])
      = taken default_upload_config example_uploads" by code_simp
  have lane: "upload_lane [([example_packet, [1, 2, 3]], [CapacityIs 5, CapacityIs 100])] [] = (None, example_stream)"
    by code_simp
  have stream: "prefix (concat (map body_of example_events)) (concat example_stream)"
    by (simp add: example_events_def)
  have "fst (run_tunnel (device_inject 0x0a000002) (\<lambda>q. (None, q)) 0x0a000002 1400 (fresh_tunnel ([], []) ()) example_events) = None"
    by code_simp
  then have run: "run_tunnel (device_inject 0x0a000002) (\<lambda>q. (None, q)) 0x0a000002 1400 (fresh_tunnel ([], []) ()) example_events
      = (None, example_tunnel)" by (simp add: example_tunnel_def prod_eq_iff)
  show ?thesis using uplink_end_to_end [OF taken lane stream run] written by simp
qed

end
